(* ===== verification/Prelude.thy ===== *)
theory Prelude
  imports Main "HOL-Library.Word"
begin

text \<open>
  What every component shares: the machine integers of the Rust sources with the standard
  library operations the sources call on them, the result type with its sequencing operator
  (the \<open>?\<close> of Rust), and the generic facts about them.

  The workspace is built without \<open>overflow-checks\<close>, so a plain \<open>+\<close>, \<open>-\<close> or \<open>*\<close> on a Rust
  integer wraps around in the release build. That is what the operations of \<open>'a word\<close> do, and
  the model uses them for plain arithmetic. The \<open>checked_\<close> and \<open>saturating_\<close> families are the
  definitions below. A \<open>usize\<close> that is a length or an index of a vector is a \<open>nat\<close>.
\<close>

unbundle bit_operations_syntax

type_synonym u8 = "8 word"
type_synonym u16 = "16 word"
type_synonym u32 = "32 word"
type_synonym u64 = "64 word"
type_synonym u128 = "128 word"

named_theorems word_ops "characterisations of the checked and saturating operations on nat"
named_theorems result_simps "case analysis of sequenced fallible computations"

section \<open>Integers\<close>

abbreviation max_val :: "'a::len word" where
  "max_val \<equiv> - 1"

definition checked_add :: "'a::len word \<Rightarrow> 'a word \<Rightarrow> 'a word option" where
  "checked_add a b = (if unat a + unat b < 2 ^ LENGTH('a) then Some (a + b) else None)"

definition checked_sub :: "'a::len word \<Rightarrow> 'a word \<Rightarrow> 'a word option" where
  "checked_sub a b = (if b \<le> a then Some (a - b) else None)"

definition checked_mul :: "'a::len word \<Rightarrow> 'a word \<Rightarrow> 'a word option" where
  "checked_mul a b = (if unat a * unat b < 2 ^ LENGTH('a) then Some (a * b) else None)"

definition checked_div :: "'a::len word \<Rightarrow> 'a word \<Rightarrow> 'a word option" where
  "checked_div a b = (if b = 0 then None else Some (a div b))"

definition checked_rem :: "'a::len word \<Rightarrow> 'a word \<Rightarrow> 'a word option" where
  "checked_rem a b = (if b = 0 then None else Some (a mod b))"

definition saturating_add :: "'a::len word \<Rightarrow> 'a word \<Rightarrow> 'a word" where
  "saturating_add a b = (if unat a + unat b < 2 ^ LENGTH('a) then a + b else max_val)"

definition saturating_sub :: "'a::len word \<Rightarrow> 'a word \<Rightarrow> 'a word" where
  "saturating_sub a b = (if b \<le> a then a - b else 0)"

definition saturating_mul :: "'a::len word \<Rightarrow> 'a word \<Rightarrow> 'a word" where
  "saturating_mul a b = (if unat a * unat b < 2 ^ LENGTH('a) then a * b else max_val)"

definition saturating_pow :: "'a::len word \<Rightarrow> u32 \<Rightarrow> 'a word" where
  "saturating_pow a n = (if unat a ^ unat n < 2 ^ LENGTH('a) then a ^ unat n else max_val)"

definition unwrap_or :: "'a option \<Rightarrow> 'a \<Rightarrow> 'a" where
  "unwrap_or x d = (case x of None \<Rightarrow> d | Some y \<Rightarrow> y)"

lemma unat_less_exp: "unat (a :: 'a::len word) < 2 ^ LENGTH('a)"
  by (rule unsigned_less)

lemma unat_max_val [simp]: "unat (max_val :: 'a::len word) = 2 ^ LENGTH('a) - 1"
  by (simp add: unsigned_minus_1_eq_mask mask_eq_exp_minus_1)

lemma unat_add_no_wrap:
  "unat a + unat b < 2 ^ LENGTH('a) \<Longrightarrow> unat (a + b :: 'a::len word) = unat a + unat b"
  by (simp add: unat_word_ariths)

lemma unat_mul_no_wrap:
  "unat a * unat b < 2 ^ LENGTH('a) \<Longrightarrow> unat (a * b :: 'a::len word) = unat a * unat b"
  by (simp add: unat_word_ariths)

lemma unat_sub_no_wrap: "b \<le> a \<Longrightarrow> unat (a - b :: 'a::len word) = unat a - unat b"
  by (rule unat_sub)

lemma unat_of_nat_fits: "n < 2 ^ LENGTH('a) \<Longrightarrow> unat (of_nat n :: 'a::len word) = n"
  by (simp add: unat_of_nat)

lemma unat_ucast_wider:
  "LENGTH('a) \<le> LENGTH('b) \<Longrightarrow> unat (ucast (a :: 'a::len word) :: 'b::len word) = unat a"
proof -
  assume "LENGTH('a) \<le> LENGTH('b)"
  then have "(2 :: nat) ^ LENGTH('a) \<le> 2 ^ LENGTH('b)" by (rule power_increasing) simp
  with unat_less_exp [of a] have "unat a < 2 ^ LENGTH('b)" by (rule order_less_le_trans)
  then have "take_bit LENGTH('b) (unat a) = unat a" by (rule take_bit_nat_eq_self)
  then show ?thesis by (simp only: unsigned_ucast_eq)
qed

lemma unat_ucast_fits: "unat a < 2 ^ LENGTH('b) \<Longrightarrow> unat (ucast (a :: 'a::len word) :: 'b::len word) = unat a"
  by (simp only: unsigned_ucast_eq take_bit_nat_eq_self)

lemma checked_add_Some [word_ops]:
  "checked_add a b = Some c \<longleftrightarrow> unat (a :: 'a::len word) + unat b < 2 ^ LENGTH('a) \<and> c = a + b"
  by (auto simp: checked_add_def)

lemma checked_add_None [word_ops]:
  "checked_add a b = None \<longleftrightarrow> 2 ^ LENGTH('a) \<le> unat (a :: 'a::len word) + unat b"
  by (auto simp: checked_add_def)

lemma checked_sub_Some [word_ops]:
  "checked_sub a b = Some c \<longleftrightarrow> b \<le> (a :: 'a::len word) \<and> c = a - b"
  by (auto simp: checked_sub_def)

lemma checked_sub_None [word_ops]: "checked_sub a b = None \<longleftrightarrow> a < (b :: 'a::len word)"
  by (auto simp: checked_sub_def)

lemma unat_checked_add:
  "checked_add a b = Some c \<Longrightarrow> unat (c :: 'a::len word) = unat a + unat b"
  by (auto simp: checked_add_Some unat_add_no_wrap)

lemma unat_checked_sub:
  "checked_sub a b = Some c \<Longrightarrow> unat (c :: 'a::len word) + unat b = unat a"
  by (auto simp: checked_sub_Some unat_sub_no_wrap word_le_nat_alt)

lemma min_max_val:
  fixes x :: nat
  shows "min x (2 ^ n - 1) = (if x < 2 ^ n then x else 2 ^ n - 1)"
proof -
  have "(0::nat) < 2 ^ n" by simp
  then have "x \<le> 2 ^ n - 1 \<longleftrightarrow> x < 2 ^ n" by linarith
  then show ?thesis unfolding min_def by simp
qed

lemma unat_saturating_add [word_ops]:
  "unat (saturating_add a b :: 'a::len word) = min (unat a + unat b) (2 ^ LENGTH('a) - 1)"
  by (auto simp: saturating_add_def unat_add_no_wrap min_max_val)

lemma unat_saturating_sub [word_ops]:
  "unat (saturating_sub a b :: 'a::len word) = unat a - unat b"
  by (auto simp: saturating_sub_def unat_sub_no_wrap word_le_nat_alt)

lemma unat_saturating_mul [word_ops]:
  "unat (saturating_mul a b :: 'a::len word) = min (unat a * unat b) (2 ^ LENGTH('a) - 1)"
  by (auto simp: saturating_mul_def unat_mul_no_wrap min_max_val)

lemma unat_power_no_wrap:
  "unat a ^ n < 2 ^ LENGTH('a) \<Longrightarrow> unat (a ^ n :: 'a::len word) = unat a ^ n"
proof (induction n)
  case 0
  then show ?case by simp
next
  case (Suc n)
  show ?case
  proof (cases "unat a = 0")
    case True
    then have "a = 0" by (simp add: unat_eq_zero)
    then show ?thesis by simp
  next
    case False
    then have "unat a ^ n \<le> unat a ^ Suc n" by simp
    with Suc.prems have "unat a ^ n < 2 ^ LENGTH('a)" by linarith
    then have "unat (a ^ n) = unat a ^ n" by (rule Suc.IH)
    with Suc.prems show ?thesis by (simp add: unat_mul_no_wrap)
  qed
qed

lemma unat_saturating_pow [word_ops]:
  "unat (saturating_pow a n :: 'a::len word) = min (unat a ^ unat n) (2 ^ LENGTH('a) - 1)"
  by (auto simp: saturating_pow_def unat_power_no_wrap min_max_val)

lemma unwrap_or_simps [simp]: "unwrap_or None d = d" "unwrap_or (Some x) d = x"
  by (simp_all add: unwrap_or_def)

text \<open>
  \<open>next_power_of_two\<close> and \<open>trailing_zeros\<close> of \<open>u64\<close>. In the release build
  \<open>next_power_of_two\<close> returns 0 when the result does not fit, which is what the truncation of
  \<open>2 ^ k\<close> to 64 bits gives; \<open>trailing_zeros\<close> of 0 is 64.
\<close>

function next_pow2_exp :: "nat \<Rightarrow> nat \<Rightarrow> nat" where
  "next_pow2_exp n k = (if n \<le> 2 ^ k then k else next_pow2_exp n (Suc k))"
  by pat_completeness auto
termination
proof (relation "measure (\<lambda>(n, k). n - k)", simp, clarsimp)
  fix n k :: nat
  assume "\<not> n \<le> 2 ^ k"
  moreover have "k < 2 ^ k" by (rule less_exp)
  ultimately show "n - Suc k < n - k" by linarith
qed

declare next_pow2_exp.simps [simp del]

definition next_power_of_two :: "u64 \<Rightarrow> u64" where
  "next_power_of_two a = 2 ^ next_pow2_exp (unat a) 0"

fun trailing_zeros_from :: "nat \<Rightarrow> nat \<Rightarrow> u64 \<Rightarrow> nat" where
  "trailing_zeros_from 0 k a = k"
| "trailing_zeros_from (Suc fuel) k a =
     (if bit a k then k else trailing_zeros_from fuel (Suc k) a)"

definition trailing_zeros :: "u64 \<Rightarrow> u32" where
  "trailing_zeros a = of_nat (trailing_zeros_from 64 0 a)"

section \<open>Results\<close>

text \<open>\<open>Inl\<close> is Rust's \<open>Err\<close>, \<open>Inr\<close> its \<open>Ok\<close>; \<open>bind_r m f\<close> is \<open>let x = m?; f x\<close>.\<close>

type_synonym ('e, 'a) result = "'e + 'a"

definition bind_r :: "('e, 'a) result \<Rightarrow> ('a \<Rightarrow> ('e, 'b) result) \<Rightarrow> ('e, 'b) result" where
  "bind_r m f = (case m of Inl e \<Rightarrow> Inl e | Inr x \<Rightarrow> f x)"

definition map_err :: "('e \<Rightarrow> 'f) \<Rightarrow> ('e, 'a) result \<Rightarrow> ('f, 'a) result" where
  "map_err g m = (case m of Inl e \<Rightarrow> Inl (g e) | Inr x \<Rightarrow> Inr x)"

definition ok_or :: "'a option \<Rightarrow> 'e \<Rightarrow> ('e, 'a) result" where
  "ok_or x e = (case x of None \<Rightarrow> Inl e | Some y \<Rightarrow> Inr y)"

definition guard_r :: "bool \<Rightarrow> 'e \<Rightarrow> ('e, unit) result" where
  "guard_r b e = (if b then Inr () else Inl e)"

lemma bind_r_simps [simp]: "bind_r (Inl e) f = Inl e" "bind_r (Inr x) f = f x"
  by (simp_all add: bind_r_def)

lemma bind_r_Inr [result_simps]: "bind_r m f = Inr y \<longleftrightarrow> (\<exists>x. m = Inr x \<and> f x = Inr y)"
  by (cases m) auto

lemma bind_r_Inl [result_simps]:
  "bind_r m f = Inl e \<longleftrightarrow> m = Inl e \<or> (\<exists>x. m = Inr x \<and> f x = Inl e)"
  by (cases m) auto

lemma bind_r_InrE:
  assumes "bind_r m f = Inr y"
  obtains x where "m = Inr x" and "f x = Inr y"
  using assms by (auto simp: bind_r_Inr)

lemma map_err_simps [simp]: "map_err g (Inl e) = Inl (g e)" "map_err g (Inr x) = Inr x"
  by (simp_all add: map_err_def)

lemma map_err_Inr [result_simps]: "map_err g m = Inr x \<longleftrightarrow> m = Inr x"
  by (cases m) auto

lemma ok_or_simps [simp]: "ok_or None e = Inl e" "ok_or (Some x) e = Inr x"
  by (simp_all add: ok_or_def)

lemma ok_or_Inr [result_simps]: "ok_or x e = Inr y \<longleftrightarrow> x = Some y"
  by (cases x) auto

lemma ok_or_Inl [result_simps]: "ok_or x e = Inl e' \<longleftrightarrow> x = None \<and> e' = e"
  by (cases x) auto

lemma guard_r_simps [simp]: "guard_r True e = Inr ()" "guard_r False e = Inl e"
  by (simp_all add: guard_r_def)

lemma guard_r_Inr [result_simps]: "guard_r b e = Inr u \<longleftrightarrow> b"
  by (simp add: guard_r_def)

lemma guard_r_Inl [result_simps]: "guard_r b e = Inl e' \<longleftrightarrow> \<not> b \<and> e' = e"
  by (auto simp: guard_r_def)

section \<open>Machines and their invariants\<close>

text \<open>
  The contract between a component with a step function and whoever runs it: every step keeps
  the invariant. What follows once and for all is that every run from a good state is good, and
  that a quantity no step lets shrink never shrinks over a run.
\<close>

locale inv_machine =
  fixes step :: "'e \<Rightarrow> 's \<Rightarrow> 's"
    and inv :: "'s \<Rightarrow> bool"
  assumes step_inv: "inv s \<Longrightarrow> inv (step e s)"
begin

lemma run_inv: "inv s \<Longrightarrow> inv (fold step es s)"
  by (induction es arbitrary: s) (auto simp: step_inv)

lemma run_measure:
  fixes m :: "'s \<Rightarrow> nat"
  assumes "\<And>s e. inv s \<Longrightarrow> m s \<le> m (step e s)" and "inv s"
  shows "m s \<le> m (fold step es s)"
  using assms(2)
proof (induction es arbitrary: s)
  case Nil
  then show ?case by simp
next
  case (Cons e es)
  then have "m s \<le> m (step e s)" using assms(1) by blast
  also have "\<dots> \<le> m (fold step es (step e s))" using Cons by (simp add: step_inv)
  finally show ?case by simp
qed

end

text \<open>The same for fallible steps: a run stops at the first error.\<close>

fun run_r :: "('x \<Rightarrow> 's \<Rightarrow> ('err, 's) result) \<Rightarrow> 'x list \<Rightarrow> 's \<Rightarrow> ('err, 's) result" where
  "run_r f [] s = Inr s"
| "run_r f (e # es) s = bind_r (f e s) (run_r f es)"

locale fallible_machine =
  fixes step :: "'x \<Rightarrow> 's \<Rightarrow> ('err, 's) result"
    and inv :: "'s \<Rightarrow> bool"
    and rel :: "'s \<Rightarrow> 's \<Rightarrow> bool"
  assumes step_inv: "inv s \<Longrightarrow> step e s = Inr s' \<Longrightarrow> inv s'"
    and step_rel: "inv s \<Longrightarrow> step e s = Inr s' \<Longrightarrow> rel s s'"
    and rel_refl: "rel s s"
    and rel_trans: "rel s t \<Longrightarrow> rel t u \<Longrightarrow> rel s u"
begin

lemma run_inv: "inv s \<Longrightarrow> run_r step es s = Inr s' \<Longrightarrow> inv s'"
  by (induction es arbitrary: s) (auto simp: result_simps intro: step_inv)

lemma run_rel: "inv s \<Longrightarrow> run_r step es s = Inr s' \<Longrightarrow> rel s s'"
proof (induction es arbitrary: s)
  case Nil
  then show ?case by (simp add: rel_refl)
next
  case (Cons e es)
  then obtain t where "step e s = Inr t" "run_r step es t = Inr s'"
    by (auto simp: result_simps)
  with Cons show ?case by (blast intro: step_inv step_rel rel_trans)
qed

end

end
