(* ===== verification/Accounts.thy ===== *)
theory Accounts
  imports Prelude
begin

text \<open>
  What an instruction processor sees: public keys, instruction errors, accounts
  (\<open>sdk/src/account.rs\<close>, \<open>sdk/src/account_utils.rs\<close>), keyed accounts
  (\<open>sdk/src/keyed_account.rs\<close>) and the account store behind them.

  A \<open>KeyedAccount\<close> holds a reference to a cell. Two keyed accounts of an instruction with the same
  key share the cell, so the cells are a store from keys to accounts and a keyed account is its
  key and its two flags. An error drops the store, as the transaction drops the changes of a
  failed instruction. The processors never hold a borrow across another, so the branch
  \<open>AccountBorrowFailed\<close> is not reachable from them and has no counterpart in the model.

  Serialisation (\<open>bincode\<close>, not part of the repository) is a parameter: a \<open>codec\<close> is a
  deserialiser and a serialiser for one type.
\<close>

section \<open>Keys and hashes\<close>

text \<open>32 bytes, read as a big-endian number; the default key is all zeros.\<close>

type_synonym pubkey = "256 word"
type_synonym hash = "256 word"

definition base58_alphabet :: string where
  "base58_alphabet = ''123456789ABCDEFGHJKLMNPQRSTUVWXYZabcdefghijkmnopqrstuvwxyz''"

fun index_of :: "'a \<Rightarrow> 'a list \<Rightarrow> nat" where
  "index_of x [] = 0"
| "index_of x (y # ys) = (if x = y then 0 else Suc (index_of x ys))"

definition pubkey_of_base58 :: "string \<Rightarrow> pubkey" where
  "pubkey_of_base58 s = of_nat (foldl (\<lambda>n c. n * 58 + index_of c base58_alphabet) 0 s)"

definition pubkey_default :: pubkey where
  "pubkey_default = 0"

definition hash_default :: hash where
  "hash_default = 0"

text \<open>The bytes of a 32-byte value, most significant first.\<close>

definition bytes_of :: "256 word \<Rightarrow> u8 list" where
  "bytes_of w = map (\<lambda>i. ucast (drop_bit (8 * (31 - i)) w)) [0..<32]"

definition system_program_id :: pubkey where
  "system_program_id = pubkey_of_base58 ''11111111111111111111111111111111''"

definition vote_program_id :: pubkey where
  "vote_program_id = pubkey_of_base58 ''Vote111111111111111111111111111111111111111''"

definition sysvar_owner_id :: pubkey where
  "sysvar_owner_id = pubkey_of_base58 ''Sysvar1111111111111111111111111111111111111''"

definition clock_id :: pubkey where
  "clock_id = pubkey_of_base58 ''SysvarC1ock11111111111111111111111111111111''"

definition rent_id :: pubkey where
  "rent_id = pubkey_of_base58 ''SysvarRent111111111111111111111111111111111''"

definition slot_hashes_id :: pubkey where
  "slot_hashes_id = pubkey_of_base58 ''SysvarS1otHashes111111111111111111111111111''"

definition recent_blockhashes_id :: pubkey where
  "recent_blockhashes_id = pubkey_of_base58 ''SysvarRecentB1ockHashes11111111111111111111''"

definition instructions_sysvar_id :: pubkey where
  "instructions_sysvar_id = pubkey_of_base58 ''Sysvar1nstructions1111111111111111111111111''"

definition native_loader_id :: pubkey where
  "native_loader_id = pubkey_of_base58 ''NativeLoader1111111111111111111111111111111''"

definition neon_evm_program_id :: pubkey where
  "neon_evm_program_id = pubkey_of_base58 ''eeLSJgWzzxrqKv1UxtRVVH8FX3qCQWUs9QuAjJpETGU''"

definition incinerator_id :: pubkey where
  "incinerator_id = pubkey_of_base58 ''1nc1nerator11111111111111111111111111111111''"

definition secp256k1_program_id :: pubkey where
  "secp256k1_program_id = pubkey_of_base58 ''KeccakSecp256k11111111111111111111111111111''"

definition ed25519_program_id :: pubkey where
  "ed25519_program_id = pubkey_of_base58 ''Ed25519SigVerify111111111111111111111111111''"

definition compute_budget_id :: pubkey where
  "compute_budget_id = pubkey_of_base58 ''ComputeBudget111111111111111111111111111111''"

definition stake_program_id :: pubkey where
  "stake_program_id = pubkey_of_base58 ''Stake11111111111111111111111111111111111111''"

definition stake_config_id :: pubkey where
  "stake_config_id = pubkey_of_base58 ''StakeConfig11111111111111111111111111111111''"

definition stake_history_id :: pubkey where
  "stake_history_id = pubkey_of_base58 ''SysvarStakeHistory1111111111111111111111111''"

lemma base58_digits:
  "index_of CHR ''1'' base58_alphabet = 0"
  "index_of CHR ''B'' base58_alphabet = 10"
  "index_of CHR ''C'' base58_alphabet = 11"
  "index_of CHR ''H'' base58_alphabet = 16"
  "index_of CHR ''R'' base58_alphabet = 24"
  "index_of CHR ''S'' base58_alphabet = 25"
  "index_of CHR ''V'' base58_alphabet = 28"
  "index_of CHR ''a'' base58_alphabet = 33"
  "index_of CHR ''c'' base58_alphabet = 35"
  "index_of CHR ''d'' base58_alphabet = 36"
  "index_of CHR ''e'' base58_alphabet = 37"
  "index_of CHR ''f'' base58_alphabet = 38"
  "index_of CHR ''g'' base58_alphabet = 39"
  "index_of CHR ''i'' base58_alphabet = 41"
  "index_of CHR ''k'' base58_alphabet = 43"
  "index_of CHR ''m'' base58_alphabet = 44"
  "index_of CHR ''n'' base58_alphabet = 45"
  "index_of CHR ''o'' base58_alphabet = 46"
  "index_of CHR ''p'' base58_alphabet = 47"
  "index_of CHR ''r'' base58_alphabet = 49"
  "index_of CHR ''s'' base58_alphabet = 50"
  "index_of CHR ''t'' base58_alphabet = 51"
  "index_of CHR ''u'' base58_alphabet = 52"
  "index_of CHR ''v'' base58_alphabet = 53"
  "index_of CHR ''y'' base58_alphabet = 56"
  by (simp_all add: base58_alphabet_def)

lemma system_program_id_numeral: "system_program_id = 0"
  by (simp add: system_program_id_def pubkey_of_base58_def base58_digits)

lemma vote_program_id_numeral: "vote_program_id = 3338071818571248938818993247932504658966148473698877128351861063997718528000"
  by (simp add: vote_program_id_def pubkey_of_base58_def base58_digits)

lemma sysvar_owner_id_numeral: "sysvar_owner_id = 3010411245944251432122278937989630152839788565688054045150511135798998335488"
  by (simp add: sysvar_owner_id_def pubkey_of_base58_def base58_digits)

lemma instructions_sysvar_id_numeral: "instructions_sysvar_id = 3010411245946659004650937024412888917526102981211644260807408457663811420160"
  by (simp add: instructions_sysvar_id_def pubkey_of_base58_def base58_digits)

lemma compute_budget_id_numeral: "compute_budget_id = 1368025767066952348686461451745039706232400520618738968488030211887297724416"
  by (simp add: compute_budget_id_def pubkey_of_base58_def base58_digits)

lemma stake_program_id_numeral: "stake_program_id = 2999830881511641543315636960581363899061052244619701952529276772483092971520"
  by (simp add: stake_program_id_def pubkey_of_base58_def base58_digits)

lemma stake_config_id_numeral: "stake_config_id = 2999830883595957297425391470815370877654746576576239794379788187849801596928"
  by (simp add: stake_config_id_def pubkey_of_base58_def base58_digits)

lemma stake_history_id_numeral: "stake_history_id = 3010411246023051902640053541412638131892130328438861384560211382976271876096"
  by (simp add: stake_history_id_def pubkey_of_base58_def base58_digits)

lemma clock_id_numeral: "clock_id = 3010411245977774767103551433779408434046391008353408711474217313814305570816"
  by (simp add: clock_id_def pubkey_of_base58_def base58_digits)

lemma rent_id_numeral: "rent_id = 3010411246019284437244212147455409835011261068170932596721577831542904848384"
  by (simp add: rent_id_def pubkey_of_base58_def base58_digits)

section \<open>Errors\<close>

text \<open>
  The variants of the source in their order. \<open>Panicked\<close> is not one of them: it is the outcome of
  a failed \<open>assert!\<close> or an out-of-range index, which aborts the thread.
\<close>

datatype instruction_error =
    GenericError | InvalidArgument | InvalidInstructionData | InvalidAccountData
  | AccountDataTooSmall | InsufficientFunds | IncorrectProgramId | MissingRequiredSignature
  | AccountAlreadyInitialized | UninitializedAccount | UnbalancedInstruction | ModifiedProgramId
  | ExternalAccountLamportSpend | ExternalAccountDataModified | ReadonlyLamportChange
  | ReadonlyDataModified | DuplicateAccountIndex | ExecutableModified | RentEpochModified
  | NotEnoughAccountKeys | AccountDataSizeChanged | AccountNotExecutable | AccountBorrowFailed
  | AccountBorrowOutstanding | DuplicateAccountOutOfSync | Custom u32 | InvalidError
  | ExecutableDataModified | ExecutableLamportChange | ExecutableAccountNotRentExempt
  | UnsupportedProgramId | CallDepth | MissingAccount | ReentrancyNotAllowed
  | MaxSeedLengthExceeded | InvalidSeeds | InvalidRealloc | ComputationalBudgetExceeded
  | PrivilegeEscalation | ProgramEnvironmentSetupFailure | ProgramFailedToComplete
  | ProgramFailedToCompile | Immutable | IncorrectAuthority | BorshIoError string
  | AccountNotRentExempt | InvalidAccountOwner | ArithmeticOverflow | UnsupportedSysvar
  | IllegalOwner | MaxAccountsDataSizeExceeded | ActiveVoteAccountClose
  | Panicked

type_synonym 'a ix_result = "(instruction_error, 'a) result"

text \<open>
  \<open>From<T: ToPrimitive>\<close>: the built-in codes are \<open>n << 32\<close>, everything else is a custom error of
  its low 32 bits.
\<close>

definition instruction_error_from :: "u64 \<Rightarrow> instruction_error" where
  "instruction_error_from e =
     (if e = push_bit 32 1 then Custom 0
      else if e = push_bit 32 2 then InvalidArgument
      else if e = push_bit 32 3 then InvalidInstructionData
      else if e = push_bit 32 4 then InvalidAccountData
      else if e = push_bit 32 5 then AccountDataTooSmall
      else if e = push_bit 32 6 then InsufficientFunds
      else if e = push_bit 32 7 then IncorrectProgramId
      else if e = push_bit 32 8 then MissingRequiredSignature
      else if e = push_bit 32 9 then AccountAlreadyInitialized
      else if e = push_bit 32 10 then UninitializedAccount
      else if e = push_bit 32 11 then NotEnoughAccountKeys
      else if e = push_bit 32 12 then AccountBorrowFailed
      else if e = push_bit 32 13 then MaxSeedLengthExceeded
      else if e = push_bit 32 14 then InvalidSeeds
      else if e = push_bit 32 15 then BorshIoError ''Unknown''
      else if e = push_bit 32 16 then AccountNotRentExempt
      else if e = push_bit 32 17 then UnsupportedSysvar
      else if e = push_bit 32 18 then IllegalOwner
      else if e = push_bit 32 19 then MaxAccountsDataSizeExceeded
      else if e = push_bit 32 20 then ActiveVoteAccountClose
      else Custom (ucast e))"

datatype lamports_error = LamportsUnderflow | LamportsOverflow

fun lamports_error_into :: "lamports_error \<Rightarrow> instruction_error" where
  "lamports_error_into LamportsOverflow = ArithmeticOverflow"
| "lamports_error_into LamportsUnderflow = ArithmeticOverflow"

datatype pubkey_error = SeedTooLong | SeedsInvalid | OwnerIllegal

fun pubkey_error_code :: "pubkey_error \<Rightarrow> u64" where
  "pubkey_error_code SeedTooLong = 0"
| "pubkey_error_code SeedsInvalid = 1"
| "pubkey_error_code OwnerIllegal = 2"

text \<open>
  \<open>Pubkey::create_with_seed\<close>; \<open>hashv\<close> is SHA-256 of the concatenated slices (the crate \<open>sha2\<close>), a
  parameter.
\<close>

definition MAX_SEED_LEN :: nat where
  "MAX_SEED_LEN = 32"

definition PDA_MARKER :: "u8 list" where
  "PDA_MARKER = map (\<lambda>c. of_nat (of_char c)) ''ProgramDerivedAddress''"

definition create_with_seed ::
  "(u8 list list \<Rightarrow> hash) \<Rightarrow> pubkey \<Rightarrow> string \<Rightarrow> pubkey \<Rightarrow> (pubkey_error, pubkey) result" where
  "create_with_seed hashv base seed own =
     (if length seed > MAX_SEED_LEN then Inl SeedTooLong
      else if drop (32 - length PDA_MARKER) (bytes_of own) = PDA_MARKER then Inl OwnerIllegal
      else Inr (hashv [bytes_of base, map (\<lambda>c. of_nat (of_char c)) seed, bytes_of own]))"

section \<open>Accounts\<close>

definition MAX_PERMITTED_DATA_LENGTH :: u64 where
  "MAX_PERMITTED_DATA_LENGTH = 10 * 1024 * 1024"

record account =
  lamports :: u64
  data :: "u8 list"
  owner :: pubkey
  executable :: bool
  rent_epoch :: u64

definition account_default :: account where
  "account_default = \<lparr>lamports = 0, data = [], owner = pubkey_default, executable = False,
     rent_epoch = 0\<rparr>"

text \<open>\<open>shared_new\<close>: an account of \<open>space\<close> zero bytes.\<close>

definition account_new :: "u64 \<Rightarrow> nat \<Rightarrow> pubkey \<Rightarrow> account" where
  "account_new l space own = \<lparr>lamports = l, data = replicate space 0, owner = own,
     executable = False, rent_epoch = 0\<rparr>"

definition checked_add_lamports :: "account \<Rightarrow> u64 \<Rightarrow> (lamports_error, account) result" where
  "checked_add_lamports a n =
     bind_r (ok_or (checked_add (lamports a) n) LamportsOverflow)
       (\<lambda>l. Inr (a\<lparr>lamports := l\<rparr>))"

definition checked_sub_lamports :: "account \<Rightarrow> u64 \<Rightarrow> (lamports_error, account) result" where
  "checked_sub_lamports a n =
     bind_r (ok_or (checked_sub (lamports a) n) LamportsUnderflow)
       (\<lambda>l. Inr (a\<lparr>lamports := l\<rparr>))"

definition saturating_sub_lamports :: "account \<Rightarrow> u64 \<Rightarrow> account" where
  "saturating_sub_lamports a n = a\<lparr>lamports := saturating_sub (lamports a) n\<rparr>"

record 'v codec =
  deserialize :: "u8 list \<Rightarrow> 'v option"
  serialize :: "'v \<Rightarrow> u8 list"

text \<open>
  \<open>StateMut::state\<close> and \<open>set_state\<close>: serialising overwrites the front of the data and fails when
  the serialised size exceeds the data's length.
\<close>

definition state :: "'v codec \<Rightarrow> account \<Rightarrow> 'v ix_result" where
  "state c a = ok_or (deserialize c (data a)) InvalidAccountData"

definition set_state :: "'v codec \<Rightarrow> 'v \<Rightarrow> account \<Rightarrow> account ix_result" where
  "set_state c v a =
     (let bytes = serialize c v
      in if length (data a) < length bytes then Inl AccountDataTooSmall
         else Inr (a\<lparr>data := bytes @ drop (length bytes) (data a)\<rparr>))"

section \<open>Keyed accounts and the store\<close>

record keyed_account =
  is_signer :: bool
  is_writable :: bool
  key :: pubkey

type_synonym store = "pubkey \<Rightarrow> account"

definition signer_key :: "keyed_account \<Rightarrow> pubkey option" where
  "signer_key ka = (if is_signer ka then Some (key ka) else None)"

definition get_signers :: "keyed_account list \<Rightarrow> pubkey set" where
  "get_signers kas = set (List.map_filter signer_key kas)"

definition keyed_account_at_index :: "keyed_account list \<Rightarrow> nat \<Rightarrow> keyed_account ix_result" where
  "keyed_account_at_index kas i = (if i < length kas then Inr (kas ! i) else Inl NotEnoughAccountKeys)"

text \<open>\<open>from_keyed_account::<S>\<close>: the key must be the sysvar's and the data must deserialise.\<close>

definition check_sysvar_keyed_account :: "pubkey \<Rightarrow> keyed_account \<Rightarrow> unit ix_result" where
  "check_sysvar_keyed_account sysvar_id ka = guard_r (key ka = sysvar_id) InvalidArgument"

definition from_keyed_account ::
  "pubkey \<Rightarrow> 'v codec \<Rightarrow> store \<Rightarrow> keyed_account \<Rightarrow> 'v ix_result" where
  "from_keyed_account sysvar_id c s ka =
     bind_r (check_sysvar_keyed_account sysvar_id ka)
       (\<lambda>_. ok_or (deserialize c (data (s (key ka)))) InvalidArgument)"

text \<open>The idiom of every native program that moves lamports: debit one cell, then credit another.\<close>

definition move_lamports :: "pubkey \<Rightarrow> pubkey \<Rightarrow> u64 \<Rightarrow> store \<Rightarrow> store ix_result" where
  "move_lamports from_key to_key n s =
     bind_r (map_err lamports_error_into (checked_sub_lamports (s from_key) n)) (\<lambda>a.
       let s1 = s(from_key := a) in
       bind_r (map_err lamports_error_into (checked_add_lamports (s1 to_key) n)) (\<lambda>b.
         Inr (s1(to_key := b))))"

definition total_lamports :: "pubkey set \<Rightarrow> store \<Rightarrow> nat" where
  "total_lamports K s = (\<Sum>k \<in> K. unat (lamports (s k)))"

lemma instruction_error_from_small: "e < 2 ^ 32 \<Longrightarrow> instruction_error_from e = Custom (ucast e)"
  unfolding instruction_error_from_def by (auto simp: push_bit_eq_mult)

lemma state_Inr [result_simps]: "state c a = Inr v \<longleftrightarrow> deserialize c (data a) = Some v"
  by (simp add: state_def result_simps)

lemma set_state_Inr [result_simps]:
  "set_state c v a = Inr a' \<longleftrightarrow> length (serialize c v) \<le> length (data a) \<and>
     a' = a\<lparr>data := serialize c v @ drop (length (serialize c v)) (data a)\<rparr>"
  by (auto simp: set_state_def Let_def)

lemma set_state_frame:
  assumes "set_state c v a = Inr a'"
  shows "lamports a' = lamports a" and "owner a' = owner a" and "executable a' = executable a"
    and "rent_epoch a' = rent_epoch a" and "length (data a') = length (data a)"
  using assms by (auto simp: set_state_Inr)

text \<open>
  Writing a state and reading it back, for a codec whose deserialiser ignores trailing bytes (as
  \<open>bincode::deserialize\<close> does).
\<close>

lemma state_set_state:
  assumes "\<And>v rest. deserialize c (serialize c v @ rest) = Some v" and "set_state c v a = Inr a'"
  shows "state c a' = Inr v"
  using assms by (auto simp: set_state_Inr state_def)

lemma keyed_account_at_index_Inr [result_simps]:
  "keyed_account_at_index kas i = Inr ka \<longleftrightarrow> i < length kas \<and> ka = kas ! i"
  by (auto simp: keyed_account_at_index_def)

lemma mem_get_signers: "k \<in> get_signers kas \<longleftrightarrow> (\<exists>ka \<in> set kas. is_signer ka \<and> key ka = k)"
  by (force simp: get_signers_def signer_key_def List.map_filter_def split: if_splits)

lemma checked_sub_lamports_Inr [result_simps]:
  "checked_sub_lamports a n = Inr a' \<longleftrightarrow> n \<le> lamports a \<and> a' = a\<lparr>lamports := lamports a - n\<rparr>"
  by (auto simp: checked_sub_lamports_def result_simps word_ops)

lemma checked_add_lamports_Inr [result_simps]:
  "checked_add_lamports a n = Inr a' \<longleftrightarrow>
     unat (lamports a) + unat n < 2 ^ 64 \<and> a' = a\<lparr>lamports := lamports a + n\<rparr>"
  by (auto simp: checked_add_lamports_def result_simps word_ops)

lemma total_lamports_upd:
  assumes "finite K" and "k \<in> K"
  shows "total_lamports K (s(k := a)) + unat (lamports (s k)) = total_lamports K s + unat (lamports a)"
proof -
  have "(\<Sum>x \<in> K - {k}. unat (lamports ((s(k := a)) x))) = (\<Sum>x \<in> K - {k}. unat (lamports (s x)))"
    by (rule sum.cong) auto
  then show ?thesis using assms unfolding total_lamports_def
    by (simp add: sum.remove [of K k])
qed

lemma total_lamports_upd_same:
  "lamports a = lamports (s k) \<Longrightarrow> total_lamports K (s(k := a)) = total_lamports K s"
  unfolding total_lamports_def by (rule sum.cong) auto

text \<open>
  Moving lamports conserves the total of any set of accounts that holds both, even when the two
  are the same account, and touches nothing but the two balances.
\<close>

lemma move_lamports_total:
  assumes "move_lamports f t n s = Inr s'" and "finite K" and "f \<in> K" and "t \<in> K"
  shows "total_lamports K s' = total_lamports K s"
proof -
  define a where "a = (s f)\<lparr>lamports := lamports (s f) - n\<rparr>"
  define b where "b = ((s(f := a)) t)\<lparr>lamports := lamports ((s(f := a)) t) + n\<rparr>"
  have le: "n \<le> lamports (s f)" and fits: "unat (lamports ((s(f := a)) t)) + unat n < 2 ^ 64"
    and s': "s' = s(f := a, t := b)"
    using assms(1) unfolding move_lamports_def Let_def a_def b_def by (auto simp: result_simps)
  have "total_lamports K s' + unat (lamports ((s(f := a)) t))
    = total_lamports K (s(f := a)) + unat (lamports b)"
    unfolding s' using assms(2,4) by (rule total_lamports_upd)
  moreover have "unat (lamports b) = unat (lamports ((s(f := a)) t)) + unat n"
    unfolding b_def using unat_add_no_wrap [of "lamports ((s(f := a)) t)" n] fits by simp
  moreover have "total_lamports K (s(f := a)) + unat (lamports (s f))
    = total_lamports K s + unat (lamports a)"
    using assms(2,3) by (rule total_lamports_upd)
  moreover have "unat (lamports a) + unat n = unat (lamports (s f))"
    unfolding a_def using le by (simp add: unat_sub_no_wrap word_le_nat_alt)
  ultimately show ?thesis by linarith
qed

lemma move_lamports_frame:
  assumes "move_lamports f t n s = Inr s'"
  shows "k \<noteq> f \<Longrightarrow> k \<noteq> t \<Longrightarrow> s' k = s k"
    and "data (s' k) = data (s k)" and "owner (s' k) = owner (s k)"
    and "executable (s' k) = executable (s k)" and "rent_epoch (s' k) = rent_epoch (s k)"
  using assms unfolding move_lamports_def by (auto simp: result_simps Let_def split: if_splits)

text \<open>Exactly when moving succeeds, and the balances it leaves.\<close>

lemma move_lamports_distinct:
  assumes "f \<noteq> t"
  shows "move_lamports f t n s =
    (if n \<le> lamports (s f) \<and> unat (lamports (s t)) + unat n < 2 ^ 64
     then Inr (s(f := (s f)\<lparr>lamports := lamports (s f) - n\<rparr>,
                 t := (s t)\<lparr>lamports := lamports (s t) + n\<rparr>))
     else Inl ArithmeticOverflow)"
  using assms
  by (auto simp: move_lamports_def checked_sub_lamports_def checked_add_lamports_def
      checked_sub_def checked_add_def bind_r_def ok_or_def Let_def)

text \<open>Only the debited account can end with less.\<close>

lemma move_lamports_mono:
  assumes "move_lamports f t n s = Inr s'" and "k \<noteq> f"
  shows "lamports (s k) \<le> lamports (s' k)"
proof (cases "k = t")
  case True
  with assms have "s' k = (s k)\<lparr>lamports := lamports (s k) + n\<rparr>" "unat (lamports (s k)) + unat n < 2 ^ 64"
    by (auto simp: move_lamports_distinct split: if_splits)
  then show ?thesis
    using unat_add_no_wrap [of "lamports (s k)" n] by (simp add: word_le_nat_alt)
qed (use move_lamports_frame(1) [OF assms] in simp)

end
