(* ===== verification/Ordered_Map.thy ===== *)
theory Ordered_Map
  imports Prelude
begin

text \<open>
  \<open>BTreeMap\<close>: an association list with strictly increasing keys, so that two maps with the same
  entries are equal, as two Rust maps are. The locale \<open>ordered_map\<close> is the contract the clients
  (the authorized voters of a vote account) rely on; the interpretation discharges it for the
  list operations.
\<close>

type_synonym ('k, 'v) btree_map = "('k \<times> 'v) list"

fun btm_insert :: "'k::linorder \<Rightarrow> 'v \<Rightarrow> ('k, 'v) btree_map \<Rightarrow> ('k, 'v) btree_map" where
  "btm_insert k v [] = [(k, v)]"
| "btm_insert k v ((k', v') # m) =
     (if k < k' then (k, v) # (k', v') # m
      else if k = k' then (k, v) # m
      else (k', v') # btm_insert k v m)"

definition btm_remove :: "'k::linorder \<Rightarrow> ('k, 'v) btree_map \<Rightarrow> ('k, 'v) btree_map" where
  "btm_remove k m = filter (\<lambda>(k', _). k' \<noteq> k) m"

definition btm_last :: "('k, 'v) btree_map \<Rightarrow> ('k \<times> 'v) option" where
  "btm_last m = (if m = [] then None else Some (last m))"

text \<open>\<open>btm_below k m\<close> is \<open>m.range(0..k)\<close>: the entries with a key below \<open>k\<close>, in order.\<close>

definition btm_below :: "'k::linorder \<Rightarrow> ('k, 'v) btree_map \<Rightarrow> ('k \<times> 'v) list" where
  "btm_below k m = filter (\<lambda>(k', _). k' < k) m"

definition btm_ok :: "('k::linorder, 'v) btree_map \<Rightarrow> bool" where
  "btm_ok m \<longleftrightarrow> sorted_wrt (<) (map fst m)"

locale ordered_map =
  fixes lookup :: "'m \<Rightarrow> 'k::linorder \<Rightarrow> 'v option"
    and insert :: "'k \<Rightarrow> 'v \<Rightarrow> 'm \<Rightarrow> 'm"
    and remove :: "'k \<Rightarrow> 'm \<Rightarrow> 'm"
    and entries :: "'m \<Rightarrow> ('k \<times> 'v) list"
    and invar :: "'m \<Rightarrow> bool"
  assumes sorted_entries: "invar m \<Longrightarrow> sorted_wrt (<) (map fst (entries m))"
    and lookup_entries: "invar m \<Longrightarrow> lookup m k = map_of (entries m) k"
    and lookup_insert: "invar m \<Longrightarrow> lookup (insert k v m) = (lookup m)(k \<mapsto> v)"
    and lookup_remove: "invar m \<Longrightarrow> lookup (remove k m) = (lookup m)(k := None)"
    and invar_insert: "invar m \<Longrightarrow> invar (insert k v m)"
    and invar_remove: "invar m \<Longrightarrow> invar (remove k m)"
begin

lemma distinct_keys: "invar m \<Longrightarrow> distinct (map fst (entries m))"
  using sorted_entries by (simp add: strict_sorted_iff)

lemma lookup_iff: "invar m \<Longrightarrow> lookup m k = Some v \<longleftrightarrow> (k, v) \<in> set (entries m)"
  by (simp add: lookup_entries distinct_keys)

text \<open>The last entry has the greatest key.\<close>

lemma last_greatest:
  assumes "invar m" and "lookup m k = Some v"
  shows "entries m \<noteq> []" and "k \<le> fst (last (entries m))"
proof -
  have mem: "(k, v) \<in> set (entries m)" using assms by (simp add: lookup_iff)
  then show ne: "entries m \<noteq> []" by auto
  have "sorted (map fst (entries m))"
    using sorted_entries [OF assms(1)] by (simp add: strict_sorted_iff)
  moreover have "k \<in> set (map fst (entries m))" using mem by force
  ultimately have "k \<le> last (map fst (entries m))"
    using ne by (metis in_set_conv_nth last_conv_nth length_map length_pos_if_in_set less_Suc_eq_le
        list.map_disc_iff sorted_nth_mono Suc_diff_1 diff_less zero_less_one)
  then show "k \<le> fst (last (entries m))" using ne by (simp add: last_map)
qed

text \<open>The last entry below a bound is the entry of the greatest key below it.\<close>

lemma last_below:
  assumes "invar m" and "filter (\<lambda>(k', _). k' < b) (entries m) \<noteq> []"
    and "last (filter (\<lambda>(k', _). k' < b) (entries m)) = (k, v)"
  shows "lookup m k = Some v" and "k < b" and "lookup m k' \<noteq> None \<Longrightarrow> k' < b \<Longrightarrow> k' \<le> k"
proof -
  let ?f = "filter (\<lambda>(k', _). k' < b) (entries m)"
  have mem: "(k, v) \<in> set ?f" using assms(2,3) last_in_set by metis
  then show "lookup m k = Some v" and "k < b" using assms(1) by (auto simp: lookup_iff)
  assume "lookup m k' \<noteq> None" and "k' < b"
  then obtain v' where mem': "(k', v') \<in> set ?f" using assms(1) by (auto simp: lookup_iff)
  have "map fst ?f = filter (\<lambda>k'. k' < b) (map fst (entries m))"
    by (simp add: filter_map comp_def case_prod_unfold)
  then have "sorted_wrt (<) (map fst ?f)"
    using sorted_entries [OF assms(1)] by (simp add: sorted_wrt_filter)
  then have srt: "sorted (map fst ?f)" by (simp add: strict_sorted_iff)
  from mem' obtain ys x where ys: "?f = ys @ [x]" using assms(2) by (metis append_butlast_last_id)
  then have "x = (k, v)" using assms(3) by simp
  with srt ys mem' show "k' \<le> k" by (fastforce simp: sorted_append)
qed

end

lemma set_btm_insert: "btm_ok m \<Longrightarrow> fst ` set (btm_insert k v m) = insert k (fst ` set m)"
  by (induction k v m rule: btm_insert.induct) (auto simp: btm_ok_def)

lemma btm_ok_insert: "btm_ok m \<Longrightarrow> btm_ok (btm_insert k v m)"
proof (induction k v m rule: btm_insert.induct)
  case (1 k v)
  then show ?case by (simp add: btm_ok_def)
next
  case (2 k v k' v' m)
  then have ok: "btm_ok m" and below: "\<forall>x \<in> fst ` set m. k' < x" by (auto simp: btm_ok_def)
  show ?case
  proof (cases "k < k' \<or> k = k'")
    case True
    with "2.prems" show ?thesis by (fastforce simp: btm_ok_def)
  next
    case False
    then have "k' < k" by auto
    with below set_btm_insert [OF ok] have "\<forall>x \<in> fst ` set (btm_insert k v m). k' < x" by auto
    with False "2.IH" ok show ?thesis by (auto simp: btm_ok_def)
  qed
qed

lemma map_of_btm_insert: "map_of (btm_insert k v m) = (map_of m)(k \<mapsto> v)"
  by (induction k v m rule: btm_insert.induct) (auto simp: fun_eq_iff)

lemma map_of_btm_remove: "map_of (btm_remove k m) = (map_of m)(k := None)"
  by (induction m) (auto simp: btm_remove_def fun_eq_iff)

lemma btm_ok_filter: "btm_ok m \<Longrightarrow> btm_ok (filter P m)"
  unfolding btm_ok_def
  by (induction m) auto

interpretation btm: ordered_map map_of btm_insert btm_remove "\<lambda>m. m" btm_ok
proof
  show "btm_ok m \<Longrightarrow> sorted_wrt (<) (map fst m)" for m :: "('a \<times> 'b) list"
    by (simp add: btm_ok_def)
  show "btm_ok m \<Longrightarrow> btm_ok (btm_remove k m)" for m :: "('a \<times> 'b) list" and k
    unfolding btm_remove_def by (rule btm_ok_filter)
qed (simp_all add: map_of_btm_insert map_of_btm_remove btm_ok_insert)

end
