(* ===== verification/Authorized_Voters.thy ===== *)
theory Authorized_Voters
  imports Accounts Ordered_Map
begin

text \<open>
  \<open>programs/vote/src/authorized_voters.rs\<close>: which key may sign votes in which epoch. An entry
  holds from its epoch until the next entry's; the map caches the voter of an epoch on a query
  and drops the epochs before the current one.
\<close>

type_synonym authorized_voters = "(u64, pubkey) btree_map"

definition authorized_voters_new :: "u64 \<Rightarrow> pubkey \<Rightarrow> authorized_voters" where
  "authorized_voters_new ep pk = btm_insert ep pk []"

definition get_or_calculate_authorized_voter_for_epoch ::
  "authorized_voters \<Rightarrow> u64 \<Rightarrow> (pubkey \<times> bool) option" where
  "get_or_calculate_authorized_voter_for_epoch m ep =
     (case map_of m ep of
        None \<Rightarrow> map_option (\<lambda>(_, pk). (pk, False)) (btm_last (btm_below ep m))
      | Some pk \<Rightarrow> Some (pk, True))"

definition get_authorized_voter :: "authorized_voters \<Rightarrow> u64 \<Rightarrow> pubkey option" where
  "get_authorized_voter m ep = map_option fst (get_or_calculate_authorized_voter_for_epoch m ep)"

definition get_and_cache_authorized_voter_for_epoch ::
  "authorized_voters \<Rightarrow> u64 \<Rightarrow> (pubkey \<times> authorized_voters) option" where
  "get_and_cache_authorized_voter_for_epoch m ep =
     map_option (\<lambda>(pk, existed). (pk, if existed then m else btm_insert ep pk m))
       (get_or_calculate_authorized_voter_for_epoch m ep)"

text \<open>The assertion of the source fails when nothing is left: \<open>None\<close>.\<close>

definition purge_authorized_voters :: "authorized_voters \<Rightarrow> u64 \<Rightarrow> authorized_voters option" where
  "purge_authorized_voters m current_epoch =
     (let expired_keys = map fst (btm_below current_epoch m);
          m' = fold btm_remove expired_keys m
      in if m' = [] then None else Some m')"

definition authorized_voters_first :: "authorized_voters \<Rightarrow> (u64 \<times> pubkey) option" where
  "authorized_voters_first m = (case m of [] \<Rightarrow> None | e # _ \<Rightarrow> Some e)"

definition authorized_voters_last :: "authorized_voters \<Rightarrow> (u64 \<times> pubkey) option" where
  "authorized_voters_last m = btm_last m"

definition authorized_voters_contains :: "authorized_voters \<Rightarrow> u64 \<Rightarrow> bool" where
  "authorized_voters_contains m ep \<longleftrightarrow> map_of m ep \<noteq> None"

section \<open>What the queries compute\<close>

text \<open>
  The specification of a query: the voter of the greatest epoch of the map that is not after the
  one asked for.
\<close>

definition is_voter_at :: "authorized_voters \<Rightarrow> u64 \<Rightarrow> pubkey \<Rightarrow> bool" where
  "is_voter_at m ep pk \<longleftrightarrow>
     (\<exists>k \<le> ep. map_of m k = Some pk \<and> (\<forall>k' \<le> ep. map_of m k' \<noteq> None \<longrightarrow> k' \<le> k))"

lemma is_voter_at_unique: "is_voter_at m ep pk \<Longrightarrow> is_voter_at m ep pk' \<Longrightarrow> pk = pk'"
  unfolding is_voter_at_def by (metis option.distinct(1) option.inject order_antisym)

lemma get_or_calculate_spec:
  assumes "btm_ok m"
  shows "get_or_calculate_authorized_voter_for_epoch m ep = Some (pk, existed) \<Longrightarrow>
      is_voter_at m ep pk \<and> (existed \<longleftrightarrow> map_of m ep \<noteq> None)"
    and "get_or_calculate_authorized_voter_for_epoch m ep = None \<Longrightarrow> map_of m k \<noteq> None \<Longrightarrow> ep < k"
proof -
  assume r: "get_or_calculate_authorized_voter_for_epoch m ep = Some (pk, existed)"
  show "is_voter_at m ep pk \<and> (existed \<longleftrightarrow> map_of m ep \<noteq> None)"
  proof (cases "map_of m ep")
    case (Some pk')
    then show ?thesis using r
      by (auto simp: get_or_calculate_authorized_voter_for_epoch_def is_voter_at_def)
  next
    case None
    then have ne: "btm_below ep m \<noteq> []" and ex: "\<not> existed"
      and l: "\<exists>k. last (btm_below ep m) = (k, pk)"
      using r by (auto simp: get_or_calculate_authorized_voter_for_epoch_def btm_last_def
          split: if_splits)
    then obtain k where k: "last (btm_below ep m) = (k, pk)" by blast
    note below = btm.last_below [OF assms, of ep k pk, folded btm_below_def, OF ne k]
    have "k' \<le> k" if "k' \<le> ep" "map_of m k' \<noteq> None" for k'
      using that None below(3) [of k'] by (cases "k' = ep") auto
    then have "is_voter_at m ep pk"
      unfolding is_voter_at_def using below(1,2) by (meson order_less_imp_le)
    with None ex show ?thesis by simp
  qed
next
  assume "get_or_calculate_authorized_voter_for_epoch m ep = None" and k: "map_of m k \<noteq> None"
  then have none: "map_of m ep = None" and nil: "btm_below ep m = []"
    by (auto simp: get_or_calculate_authorized_voter_for_epoch_def btm_last_def
        split: option.splits if_splits)
  obtain v where "(k, v) \<in> set m" using k map_of_SomeD by fast
  with nil have "\<not> k < ep" by (auto simp: btm_below_def filter_empty_conv)
  then show "ep < k" using k none by (metis not_less_iff_gr_or_eq)
qed

lemma get_authorized_voter_iff:
  assumes "btm_ok m"
  shows "get_authorized_voter m ep = Some pk \<longleftrightarrow> is_voter_at m ep pk"
proof
  assume "get_authorized_voter m ep = Some pk"
  then show "is_voter_at m ep pk"
    using get_or_calculate_spec(1) [OF assms] by (auto simp: get_authorized_voter_def)
next
  assume v: "is_voter_at m ep pk"
  then obtain k where "k \<le> ep" "map_of m k \<noteq> None" by (auto simp: is_voter_at_def)
  then have "get_or_calculate_authorized_voter_for_epoch m ep \<noteq> None"
    using get_or_calculate_spec(2) [OF assms] by (metis leD)
  then obtain pk' b where r: "get_or_calculate_authorized_voter_for_epoch m ep = Some (pk', b)"
    by auto
  then have "is_voter_at m ep pk'" using get_or_calculate_spec(1) [OF assms] by blast
  with v have "pk' = pk" by (blast dest: is_voter_at_unique)
  with r show "get_authorized_voter m ep = Some pk" by (simp add: get_authorized_voter_def)
qed

lemma purge_eq_filter:
  "fold btm_remove (map fst (btm_below ep m)) m = filter (\<lambda>(k, _). \<not> k < ep) m"
proof -
  have "fold btm_remove ks m = filter (\<lambda>(k, _). k \<notin> set ks) m" for ks
    by (induction ks arbitrary: m)
      (auto simp: btm_remove_def case_prod_unfold intro!: filter_cong)
  moreover have "filter (\<lambda>(k, _). k \<notin> set (map fst (btm_below ep m))) m
    = filter (\<lambda>(k, _). \<not> k < ep) m"
    by (rule filter_cong) (force simp: btm_below_def)+
  ultimately show ?thesis by simp
qed

lemma map_of_filter_keys: "map_of (filter (\<lambda>(k, _). P k) m) k = (if P k then map_of m k else None)"
  by (induction m) auto

text \<open>
  Dropping the epochs before \<open>cur\<close> once the voter of \<open>cur\<close> is stored at \<open>cur\<close> itself changes
  the voter of no epoch from \<open>cur\<close> on.
\<close>

lemma is_voter_at_restrict:
  assumes v: "is_voter_at m cur pk"
    and m2: "\<And>k. map_of m2 k = (if k < cur then None else ((map_of m)(cur \<mapsto> pk)) k)"
    and "cur \<le> ep"
  shows "is_voter_at m2 ep q \<longleftrightarrow> is_voter_at m ep q"
proof (cases "\<exists>k. cur < k \<and> k \<le> ep \<and> map_of m k \<noteq> None")
  case True
  then obtain k1 where k1: "cur < k1" "k1 \<le> ep" "map_of m k1 \<noteq> None" by blast
  have dom: "map_of m2 k \<noteq> None \<longleftrightarrow> k = cur \<or> (cur < k \<and> map_of m k \<noteq> None)" for k
    using m2 [of k] by (auto simp: not_less)
  have bound: "(\<forall>k' \<le> ep. map_of m2 k' \<noteq> None \<longrightarrow> k' \<le> k)
    \<longleftrightarrow> (\<forall>k' \<le> ep. map_of m k' \<noteq> None \<longrightarrow> k' \<le> k)" if "cur < k" for k
    using that dom by (auto simp: not_less)
  have above: "cur < k" if "\<forall>k' \<le> ep. P k' \<longrightarrow> k' \<le> k" and "P k1" for k and P :: "u64 \<Rightarrow> bool"
    using that k1(1,2) by (meson order_less_le_trans)
  have same: "map_of m2 k = map_of m k" if "cur < k" for k
    using that m2 [of k] by auto
  have P1: "map_of m2 k1 \<noteq> None" using k1 dom by blast
  show ?thesis
  proof
    assume "is_voter_at m2 ep q"
    then obtain k where k: "k \<le> ep" "map_of m2 k = Some q" "\<forall>k' \<le> ep. map_of m2 k' \<noteq> None \<longrightarrow> k' \<le> k"
      unfolding is_voter_at_def by blast
    then have "cur < k" using above [where P = "\<lambda>k. map_of m2 k \<noteq> None"] P1 by blast
    then show "is_voter_at m ep q" unfolding is_voter_at_def using k bound [of k] same [of k] by auto
  next
    assume "is_voter_at m ep q"
    then obtain k where k: "k \<le> ep" "map_of m k = Some q" "\<forall>k' \<le> ep. map_of m k' \<noteq> None \<longrightarrow> k' \<le> k"
      unfolding is_voter_at_def by blast
    then have "cur < k" using above [where P = "\<lambda>k. map_of m k \<noteq> None"] k1(3) by blast
    then show "is_voter_at m2 ep q" unfolding is_voter_at_def using k bound [of k] same [of k] by auto
  qed
next
  case False
  obtain k0 where k0: "k0 \<le> cur" "map_of m k0 = Some pk"
    "\<forall>k' \<le> cur. map_of m k' \<noteq> None \<longrightarrow> k' \<le> k0"
    using v by (auto simp: is_voter_at_def)
  have "k \<le> cur" if "k \<le> ep" "map_of m k \<noteq> None" for k
    using False that by (meson not_le)
  then have "is_voter_at m ep pk"
    unfolding is_voter_at_def using k0 \<open>cur \<le> ep\<close> by (meson order_trans)
  moreover have "k \<le> cur" if "k \<le> ep" "map_of m2 k \<noteq> None" for k
    using False that m2 [of k] by (metis fun_upd_apply not_le order_refl)
  then have "is_voter_at m2 ep pk"
    unfolding is_voter_at_def using m2 [of cur] \<open>cur \<le> ep\<close> by auto
  ultimately show ?thesis by (blast dest: is_voter_at_unique)
qed

lemma map_of_cached:
  assumes "btm_ok m" and "get_and_cache_authorized_voter_for_epoch m cur = Some (pk, m1)"
  shows "btm_ok m1" and "map_of m1 = (map_of m)(cur \<mapsto> pk)" and "is_voter_at m cur pk"
proof -
  obtain ex where g: "get_or_calculate_authorized_voter_for_epoch m cur = Some (pk, ex)"
    and m1: "m1 = (if ex then m else btm_insert cur pk m)"
    using assms(2) by (auto simp: get_and_cache_authorized_voter_for_epoch_def)
  show "is_voter_at m cur pk" using get_or_calculate_spec(1) [OF assms(1) g] by simp
  show "btm_ok m1" using assms(1) by (simp add: m1 btm.invar_insert)
  show "map_of m1 = (map_of m)(cur \<mapsto> pk)"
  proof (cases ex)
    case True
    with g have "map_of m cur = Some pk"
      by (auto simp: get_or_calculate_authorized_voter_for_epoch_def split: option.splits)
    with True show ?thesis by (auto simp: m1)
  qed (simp add: m1 map_of_btm_insert)
qed

text \<open>
  Caching and purging: what \<open>get_and_update_authorized_voter\<close> of a vote state does to the map.
  It never fails once the query has an answer, and no epoch from the current one on gets another
  voter.
\<close>

lemma cache_purge_preserves:
  assumes ok: "btm_ok m"
    and c: "get_and_cache_authorized_voter_for_epoch m cur = Some (pk, m1)"
  obtains m2 where "purge_authorized_voters m1 cur = Some m2" and "btm_ok m2"
    and "\<And>k. map_of m2 k = (if k < cur then None else ((map_of m)(cur \<mapsto> pk)) k)"
    and "\<And>ep. cur \<le> ep \<Longrightarrow> get_authorized_voter m2 ep = get_authorized_voter m ep"
proof -
  define m2 where "m2 = filter (\<lambda>(k, _). \<not> k < cur) m1"
  note m1 = map_of_cached [OF ok c]
  have map2: "map_of m2 k = (if k < cur then None else ((map_of m)(cur \<mapsto> pk)) k)" for k
    using map_of_filter_keys [of "\<lambda>k. \<not> k < cur" m1 k] by (simp add: m2_def m1(2))
  have ok2: "btm_ok m2" using m1(1) unfolding m2_def by (rule btm_ok_filter)
  have "map_of m2 cur \<noteq> None" by (simp add: map2)
  then have "m2 \<noteq> []" by auto
  then have "purge_authorized_voters m1 cur = Some m2"
    by (simp add: purge_authorized_voters_def purge_eq_filter m2_def)
  moreover have "get_authorized_voter m2 ep = get_authorized_voter m ep" if "cur \<le> ep" for ep
  proof -
    have "is_voter_at m2 ep q \<longleftrightarrow> is_voter_at m ep q" for q
      using m1(3) map2 that by (rule is_voter_at_restrict)
    then have "get_authorized_voter m2 ep = Some q \<longleftrightarrow> get_authorized_voter m ep = Some q" for q
      using get_authorized_voter_iff [OF ok] get_authorized_voter_iff [OF ok2] by simp
    then show ?thesis by (metis not_None_eq)
  qed
  ultimately show thesis using that ok2 map2 by blast
qed

end
