(* ===== verification/Floats.thy ===== *)
theory Floats
  imports Prelude
begin

text \<open>
  IEEE 754 binary64 as the Rust type \<open>f64\<close> uses it: \<open>Finite m e\<close> is the number \<open>m * 2 ^ e\<close>,
  and every operation computes the exact result and rounds it to 53 significant bits, ties to
  even, with gradual underflow below \<open>2 ^ -1074\<close> and overflow to infinity at \<open>2 ^ 1024\<close>. The
  sign of zero is not kept. Conversions follow Rust's \<open>as\<close>: integers are rounded to nearest,
  floats are truncated and saturate, a NaN becomes 0.
\<close>

datatype f64 = Finite int int | Infinite bool | NaN

fun bit_length :: "nat \<Rightarrow> nat" where
  "bit_length n = (if n = 0 then 0 else Suc (bit_length (n div 2)))"

declare bit_length.simps [simp del]

definition round_shift :: "nat \<Rightarrow> nat \<Rightarrow> nat" where
  "round_shift n k =
     (let q = n div 2 ^ k; r = n mod 2 ^ k
      in if 2 * r < 2 ^ k then q
         else if 2 ^ k < 2 * r then q + 1
         else if even q then q else q + 1)"

definition round_f64 :: "int \<Rightarrow> int \<Rightarrow> f64" where
  "round_f64 m e =
     (let n = nat \<bar>m\<bar>;
          d = max (int (bit_length n) - 53) (- 1074 - e);
          q = (if d \<le> 0 then n else round_shift n (nat d));
          e' = (if d \<le> 0 then e else e + d)
      in if 1024 < int (bit_length q) + e' then Infinite (m < 0)
         else Finite (sgn m * int q) e')"

definition f64_of_u64 :: "u64 \<Rightarrow> f64" where
  "f64_of_u64 a = round_f64 (uint a) 0"

fun f64_mul :: "f64 \<Rightarrow> f64 \<Rightarrow> f64" where
  "f64_mul (Finite m e) (Finite m' e') = round_f64 (m * m') (e + e')"
| "f64_mul (Infinite s) (Infinite s') = Infinite (s \<noteq> s')"
| "f64_mul (Infinite s) (Finite m e) = (if m = 0 then NaN else Infinite (s \<noteq> (m < 0)))"
| "f64_mul (Finite m e) (Infinite s) = (if m = 0 then NaN else Infinite (s \<noteq> (m < 0)))"
| "f64_mul _ _ = NaN"

text \<open>
  Division scales the dividend until the quotient has at least 55 bits and records a non-zero
  remainder in one more low bit, so that rounding the scaled quotient rounds the exact one.
\<close>

fun f64_div :: "f64 \<Rightarrow> f64 \<Rightarrow> f64" where
  "f64_div (Finite m e) (Finite m' e') =
     (if m' = 0 then (if m = 0 then NaN else Infinite (m < 0))
      else
        (let n = nat \<bar>m\<bar>; n' = nat \<bar>m'\<bar>;
             k = 55 + bit_length n' - bit_length n;
             q = n * 2 ^ k div n'; r = n * 2 ^ k mod n'
         in round_f64 (sgn m * sgn m' * int (2 * q + (if r = 0 then 0 else 1)))
              (e - e' - int k - 1)))"
| "f64_div (Finite m e) (Infinite s) = Finite 0 0"
| "f64_div (Infinite s) (Finite m e) = Infinite (s \<noteq> (m < 0))"
| "f64_div _ _ = NaN"

fun f64_add :: "f64 \<Rightarrow> f64 \<Rightarrow> f64" where
  "f64_add (Finite m e) (Finite m' e') =
     (let b = min e e' in round_f64 (m * 2 ^ nat (e - b) + m' * 2 ^ nat (e' - b)) b)"
| "f64_add (Infinite s) (Infinite s') = (if s = s' then Infinite s else NaN)"
| "f64_add (Infinite s) (Finite m e) = Infinite s"
| "f64_add (Finite m e) (Infinite s) = Infinite s"
| "f64_add _ _ = NaN"

fun f64_neg :: "f64 \<Rightarrow> f64" where
  "f64_neg (Finite m e) = Finite (- m) e"
| "f64_neg (Infinite s) = Infinite (\<not> s)"
| "f64_neg NaN = NaN"

definition f64_sub :: "f64 \<Rightarrow> f64 \<Rightarrow> f64" where
  "f64_sub a b = f64_add a (f64_neg b)"

fun f64_abs :: "f64 \<Rightarrow> f64" where
  "f64_abs (Finite m e) = Finite \<bar>m\<bar> e"
| "f64_abs (Infinite s) = Infinite False"
| "f64_abs NaN = NaN"

fun f64_less :: "f64 \<Rightarrow> f64 \<Rightarrow> bool" where
  "f64_less (Finite m e) (Finite m' e') =
     (let b = min e e' in m * 2 ^ nat (e - b) < m' * 2 ^ nat (e' - b))"
| "f64_less (Finite m e) (Infinite s) = (\<not> s)"
| "f64_less (Infinite s) (Finite m e) = s"
| "f64_less (Infinite s) (Infinite s') = (s \<and> \<not> s')"
| "f64_less _ _ = False"

text \<open>\<open>f64::EPSILON\<close>.\<close>

definition f64_epsilon :: f64 where
  "f64_epsilon = Finite 1 (- 52)"

fun f64_to_u64 :: "f64 \<Rightarrow> u64" where
  "f64_to_u64 (Finite m e) =
     (if m \<le> 0 then 0
      else (let v = (if 0 \<le> e then nat m * 2 ^ nat e else nat m div 2 ^ nat (- e))
            in if v < 2 ^ 64 then of_nat v else max_val))"
| "f64_to_u64 (Infinite s) = (if s then 0 else max_val)"
| "f64_to_u64 NaN = 0"

lemma bit_length_0 [simp]: "bit_length 0 = 0"
  by (subst bit_length.simps) simp

lemma bit_length_pos: "n \<noteq> 0 \<Longrightarrow> bit_length n = Suc (bit_length (n div 2))"
  by (subst bit_length.simps) simp

lemma bit_length_numeral:
  "bit_length (numeral w) = Suc (bit_length (numeral w div 2))" "bit_length 1 = 1" "bit_length (Suc 0) = 1"
  by (simp_all add: bit_length_pos)

lemma bit_length_upper: "n < 2 ^ bit_length n"
proof (induction n rule: bit_length.induct)
  case (1 n)
  show ?case
  proof (cases "n = 0")
    case False
    with 1 have "n div 2 < 2 ^ bit_length (n div 2)" by blast
    then have "n < 2 * 2 ^ bit_length (n div 2)" by linarith
    then show ?thesis using False by (simp add: bit_length_pos)
  qed simp
qed

lemma bit_length_lower: "n \<noteq> 0 \<Longrightarrow> 2 ^ bit_length n \<le> 2 * n"
proof (induction n rule: bit_length.induct)
  case (1 n)
  show ?case
  proof (cases "n div 2 = 0")
    case True
    then have "bit_length n = 1" using bit_length_pos [OF 1(2)] bit_length_0 by (metis One_nat_def)
    then show ?thesis using 1(2) by simp
  next
    case False
    then have "2 ^ bit_length (n div 2) \<le> 2 * (n div 2)" using 1 by blast
    also have "\<dots> \<le> n" by simp
    finally show ?thesis using bit_length_pos [OF 1(2)] by simp
  qed
qed

lemma bit_length_le: "n < 2 ^ k \<Longrightarrow> bit_length n \<le> k"
proof (rule ccontr)
  assume lt: "n < 2 ^ k" and "\<not> bit_length n \<le> k"
  then have k: "Suc k \<le> bit_length n" by simp
  then have "n \<noteq> 0" by (metis bit_length_0 not_less_eq_eq zero_le)
  then have "2 ^ bit_length n \<le> 2 * n" by (rule bit_length_lower)
  moreover have "(2::nat) ^ Suc k \<le> 2 ^ bit_length n"
    using k by (rule power_increasing) simp
  ultimately have "2 * 2 ^ k \<le> 2 * n" by (simp only: power_Suc)
  then show False using lt by linarith
qed

text \<open>A number of at most 53 bits in the exponent range is represented exactly.\<close>

lemma round_f64_exact:
  assumes "\<bar>m\<bar> < 2 ^ 53" and "- 1074 \<le> e" and "e \<le> 971"
  shows "round_f64 m e = Finite m e"
proof -
  have "nat \<bar>m\<bar> < 2 ^ 53" using assms(1) by (simp add: nat_less_iff)
  then have len: "bit_length (nat \<bar>m\<bar>) \<le> 53" by (rule bit_length_le)
  then have "\<not> 1024 < int (bit_length (nat \<bar>m\<bar>)) + e" using assms(3) by linarith
  moreover have "max (int (bit_length (nat \<bar>m\<bar>)) - 53) (- 1074 - e) \<le> 0" using len assms(2) by simp
  ultimately show ?thesis by (simp add: round_f64_def Let_def sgn_if)
qed

lemma f64_of_u64_exact: "unat a < 2 ^ 53 \<Longrightarrow> f64_of_u64 a = Finite (uint a) 0"
proof -
  assume "unat a < 2 ^ 53"
  then have "int (unat a) < int (2 ^ 53)" by (simp only: of_nat_less_iff)
  then have "\<bar>uint a\<bar> < 2 ^ 53" by simp
  then show ?thesis unfolding f64_of_u64_def by (rule round_f64_exact) simp_all
qed

text \<open>Multiplying an integer by 2.0 and converting back doubles it.\<close>

lemma f64_double:
  assumes "unat a < 2 ^ 52"
  shows "unat (f64_to_u64 (f64_mul (f64_of_u64 a) (Finite 2 0))) = 2 * unat a"
proof -
  define n where "n = unat a"
  have n: "n < 2 ^ 52" using assms by (simp add: n_def)
  have u: "uint a = int n" by (simp add: n_def)
  have "f64_of_u64 a = Finite (int n) 0"
    using assms f64_of_u64_exact [of a] u by simp
  moreover have "round_f64 (int n * 2) 0 = Finite (int n * 2) 0"
    using n by (intro round_f64_exact) simp_all
  moreover have "nat (int n * 2) = 2 * n" by linarith
  ultimately have "f64_to_u64 (f64_mul (f64_of_u64 a) (Finite 2 0)) = of_nat (2 * n)"
    using n by simp
  then show ?thesis using n unat_of_nat_fits [of "2 * n", where 'a = 64] by (simp add: n_def)
qed

end
