(* ===== verification/Rent.thy ===== *)
theory Rent
  imports Floats
begin

text \<open>
  \<open>sdk/program/src/rent.rs\<close>: the rent parameters of the cluster, the balance that exempts an
  account from rent, the rent due and how collected rent is split between burning and
  distribution.
\<close>

record rent =
  lamports_per_byte_year :: u64
  exemption_threshold :: f64
  burn_percent :: u8

definition DEFAULT_LAMPORTS_PER_BYTE_YEAR :: u64 where
  "DEFAULT_LAMPORTS_PER_BYTE_YEAR = 1000000000 div 100 * 365 div (1024 * 1024)"

definition DEFAULT_EXEMPTION_THRESHOLD :: f64 where
  "DEFAULT_EXEMPTION_THRESHOLD = Finite 2 0"

definition DEFAULT_BURN_PERCENT :: u8 where
  "DEFAULT_BURN_PERCENT = 50"

definition ACCOUNT_STORAGE_OVERHEAD :: u64 where
  "ACCOUNT_STORAGE_OVERHEAD = 128"

definition rent_default :: rent where
  "rent_default = \<lparr>lamports_per_byte_year = DEFAULT_LAMPORTS_PER_BYTE_YEAR,
     exemption_threshold = DEFAULT_EXEMPTION_THRESHOLD, burn_percent = DEFAULT_BURN_PERCENT\<rparr>"

definition calculate_burn :: "rent \<Rightarrow> u64 \<Rightarrow> u64 \<times> u64" where
  "calculate_burn r rent_collected =
     (let burned_portion = rent_collected * ucast (burn_percent r) div 100
      in (burned_portion, rent_collected - burned_portion))"

definition minimum_balance :: "rent \<Rightarrow> nat \<Rightarrow> u64" where
  "minimum_balance r data_len =
     (let bytes = of_nat data_len
      in f64_to_u64 (f64_mul
           (f64_of_u64 ((ACCOUNT_STORAGE_OVERHEAD + bytes) * lamports_per_byte_year r))
           (exemption_threshold r)))"

definition is_exempt :: "rent \<Rightarrow> u64 \<Rightarrow> nat \<Rightarrow> bool" where
  "is_exempt r balance data_len \<longleftrightarrow> minimum_balance r data_len \<le> balance"

datatype rent_due = Exempt | Paying u64

definition due :: "rent \<Rightarrow> u64 \<Rightarrow> nat \<Rightarrow> f64 \<Rightarrow> rent_due" where
  "due r balance data_len years_elapsed =
     (if is_exempt r balance data_len then Exempt
      else
        (let actual_data_len = of_nat data_len + ACCOUNT_STORAGE_OVERHEAD;
             lamports_per_year = lamports_per_byte_year r * actual_data_len
         in Paying (f64_to_u64 (f64_mul (f64_of_u64 lamports_per_year) years_elapsed))))"

definition free :: rent where
  "free = rent_default\<lparr>lamports_per_byte_year := 0\<rparr>"

fun rent_due_lamports :: "rent_due \<Rightarrow> u64" where
  "rent_due_lamports Exempt = 0"
| "rent_due_lamports (Paying x) = x"

fun rent_due_is_exempt :: "rent_due \<Rightarrow> bool" where
  "rent_due_is_exempt Exempt = True"
| "rent_due_is_exempt (Paying x) = False"

lemma default_rate: "DEFAULT_LAMPORTS_PER_BYTE_YEAR = 3480"
  by (simp add: DEFAULT_LAMPORTS_PER_BYTE_YEAR_def)

text \<open>
  With the default threshold of two years the floating-point computation is exact, so the
  exemption balance is twice the yearly rent.
\<close>

lemma minimum_balance_exact:
  assumes "exemption_threshold r = DEFAULT_EXEMPTION_THRESHOLD"
    and "(128 + data_len) * unat (lamports_per_byte_year r) < 2 ^ 52"
    and "data_len < 2 ^ 63"
  shows "unat (minimum_balance r data_len)
    = 2 * ((128 + data_len) * unat (lamports_per_byte_year r))"
proof -
  let ?a = "(ACCOUNT_STORAGE_OVERHEAD + of_nat data_len) * lamports_per_byte_year r"
  let ?n = "(128 + data_len) * unat (lamports_per_byte_year r)"
  have d: "unat (of_nat data_len :: u64) = data_len"
    using assms(3) by (simp add: unat_of_nat_fits)
  then have s: "unat (ACCOUNT_STORAGE_OVERHEAD + of_nat data_len) = 128 + data_len"
    using assms(3) by (simp add: ACCOUNT_STORAGE_OVERHEAD_def unat_add_no_wrap)
  have a: "unat ?a = ?n" using assms(2) s by (simp add: unat_mul_no_wrap)
  then have "unat (f64_to_u64 (f64_mul (f64_of_u64 ?a) (Finite 2 0))) = 2 * ?n"
    using assms(2) f64_double [of ?a] by simp
  then show ?thesis
    using assms(1) by (simp add: minimum_balance_def DEFAULT_EXEMPTION_THRESHOLD_def Let_def)
qed

lemma calculate_burn_exact:
  assumes "calculate_burn r c = (b, d)" and "burn_percent r \<le> 100"
    and "unat c * unat (burn_percent r) < 2 ^ 64"
  shows "unat b = unat c * unat (burn_percent r) div 100" and "unat b + unat d = unat c"
proof -
  have p: "unat (ucast (burn_percent r) :: u64) = unat (burn_percent r)"
    by (simp add: unat_ucast_wider)
  then have m: "unat (c * ucast (burn_percent r)) = unat c * unat (burn_percent r)"
    using assms(3) by (simp add: unat_mul_no_wrap)
  then show b: "unat b = unat c * unat (burn_percent r) div 100"
    using assms(1) by (auto simp: calculate_burn_def Let_def unat_div)
  have "unat (burn_percent r) \<le> 100" using assms(2) by (simp add: word_le_nat_alt)
  then have "unat c * unat (burn_percent r) \<le> unat c * 100" by (rule mult_le_mono2)
  then have "unat c * unat (burn_percent r) div 100 \<le> unat c * 100 div 100" by (rule div_le_mono)
  then have "unat b \<le> unat c" using b by simp
  then have "b \<le> c" by (simp add: word_le_nat_alt)
  moreover have "d = c - b" using assms(1) by (auto simp: calculate_burn_def Let_def)
  ultimately show "unat b + unat d = unat c" by (simp add: unat_sub_no_wrap word_le_nat_alt)
qed

lemma minimum_balance_free: "minimum_balance free n = 0"
  by (simp add: minimum_balance_def free_def rent_default_def DEFAULT_EXEMPTION_THRESHOLD_def Let_def)
    code_simp

end
