(* ===== verification/Invoke_Context.thy ===== *)
theory Invoke_Context
  imports Accounts Rent "HOL-Library.Countable"
begin

text \<open>
  The part of \<open>InvokeContext\<close> (\<open>program-runtime/src/invoke_context.rs\<close>) the native programs
  read: the keyed accounts of the current frame, the active features, the blockhash and fee of
  the bank, and the sysvar cache (\<open>program-runtime/src/sysvar_cache.rs\<close>).
\<close>

text \<open>The sysvar \<open>Clock\<close>. An \<open>i64\<close> timestamp is only stored and compared: an \<open>int\<close>.\<close>

record clock =
  clock_slot :: u64
  clock_epoch_start_timestamp :: int
  clock_epoch :: u64
  clock_leader_schedule_epoch :: u64
  clock_unix_timestamp :: int

type_synonym slot_hashes = "(u64 \<times> hash) list"

text \<open>The feature gates the modelled programs consult.\<close>

datatype feature =
    vote_withdraw_authority_may_change_authorized_voter
  | reject_non_rent_exempt_vote_withdraws
  | reject_vote_account_close_unless_zero_credit_epoch
  | vote_stake_checked_instructions
  | rent_for_sysvars
  | system_transfer_zero_check
  | separate_nonce_from_blockhash
  | nonce_must_be_writable
  | merge_nonce_error_into_system_error
  | do_support_realloc
  | cap_accounts_data_len
  | reject_empty_instruction_without_program
  | tx_wide_compute_cap
  | requestable_heap_size
  | neon_evm_compute_budget
  | remove_native_loader
  | prevent_calling_precompiles_as_programs
  | require_custodian_for_locked_stake_authorize
  | stake_program_v4
  | stake_merge_with_unmatched_credits_observed
  | stakes_remove_delegation_if_inactive
  | evict_invalid_stakes_cache_entries
  | max_tx_account_locks
  | enable_durable_nonce
  | nonce_must_be_authorized
  | nonce_must_be_advanceable

record invoke_context =
  keyed_accounts :: "keyed_account list"
  feature_set :: "feature set"
  blockhash :: hash
  lamports_per_signature :: u64
  cached_clock :: "clock option"
  cached_rent :: "rent option"
  cached_slot_hashes :: "slot_hashes option"

definition is_active :: "invoke_context \<Rightarrow> feature \<Rightarrow> bool" where
  "is_active ic f \<longleftrightarrow> f \<in> feature_set ic"

definition get_clock :: "invoke_context \<Rightarrow> clock ix_result" where
  "get_clock ic = ok_or (cached_clock ic) UnsupportedSysvar"

definition get_rent :: "invoke_context \<Rightarrow> rent ix_result" where
  "get_rent ic = ok_or (cached_rent ic) UnsupportedSysvar"

definition get_slot_hashes :: "invoke_context \<Rightarrow> slot_hashes ix_result" where
  "get_slot_hashes ic = ok_or (cached_slot_hashes ic) UnsupportedSysvar"

text \<open>
  \<open>limited_deserialize\<close>: the decoder of the instruction type (\<open>bincode\<close> with a size limit) is a
  parameter; its failure is an invalid instruction.
\<close>

definition limited_deserialize :: "(u8 list \<Rightarrow> 'i option) \<Rightarrow> u8 list \<Rightarrow> 'i ix_result" where
  "limited_deserialize decode bytes = ok_or (decode bytes) InvalidInstructionData"

text \<open>
  What the programs rely on of a serialiser: a written value reads back whatever bytes follow it.
\<close>

definition codec_ok :: "'v codec \<Rightarrow> bool" where
  "codec_ok c \<longleftrightarrow> (\<forall>v rest. deserialize c (serialize c v @ rest) = Some v)"

lemma set_state_reads_back:
  "codec_ok c \<Longrightarrow> set_state c v a = Inr a' \<Longrightarrow> deserialize c (data a') = Some v"
  by (auto simp: codec_ok_def set_state_Inr)

text \<open>
  Such a serialiser exists for every countable type: the number of the value in unary, closed by a
  zero byte.
\<close>

definition unary_codec :: "'v::countable codec" where
  "unary_codec = \<lparr>deserialize = (\<lambda>bs. Some (from_nat (length (takeWhile (\<lambda>b. b = 1) bs)))),
     serialize = (\<lambda>v. replicate (to_nat v) 1 @ [0])\<rparr>"

lemma codec_ok_unary: "codec_ok unary_codec"
proof -
  have "takeWhile (\<lambda>b. b = 1) (replicate n (1::u8) @ 0 # rest) = replicate n 1" for n rest
    by (induction n) auto
  then show ?thesis by (simp add: codec_ok_def unary_codec_def)
qed

end
