(* ===== verification/Vote_State.thy ===== *)
theory Vote_State
  imports Authorized_Voters Invoke_Context "HOL-Library.Sublist"
begin

text \<open>
  \<open>programs/vote/src/vote_state/mod.rs\<close>, the part without accounts: lockouts, the tower of
  votes, credits, timestamps, the authorized voters of a vote account, and the two ways votes are
  applied (\<open>process_vote\<close>, one slot after the other, and \<open>process_new_vote_state\<close>, a whole tower
  at once). A \<open>VecDeque\<close> is a list with its front first.
\<close>

definition MAX_LOCKOUT_HISTORY :: nat where
  "MAX_LOCKOUT_HISTORY = 31"

definition INITIAL_LOCKOUT :: nat where
  "INITIAL_LOCKOUT = 2"

definition MAX_EPOCH_CREDITS_HISTORY :: nat where
  "MAX_EPOCH_CREDITS_HISTORY = 64"

datatype vote_error =
    VoteTooOld | SlotsMismatch | SlotHashMismatch | EmptySlots | TimestampTooOld
  | TooSoonToReauthorize | LockoutConflict | NewVoteStateLockoutMismatch | SlotsNotOrdered
  | ConfirmationsNotOrdered | ZeroConfirmations | ConfirmationTooLarge | RootRollBack
  | ConfirmationRollBack | SlotSmallerThanRoot | TooManyVotes
  | VotePanicked

text \<open>The discriminants; \<open>VotePanicked\<close> (a failed assertion) is no error value and has none.\<close>

fun vote_error_into :: "vote_error \<Rightarrow> instruction_error" where
  "vote_error_into VoteTooOld = instruction_error_from 0"
| "vote_error_into SlotsMismatch = instruction_error_from 1"
| "vote_error_into SlotHashMismatch = instruction_error_from 2"
| "vote_error_into EmptySlots = instruction_error_from 3"
| "vote_error_into TimestampTooOld = instruction_error_from 4"
| "vote_error_into TooSoonToReauthorize = instruction_error_from 5"
| "vote_error_into LockoutConflict = instruction_error_from 6"
| "vote_error_into NewVoteStateLockoutMismatch = instruction_error_from 7"
| "vote_error_into SlotsNotOrdered = instruction_error_from 8"
| "vote_error_into ConfirmationsNotOrdered = instruction_error_from 9"
| "vote_error_into ZeroConfirmations = instruction_error_from 10"
| "vote_error_into ConfirmationTooLarge = instruction_error_from 11"
| "vote_error_into RootRollBack = instruction_error_from 12"
| "vote_error_into ConfirmationRollBack = instruction_error_from 13"
| "vote_error_into SlotSmallerThanRoot = instruction_error_from 14"
| "vote_error_into TooManyVotes = instruction_error_from 15"
| "vote_error_into VotePanicked = Panicked"

section \<open>Data\<close>

record vote =
  vote_slots :: "u64 list"
  vote_hash :: hash
  vote_timestamp :: "int option"

record lockout =
  slot :: u64
  confirmation_count :: u32

definition vote_new :: "u64 list \<Rightarrow> hash \<Rightarrow> vote" where
  "vote_new slots h = \<lparr>vote_slots = slots, vote_hash = h, vote_timestamp = None\<rparr>"

definition vote_last_voted_slot :: "vote \<Rightarrow> u64 option" where
  "vote_last_voted_slot v = (if vote_slots v = [] then None else Some (last (vote_slots v)))"

definition lockout_new :: "u64 \<Rightarrow> lockout" where
  "lockout_new s = \<lparr>slot = s, confirmation_count = 1\<rparr>"

definition lockout_slots :: "lockout \<Rightarrow> u64" where
  "lockout_slots l = of_nat INITIAL_LOCKOUT ^ unat (confirmation_count l)"

definition last_locked_out_slot :: "lockout \<Rightarrow> u64" where
  "last_locked_out_slot l = slot l + lockout_slots l"

definition is_locked_out_at_slot :: "lockout \<Rightarrow> u64 \<Rightarrow> bool" where
  "is_locked_out_at_slot l s \<longleftrightarrow> s \<le> last_locked_out_slot l"

record vote_init =
  init_node_pubkey :: pubkey
  init_authorized_voter :: pubkey
  init_authorized_withdrawer :: pubkey
  init_commission :: u8

datatype vote_authorize = Voter | Withdrawer

record block_timestamp =
  ts_slot :: u64
  ts_timestamp :: int

definition MAX_ITEMS :: nat where
  "MAX_ITEMS = 32"

record 'a circ_buf =
  buf :: "'a list"
  idx :: nat
  buf_is_empty :: bool

definition circ_buf_default :: "'a \<Rightarrow> 'a circ_buf" where
  "circ_buf_default d = \<lparr>buf = replicate MAX_ITEMS d, idx = MAX_ITEMS - 1, buf_is_empty = True\<rparr>"

definition circ_buf_append :: "'a circ_buf \<Rightarrow> 'a \<Rightarrow> 'a circ_buf" where
  "circ_buf_append b item =
     (let i = (idx b + 1) mod MAX_ITEMS
      in b\<lparr>idx := i, buf := (buf b)[i := item], buf_is_empty := False\<rparr>)"

text \<open>\<open>self.buf[self.idx]\<close> panics when the index is out of range.\<close>

definition circ_buf_last :: "'a circ_buf \<Rightarrow> 'a option ix_result" where
  "circ_buf_last b =
     (if buf_is_empty b then Inr None
      else if idx b < length (buf b) then Inr (Some (buf b ! idx b))
      else Inl Panicked)"

record vote_state =
  node_pubkey :: pubkey
  authorized_withdrawer :: pubkey
  commission :: u8
  votes :: "lockout list"
  root_slot :: "u64 option"
  authorized_voters :: authorized_voters
  prior_voters :: "(pubkey \<times> u64 \<times> u64) circ_buf"
  epoch_credits :: "(u64 \<times> u64 \<times> u64) list"
  last_timestamp :: block_timestamp

definition vote_state_default :: vote_state where
  "vote_state_default =
     \<lparr>node_pubkey = pubkey_default, authorized_withdrawer = pubkey_default, commission = 0,
      votes = [], root_slot = None, authorized_voters = [],
      prior_voters = circ_buf_default (pubkey_default, 0, 0), epoch_credits = [],
      last_timestamp = \<lparr>ts_slot = 0, ts_timestamp = 0\<rparr>\<rparr>"

definition vote_state_new :: "vote_init \<Rightarrow> clock \<Rightarrow> vote_state" where
  "vote_state_new vi c = vote_state_default
     \<lparr>node_pubkey := init_node_pubkey vi,
      authorized_voters := authorized_voters_new (clock_epoch c) (init_authorized_voter vi),
      authorized_withdrawer := init_authorized_withdrawer vi,
      commission := init_commission vi\<rparr>"

section \<open>Votes\<close>

definition last_lockout :: "vote_state \<Rightarrow> lockout option" where
  "last_lockout vs = (if votes vs = [] then None else Some (last (votes vs)))"

definition last_voted_slot :: "vote_state \<Rightarrow> u64 option" where
  "last_voted_slot vs = map_option slot (last_lockout vs)"

definition nth_recent_vote :: "vote_state \<Rightarrow> nat \<Rightarrow> lockout option" where
  "nth_recent_vote vs position =
     (if position < length (votes vs) then Some (votes vs ! (length (votes vs) - 1 - position))
      else None)"

definition tower :: "vote_state \<Rightarrow> u64 list" where
  "tower vs = map slot (votes vs)"

definition current_epoch :: "vote_state \<Rightarrow> u64" where
  "current_epoch vs = (if epoch_credits vs = [] then 0 else fst (last (epoch_credits vs)))"

definition credits :: "vote_state \<Rightarrow> u64" where
  "credits vs = (if epoch_credits vs = [] then 0 else fst (snd (last (epoch_credits vs))))"

definition commission_split :: "vote_state \<Rightarrow> u64 \<Rightarrow> u64 \<times> u64 \<times> bool" where
  "commission_split vs on =
     (let split = min (commission vs) 100 in
      if split = 0 then (0, on, False)
      else if split = 100 then (on, 0, False)
      else
        (let on = ucast on :: u128;
             mine = on * ucast split div 100;
             theirs = on * ucast (100 - split) div 100
         in (ucast mine, ucast theirs, True)))"

text \<open>
  The loop of \<open>check_slots_are_valid\<close>: \<open>i\<close> indexes the vote's slots from the oldest, \<open>j\<close> the slot
  hashes (newest first) from the oldest; the two indices at the end are the result.
\<close>

function check_slots_loop ::
  "u64 option \<Rightarrow> u64 list \<Rightarrow> (u64 \<times> hash) list \<Rightarrow> nat \<Rightarrow> nat \<Rightarrow> nat \<times> nat" where
  "check_slots_loop l slots slot_hashes i j =
     (if i < length slots \<and> 0 < j then
        if (case l of None \<Rightarrow> False | Some last_voted \<Rightarrow> slots ! i \<le> last_voted)
        then check_slots_loop l slots slot_hashes (i + 1) j
        else if slots ! i \<noteq> fst (slot_hashes ! (j - 1))
        then check_slots_loop l slots slot_hashes i (j - 1)
        else check_slots_loop l slots slot_hashes (i + 1) (j - 1)
      else (i, j))"
  by pat_completeness auto
termination
  by (relation "measure (\<lambda>(l, slots, slot_hashes, i, j). length slots - i + j)") auto

declare check_slots_loop.simps [simp del]

definition check_slots_are_valid ::
  "vote_state \<Rightarrow> vote \<Rightarrow> (u64 \<times> hash) list \<Rightarrow> (vote_error, unit) result" where
  "check_slots_are_valid vs v slot_hashes =
     (let (i, j) = check_slots_loop (last_voted_slot vs) (vote_slots v) slot_hashes 0
                     (length slot_hashes)
      in if j = length slot_hashes then Inl VoteTooOld
         else if i \<noteq> length (vote_slots v) then Inl SlotsMismatch
         else if snd (slot_hashes ! j) \<noteq> vote_hash v then Inl SlotHashMismatch
         else Inr ())"

text \<open>The loop over the back of the queue.\<close>

function pop_expired :: "u64 \<Rightarrow> lockout list \<Rightarrow> lockout list" where
  "pop_expired next_vote_slot vts =
     (if vts = [] then []
      else if \<not> is_locked_out_at_slot (last vts) next_vote_slot
      then pop_expired next_vote_slot (butlast vts)
      else vts)"
  by pat_completeness auto
termination
  by (relation "measure (\<lambda>(s, vts). length vts)") auto

declare pop_expired.simps [simp del]

definition pop_expired_votes :: "vote_state \<Rightarrow> u64 \<Rightarrow> vote_state" where
  "pop_expired_votes vs next_vote_slot = vs\<lparr>votes := pop_expired next_vote_slot (votes vs)\<rparr>"

definition double_lockouts :: "vote_state \<Rightarrow> vote_state" where
  "double_lockouts vs =
     (let stack_depth = length (votes vs)
      in vs\<lparr>votes := map (\<lambda>(i, v).
             if stack_depth > i + unat (confirmation_count v)
             then v\<lparr>confirmation_count := confirmation_count v + 1\<rparr> else v)
           (enumerate 0 (votes vs))\<rparr>)"

definition increment_credits :: "vote_state \<Rightarrow> u64 \<Rightarrow> vote_state" where
  "increment_credits vs ep =
     (let ec = epoch_credits vs;
          ec1 =
            (if ec = [] then [(ep, 0, 0)]
             else if ep \<noteq> fst (last ec) then
               (let (_, cr, prev_credits) = last ec;
                    ec2 = (if cr \<noteq> prev_credits then ec @ [(ep, cr, cr)]
                           else butlast ec @ [(ep, cr, prev_credits)])
                in if length ec2 > MAX_EPOCH_CREDITS_HISTORY then tl ec2 else ec2)
             else ec);
          (e, c, p) = last ec1
      in vs\<lparr>epoch_credits := butlast ec1 @ [(e, c + 1, p)]\<rparr>)"

definition process_next_vote_slot :: "vote_state \<Rightarrow> u64 \<Rightarrow> u64 \<Rightarrow> vote_state" where
  "process_next_vote_slot vs next_vote_slot ep =
     (if (case last_voted_slot vs of None \<Rightarrow> False | Some l \<Rightarrow> next_vote_slot \<le> l) then vs
      else
        (let vs1 = pop_expired_votes vs next_vote_slot;
             vs2 = (if length (votes vs1) = MAX_LOCKOUT_HISTORY
                    then increment_credits
                           (vs1\<lparr>votes := tl (votes vs1), root_slot := Some (slot (hd (votes vs1)))\<rparr>) ep
                    else vs1);
             vs3 = vs2\<lparr>votes := votes vs2 @ [lockout_new next_vote_slot]\<rparr>
         in double_lockouts vs3))"

definition process_vote ::
  "vote_state \<Rightarrow> vote \<Rightarrow> (u64 \<times> hash) list \<Rightarrow> u64 \<Rightarrow> (vote_error, vote_state) result" where
  "process_vote vs v slot_hashes ep =
     (if vote_slots v = [] then Inl EmptySlots
      else bind_r (check_slots_are_valid vs v slot_hashes)
        (\<lambda>_. Inr (fold (\<lambda>s st. process_next_vote_slot st s ep) (vote_slots v) vs)))"

text \<open>The functions \<open>Tower\<close> calls: votes are checked against themselves, an error is ignored.\<close>

definition process_vote_unchecked :: "vote_state \<Rightarrow> vote \<Rightarrow> vote_state" where
  "process_vote_unchecked vs v =
     (let slot_hashes = map (\<lambda>x. (x, vote_hash v)) (rev (vote_slots v))
      in case process_vote vs v slot_hashes (current_epoch vs) of Inl _ \<Rightarrow> vs | Inr vs' \<Rightarrow> vs')"

definition process_slot_vote_unchecked :: "vote_state \<Rightarrow> u64 \<Rightarrow> vote_state" where
  "process_slot_vote_unchecked vs s = process_vote_unchecked vs (vote_new [s] hash_default)"

definition process_timestamp ::
  "vote_state \<Rightarrow> u64 \<Rightarrow> int \<Rightarrow> (vote_error, vote_state) result" where
  "process_timestamp vs s ts =
     (let lt = last_timestamp vs; bt = \<lparr>ts_slot = s, ts_timestamp = ts\<rparr>
      in if (s < ts_slot lt \<or> ts < ts_timestamp lt)
            \<or> (s = ts_slot lt \<and> bt \<noteq> lt \<and> ts_slot lt \<noteq> 0)
         then Inl TimestampTooOld
         else Inr (vs\<lparr>last_timestamp := bt\<rparr>))"

section \<open>Replacing the whole tower\<close>

text \<open>The loop over the proposed votes, with the previous one.\<close>

fun check_new_votes :: "u64 option \<Rightarrow> lockout option \<Rightarrow> lockout list \<Rightarrow> (vote_error, unit) result" where
  "check_new_votes new_root previous [] = Inr ()"
| "check_new_votes new_root previous (v # vts) =
     (if confirmation_count v = 0 then Inl ZeroConfirmations
      else if unat (confirmation_count v) > MAX_LOCKOUT_HISTORY then Inl ConfirmationTooLarge
      else if (case new_root of None \<Rightarrow> False | Some r \<Rightarrow> slot v \<le> r \<and> r \<noteq> 0)
      then Inl SlotSmallerThanRoot
      else case previous of
          None \<Rightarrow> check_new_votes new_root (Some v) vts
        | Some p \<Rightarrow>
            if slot v \<le> slot p then Inl SlotsNotOrdered
            else if confirmation_count p \<le> confirmation_count v then Inl ConfirmationsNotOrdered
            else if last_locked_out_slot p < slot v then Inl NewVoteStateLockoutMismatch
            else check_new_votes new_root (Some v) vts)"

text \<open>The votes of the current state after the index of the first one above the new root.\<close>

fun skip_rooted :: "u64 option \<Rightarrow> lockout list \<Rightarrow> lockout list" where
  "skip_rooted new_root [] = []"
| "skip_rooted new_root (v # vts) =
     (case new_root of
        None \<Rightarrow> v # vts
      | Some r \<Rightarrow> if slot v \<le> r then skip_rooted new_root vts else v # vts)"

text \<open>The merge of the current votes with the proposed ones.\<close>

fun check_lockouts :: "lockout list \<Rightarrow> lockout list \<Rightarrow> (vote_error, unit) result" where
  "check_lockouts (c # cs) (n # ns) =
     (if slot c < slot n then
        if slot n \<le> last_locked_out_slot c then Inl LockoutConflict
        else check_lockouts cs (n # ns)
      else if slot c = slot n then
        if confirmation_count n < confirmation_count c then Inl ConfirmationRollBack
        else check_lockouts cs ns
      else check_lockouts (c # cs) ns)"
| "check_lockouts cs ns = Inr ()"

definition check_root :: "u64 option \<Rightarrow> u64 option \<Rightarrow> (vote_error, unit) result" where
  "check_root new_root current_root =
     (case (new_root, current_root) of
        (Some n, Some c) \<Rightarrow> guard_r (\<not> n < c) RootRollBack
      | (None, Some _) \<Rightarrow> Inl RootRollBack
      | _ \<Rightarrow> Inr ())"

definition process_new_vote_state ::
  "vote_state \<Rightarrow> lockout list \<Rightarrow> u64 option \<Rightarrow> int option \<Rightarrow> u64 \<Rightarrow> (vote_error, vote_state) result"
where
  "process_new_vote_state vs new_state new_root ts ep =
     (if new_state = [] then Inl VotePanicked
      else if length new_state > MAX_LOCKOUT_HISTORY then Inl TooManyVotes
      else if votes vs \<noteq> [] \<and> \<not> slot (last new_state) > slot (last (votes vs)) then Inl VotePanicked
      else
        bind_r (check_root new_root (root_slot vs)) (\<lambda>_.
        bind_r (check_new_votes new_root None new_state) (\<lambda>_.
        bind_r (check_lockouts (skip_rooted new_root (votes vs)) new_state) (\<lambda>_.
          let vs1 = (if root_slot vs \<noteq> new_root then increment_credits vs ep else vs) in
          bind_r (case ts of None \<Rightarrow> Inr vs1
                  | Some t \<Rightarrow> process_timestamp vs1 (slot (last new_state)) t) (\<lambda>vs2.
            Inr (vs2\<lparr>root_slot := new_root, votes := new_state\<rparr>))))))"

section \<open>Authorized voters of a vote state\<close>

definition vote_state_get_authorized_voter :: "vote_state \<Rightarrow> u64 \<Rightarrow> pubkey option" where
  "vote_state_get_authorized_voter vs ep = get_authorized_voter (authorized_voters vs) ep"

definition get_and_update_authorized_voter ::
  "vote_state \<Rightarrow> u64 \<Rightarrow> (pubkey \<times> vote_state) ix_result" where
  "get_and_update_authorized_voter vs cur =
     bind_r (ok_or (get_and_cache_authorized_voter_for_epoch (authorized_voters vs) cur)
               InvalidAccountData) (\<lambda>(pk, m1).
     bind_r (ok_or (purge_authorized_voters m1 cur) Panicked) (\<lambda>m2.
       Inr (pk, vs\<lparr>authorized_voters := m2\<rparr>)))"

definition set_new_authorized_voter ::
  "vote_state \<Rightarrow> pubkey \<Rightarrow> u64 \<Rightarrow> u64 \<Rightarrow> (pubkey \<Rightarrow> unit ix_result) \<Rightarrow> vote_state ix_result" where
  "set_new_authorized_voter vs authorized_pubkey cur target verify =
     bind_r (get_and_update_authorized_voter vs cur) (\<lambda>(epoch_authorized_voter, vs1).
     bind_r (verify epoch_authorized_voter) (\<lambda>_.
     if authorized_voters_contains (authorized_voters vs1) target
     then Inl (vote_error_into TooSoonToReauthorize)
     else
       bind_r (ok_or (authorized_voters_last (authorized_voters vs1)) InvalidAccountData)
         (\<lambda>(latest_epoch, latest_authorized_pubkey).
       bind_r
         (if latest_authorized_pubkey \<noteq> authorized_pubkey then
            bind_r (circ_buf_last (prior_voters vs1)) (\<lambda>l.
            let epoch_of_last_authorized_switch =
                  (case l of None \<Rightarrow> 0 | Some (_, _, e) \<Rightarrow> e) in
            if \<not> target > latest_epoch then Inl Panicked
            else Inr (vs1\<lparr>prior_voters := circ_buf_append (prior_voters vs1)
                   (latest_authorized_pubkey, epoch_of_last_authorized_switch, target)\<rparr>))
          else Inr vs1) (\<lambda>vs2.
       Inr (vs2\<lparr>authorized_voters := btm_insert target authorized_pubkey (authorized_voters vs2)\<rparr>)))))"


section \<open>Lockouts\<close>

lemma unat_lockout_slots:
  "unat (confirmation_count l) < 64 \<Longrightarrow> unat (lockout_slots l) = 2 ^ unat (confirmation_count l)"
proof -
  assume "unat (confirmation_count l) < 64"
  then have "(2 :: nat) ^ unat (confirmation_count l) < 2 ^ 64" by (rule power_strict_increasing) simp
  then show ?thesis
    using unat_power_no_wrap [of "2 :: u64" "unat (confirmation_count l)"]
    by (simp add: lockout_slots_def INITIAL_LOCKOUT_def)
qed

text \<open>The last slot of a lockout without wrap-around.\<close>

definition lockout_end :: "lockout \<Rightarrow> nat" where
  "lockout_end l = unat (slot l) + 2 ^ unat (confirmation_count l)"

lemma last_locked_out_slot_le:
  assumes "unat (confirmation_count l) < 64"
  shows "unat (last_locked_out_slot l) \<le> lockout_end l"
proof -
  have "unat (slot l + lockout_slots l) \<le> unat (slot l) + unat (lockout_slots l)"
    by (simp add: unat_word_ariths)
  then show ?thesis
    using unat_lockout_slots [OF assms] by (simp add: last_locked_out_slot_def lockout_end_def)
qed

lemma last_locked_out_slot_exact:
  assumes "unat (confirmation_count l) < 64" and "lockout_end l < 2 ^ 64"
  shows "unat (last_locked_out_slot l) = lockout_end l"
  using assms unat_add_no_wrap [of "slot l" "lockout_slots l"]
  by (simp add: last_locked_out_slot_def lockout_end_def unat_lockout_slots)

lemma locked_out_bound:
  "is_locked_out_at_slot l s \<Longrightarrow> unat (confirmation_count l) < 64 \<Longrightarrow> unat s \<le> lockout_end l"
  using last_locked_out_slot_le [of l] by (auto simp: is_locked_out_at_slot_def word_le_nat_alt)

lemma pop_expired_append:
  "\<exists>popped. vts = pop_expired s vts @ popped \<and> (\<forall>v \<in> set popped. \<not> is_locked_out_at_slot v s)"
proof (induction s vts rule: pop_expired.induct)
  case (1 s vts)
  show ?case
  proof (cases "vts \<noteq> [] \<and> \<not> is_locked_out_at_slot (last vts) s")
    case True
    then have eq: "pop_expired s vts = pop_expired s (butlast vts)"
      by (simp add: pop_expired.simps [of s vts])
    obtain popped where p: "butlast vts = pop_expired s (butlast vts) @ popped"
      "\<forall>v \<in> set popped. \<not> is_locked_out_at_slot v s"
      using "1.IH" True by blast
    have "vts = pop_expired s vts @ (popped @ [last vts])"
      using True p(1) eq by (metis append_assoc append_butlast_last_id)
    then show ?thesis using p(2) True by (intro exI [of _ "popped @ [last vts]"]) auto
  next
    case False
    then have "pop_expired s vts = vts" by (auto simp: pop_expired.simps [of s vts])
    then show ?thesis by simp
  qed
qed

lemma pop_expired_last:
  "pop_expired s vts \<noteq> [] \<Longrightarrow> is_locked_out_at_slot (last (pop_expired s vts)) s"
proof (induction s vts rule: pop_expired.induct)
  case (1 s vts)
  show ?case
  proof (cases "vts \<noteq> [] \<and> \<not> is_locked_out_at_slot (last vts) s")
    case True
    then have eq: "pop_expired s vts = pop_expired s (butlast vts)"
      by (simp add: pop_expired.simps [of s vts])
    with 1 True show ?thesis by simp
  next
    case False
    then have "pop_expired s vts = vts" by (auto simp: pop_expired.simps [of s vts])
    with False "1.prems" show ?thesis by auto
  qed
qed

lemma pop_expired_subset: "set (pop_expired s vts) \<subseteq> set vts"
proof -
  obtain popped where "vts = pop_expired s vts @ popped" using pop_expired_append by blast
  then have "set vts = set (pop_expired s vts) \<union> set popped" using set_append by metis
  then show ?thesis by blast
qed

lemma hd_pop_expired: "pop_expired s vts \<noteq> [] \<Longrightarrow> hd (pop_expired s vts) = hd vts"
proof -
  obtain popped where p: "vts = pop_expired s vts @ popped" using pop_expired_append by blast
  assume "pop_expired s vts \<noteq> []"
  then have "hd (pop_expired s vts @ popped) = hd (pop_expired s vts)" by simp
  with p show ?thesis by simp
qed

lemma length_pop_expired: "length (pop_expired s vts) \<le> length vts"
proof -
  obtain popped where "vts = pop_expired s vts @ popped" using pop_expired_append by blast
  then have "length vts = length (pop_expired s vts) + length popped" using length_append by metis
  then show ?thesis by simp
qed

end
