(* ===== verification/Vote_Tower.thy ===== *)
theory Vote_Tower
  imports Vote_State
begin

text \<open>
  The tower of a vote state under \<open>process_next_vote_slot\<close>.
\<close>

section \<open>The tower\<close>

text \<open>
  Well-formed towers: slots increase and confirmation counts decrease strictly; a vote with
  \<open>k\<close> votes on top of it has at least \<open>k + 1\<close> confirmations and at most as many as the depth
  allows; and no vote is expired by the one on top of it.
\<close>

definition tower_list_ok :: "lockout list \<Rightarrow> bool" where
  "tower_list_ok vts \<longleftrightarrow>
     sorted_wrt (\<lambda>v w. slot v < slot w \<and> confirmation_count w < confirmation_count v) vts
     \<and> (\<forall>i < length vts. length vts \<le> i + unat (confirmation_count (vts ! i))
          \<and> i + unat (confirmation_count (vts ! i)) \<le> MAX_LOCKOUT_HISTORY)
     \<and> (\<forall>i. Suc i < length vts \<longrightarrow> unat (slot (vts ! Suc i)) \<le> lockout_end (vts ! i))"

definition tower_ok :: "vote_state \<Rightarrow> bool" where
  "tower_ok vs \<longleftrightarrow> tower_list_ok (votes vs) \<and> length (votes vs) \<le> MAX_LOCKOUT_HISTORY
     \<and> (case root_slot vs of None \<Rightarrow> True
        | Some r \<Rightarrow> votes vs \<noteq> [] \<and> (\<forall>v \<in> set (votes vs). r < slot v))"

lemma tower_ok_update [simp]:
  "tower_ok (vs\<lparr>authorized_voters := m\<rparr>) = tower_ok vs"
  "tower_ok (vs\<lparr>prior_voters := b\<rparr>) = tower_ok vs"
  "tower_ok (vs\<lparr>authorized_withdrawer := w\<rparr>) = tower_ok vs"
  "tower_ok (vs\<lparr>node_pubkey := n\<rparr>) = tower_ok vs"
  "tower_ok (vs\<lparr>commission := c\<rparr>) = tower_ok vs"
  "tower_ok (vs\<lparr>epoch_credits := ec\<rparr>) = tower_ok vs"
  "tower_ok (vs\<lparr>last_timestamp := t\<rparr>) = tower_ok vs"
  by (simp_all add: tower_ok_def split: option.split)

lemma tower_list_ok_append1:
  assumes "tower_list_ok (xs @ ys)"
  shows "tower_list_ok xs"
  unfolding tower_list_ok_def
proof (intro conjI allI impI)
  show "sorted_wrt (\<lambda>v w. slot v < slot w \<and> confirmation_count w < confirmation_count v) xs"
    using assms by (simp add: tower_list_ok_def sorted_wrt_append)
  fix i
  { assume "i < length xs"
    then show "length xs \<le> i + unat (confirmation_count (xs ! i))"
      and "i + unat (confirmation_count (xs ! i)) \<le> MAX_LOCKOUT_HISTORY"
      using assms by (auto simp: tower_list_ok_def nth_append split: if_splits dest!: spec [of _ i]) }
  assume i: "Suc i < length xs"
  then have "unat (slot ((xs @ ys) ! Suc i)) \<le> lockout_end ((xs @ ys) ! i)"
    using assms unfolding tower_list_ok_def by (metis length_append trans_less_add1)
  then show "unat (slot (xs ! Suc i)) \<le> lockout_end (xs ! i)"
    using i by (simp add: nth_append)
qed

lemma tower_list_ok_pop: "tower_list_ok vts \<Longrightarrow> tower_list_ok (pop_expired s vts)"
  using pop_expired_append [of vts s] tower_list_ok_append1 by metis

lemma tower_list_ok_tl:
  assumes "tower_list_ok (x # xs)"
  shows "tower_list_ok xs"
  unfolding tower_list_ok_def
proof (intro conjI allI impI)
  show "sorted_wrt (\<lambda>v w. slot v < slot w \<and> confirmation_count w < confirmation_count v) xs"
    using assms by (simp add: tower_list_ok_def)
  fix i
  { assume "i < length xs"
    then show "length xs \<le> i + unat (confirmation_count (xs ! i))"
      and "i + unat (confirmation_count (xs ! i)) \<le> MAX_LOCKOUT_HISTORY"
      using assms by (auto simp: tower_list_ok_def dest!: spec [of _ "Suc i"]) }
  assume i: "Suc i < length xs"
  then show "unat (slot (xs ! Suc i)) \<le> lockout_end (xs ! i)"
    using assms by (auto simp: tower_list_ok_def dest!: spec [of _ "Suc i"])
qed

text \<open>The list function inside \<open>double_lockouts\<close>, and what it does to one vote.\<close>

definition doubled :: "lockout list \<Rightarrow> lockout list" where
  "doubled vts = map (\<lambda>(i, v).
     if length vts > i + unat (confirmation_count v)
     then v\<lparr>confirmation_count := confirmation_count v + 1\<rparr> else v) (enumerate 0 vts)"

lemma votes_double_lockouts: "double_lockouts vs = vs\<lparr>votes := doubled (votes vs)\<rparr>"
  by (simp add: double_lockouts_def doubled_def Let_def)

lemma length_doubled [simp]: "length (doubled vts) = length vts"
  by (simp add: doubled_def)

lemma slot_doubled [simp]: "i < length vts \<Longrightarrow> slot (doubled vts ! i) = slot (vts ! i)"
  by (simp add: doubled_def nth_enumerate_eq)

lemma slots_doubled: "map slot (doubled vts) = map slot vts"
  by (rule nth_equalityI) auto

lemma confirmations_doubled:
  assumes "i < length vts" and "length vts \<le> Suc (i + unat (confirmation_count (vts ! i)))"
    and "unat (confirmation_count (vts ! i)) \<le> MAX_LOCKOUT_HISTORY"
  shows "unat (confirmation_count (doubled vts ! i))
    = max (unat (confirmation_count (vts ! i))) (length vts - i)"
proof -
  have "unat (confirmation_count (vts ! i) + 1) = unat (confirmation_count (vts ! i)) + 1"
    using assms(3) unat_add_no_wrap [of "confirmation_count (vts ! i)" 1]
    by (simp add: MAX_LOCKOUT_HISTORY_def)
  then show ?thesis using assms(1,2) by (auto simp: doubled_def nth_enumerate_eq)
qed

lemma tower_push_confirmations:
  fixes s :: u64
  assumes ok: "tower_list_ok xs" and len: "length xs < MAX_LOCKOUT_HISTORY" and i: "i \<le> length xs"
  defines "ys \<equiv> xs @ [lockout_new s]"
  shows "unat (confirmation_count (doubled ys ! i))
      = max (unat (confirmation_count (ys ! i))) (Suc (length xs) - i)"
    and "i + unat (confirmation_count (ys ! i)) \<le> MAX_LOCKOUT_HISTORY"
proof -
  have c: "length ys \<le> Suc (i + unat (confirmation_count (ys ! i)))"
    "i + unat (confirmation_count (ys ! i)) \<le> MAX_LOCKOUT_HISTORY"
    using ok len i
    by (auto simp: tower_list_ok_def ys_def nth_append lockout_new_def dest!: spec [of _ i])
  then show "i + unat (confirmation_count (ys ! i)) \<le> MAX_LOCKOUT_HISTORY" by simp
  from c i show "unat (confirmation_count (doubled ys ! i))
      = max (unat (confirmation_count (ys ! i))) (Suc (length xs) - i)"
    using confirmations_doubled [of i ys] by (simp add: ys_def)
qed

lemma tower_list_ok_push:
  assumes ok: "tower_list_ok xs" and len: "length xs < MAX_LOCKOUT_HISTORY"
    and above: "\<And>v. v \<in> set xs \<Longrightarrow> slot v < s"
    and locked: "xs \<noteq> [] \<Longrightarrow> unat s \<le> lockout_end (last xs)"
  shows "tower_list_ok (doubled (xs @ [lockout_new s]))" (is "tower_list_ok (doubled ?ys)")
proof -
  let ?n = "length xs"
  note conf = tower_push_confirmations [OF ok len, of _ s]
  have old: "unat (confirmation_count (xs ! j)) < unat (confirmation_count (xs ! i))"
    "slot (xs ! i) < slot (xs ! j)" if "i < j" "j < ?n" for i j
    using ok that by (auto simp: tower_list_ok_def sorted_wrt_iff_nth_less word_less_nat_alt)
  have "confirmation_count (doubled ?ys ! j) < confirmation_count (doubled ?ys ! i)
      \<and> slot (doubled ?ys ! i) < slot (doubled ?ys ! j)" if "i < j" "j \<le> ?n" for i j
  proof (cases "j < ?n")
    case True
    with that show ?thesis
      using conf(1) [of i] conf(1) [of j] old [OF that(1) True]
      by (auto simp: word_less_nat_alt nth_append)
  next
    case False
    with that have "j = ?n" by simp
    with that show ?thesis
      using conf(1) [of i] conf(1) [of j] above [of "xs ! i"]
      by (auto simp: word_less_nat_alt nth_append lockout_new_def)
  qed
  moreover have "Suc ?n \<le> i + unat (confirmation_count (doubled ?ys ! i))
      \<and> i + unat (confirmation_count (doubled ?ys ! i)) \<le> MAX_LOCKOUT_HISTORY" if "i \<le> ?n" for i
    using conf [OF that] len that by auto
  moreover have "unat (slot (doubled ?ys ! Suc i)) \<le> lockout_end (doubled ?ys ! i)" if "i < ?n" for i
  proof -
    have "unat (slot (?ys ! Suc i)) \<le> lockout_end (xs ! i)"
    proof (cases "Suc i < ?n")
      case True
      then show ?thesis using ok by (simp add: tower_list_ok_def nth_append)
    next
      case False
      then have "Suc i = ?n" "xs \<noteq> []" using that by auto
      then have "last xs = xs ! i" by (metis diff_Suc_1 last_conv_nth)
      then show ?thesis using locked \<open>Suc i = ?n\<close> \<open>xs \<noteq> []\<close>
        by (simp add: nth_append lockout_new_def)
    qed
    also have "\<dots> \<le> lockout_end (doubled ?ys ! i)"
      using that conf(1) [of i] by (simp add: lockout_end_def nth_append)
    finally show ?thesis using that by simp
  qed
  ultimately show ?thesis
    by (simp add: tower_list_ok_def sorted_wrt_iff_nth_less less_Suc_eq_le)
qed

text \<open>The votes and the root after one more slot.\<close>

definition is_new_vote :: "vote_state \<Rightarrow> u64 \<Rightarrow> bool" where
  "is_new_vote vs s \<longleftrightarrow> (case last_voted_slot vs of None \<Rightarrow> True | Some l \<Rightarrow> l < s)"

definition full_after_pop :: "vote_state \<Rightarrow> u64 \<Rightarrow> bool" where
  "full_after_pop vs s \<longleftrightarrow> length (pop_expired s (votes vs)) = MAX_LOCKOUT_HISTORY"

lemma increment_credits_frame [simp]:
  "votes (increment_credits vs ep) = votes vs"
  "root_slot (increment_credits vs ep) = root_slot vs"
  "authorized_voters (increment_credits vs ep) = authorized_voters vs"
  "last_timestamp (increment_credits vs ep) = last_timestamp vs"
  "node_pubkey (increment_credits vs ep) = node_pubkey vs"
  "commission (increment_credits vs ep) = commission vs"
  "authorized_withdrawer (increment_credits vs ep) = authorized_withdrawer vs"
  "prior_voters (increment_credits vs ep) = prior_voters vs"
  by (simp_all add: increment_credits_def Let_def case_prod_unfold)

lemma process_next_old: "\<not> is_new_vote vs s \<Longrightarrow> process_next_vote_slot vs s ep = vs"
  by (auto simp: is_new_vote_def process_next_vote_slot_def split: option.splits)

lemma process_next_votes:
  assumes "is_new_vote vs s"
  shows "votes (process_next_vote_slot vs s ep) =
      doubled ((if full_after_pop vs s then tl (pop_expired s (votes vs))
                else pop_expired s (votes vs)) @ [lockout_new s])"
    and "root_slot (process_next_vote_slot vs s ep) =
      (if full_after_pop vs s then Some (slot (hd (votes vs))) else root_slot vs)"
proof -
  have new: "\<not> (case last_voted_slot vs of None \<Rightarrow> False | Some l \<Rightarrow> s \<le> l)"
    using assms by (auto simp: is_new_vote_def split: option.splits)
  obtain popped where "votes vs = pop_expired s (votes vs) @ popped" using pop_expired_append [of "votes vs" s] by blast
  have "hd (pop_expired s (votes vs)) = hd (votes vs)" if "full_after_pop vs s"
    using that
    by (intro hd_pop_expired) (auto simp: full_after_pop_def MAX_LOCKOUT_HISTORY_def)
  with new show "votes (process_next_vote_slot vs s ep) =
      doubled ((if full_after_pop vs s then tl (pop_expired s (votes vs))
                else pop_expired s (votes vs)) @ [lockout_new s])"
    and "root_slot (process_next_vote_slot vs s ep) =
      (if full_after_pop vs s then Some (slot (hd (votes vs))) else root_slot vs)"
    by (simp_all add: process_next_vote_slot_def pop_expired_votes_def votes_double_lockouts
        full_after_pop_def Let_def)
qed

lemma process_next_slots:
  assumes "is_new_vote vs s"
  shows "slot ` set (votes (process_next_vote_slot vs s ep)) =
    slot ` set (if full_after_pop vs s then tl (pop_expired s (votes vs))
                else pop_expired s (votes vs)) \<union> {s}"
    (is "_ = slot ` set ?kept \<union> _")
  using arg_cong [OF slots_doubled [of "?kept @ [lockout_new s]"], of set]
  unfolding process_next_votes(1) [OF assms]
  by (simp add: lockout_new_def)

lemma new_vote_above:
  assumes "tower_list_ok (votes vs)" and "is_new_vote vs s" and "v \<in> set (votes vs)"
  shows "slot v < s"
proof -
  from assms(3) obtain i where i: "i < length (votes vs)" "v = votes vs ! i"
    by (metis in_set_conv_nth)
  have "slot v \<le> slot (last (votes vs))"
  proof (cases "i = length (votes vs) - 1")
    case True
    then show ?thesis using i by (metis last_conv_nth length_0_conv not_less0 order_refl)
  next
    case False
    with i have "slot v < slot (votes vs ! (length (votes vs) - 1))"
      using assms(1) by (auto simp: tower_list_ok_def sorted_wrt_iff_nth_less)
    then show ?thesis using i by (metis last_conv_nth length_0_conv not_less0 order_less_imp_le)
  qed
  also have "\<dots> < s"
    using assms(2,3)
    by (cases "votes vs = []") (auto simp: is_new_vote_def last_voted_slot_def last_lockout_def)
  finally show ?thesis .
qed

text \<open>The part of the tower the new vote goes on top of.\<close>

lemma kept_votes:
  fixes s :: u64
  assumes ok: "tower_ok vs" and new: "is_new_vote vs s"
  defines "kept \<equiv> (if full_after_pop vs s then tl (pop_expired s (votes vs))
                else pop_expired s (votes vs))"
  shows "tower_list_ok kept" and "length kept < MAX_LOCKOUT_HISTORY"
    and "set kept \<subseteq> set (votes vs)"
    and "kept \<noteq> [] \<Longrightarrow> unat s \<le> lockout_end (last kept)"
proof -
  let ?ps = "pop_expired s (votes vs)"
  have ok1: "tower_list_ok ?ps" using ok by (simp add: tower_ok_def tower_list_ok_pop)
  have len: "length ?ps \<le> MAX_LOCKOUT_HISTORY"
    using ok length_pop_expired [of s "votes vs"] by (simp add: tower_ok_def)
  have full: "?ps \<noteq> []" if "full_after_pop vs s"
    using that by (auto simp: full_after_pop_def MAX_LOCKOUT_HISTORY_def)
  show "tower_list_ok kept"
    using ok1 full tower_list_ok_tl [of "hd ?ps" "tl ?ps"] by (auto simp: kept_def)
  show "length kept < MAX_LOCKOUT_HISTORY"
    using len by (auto simp: kept_def full_after_pop_def MAX_LOCKOUT_HISTORY_def)
  show "set kept \<subseteq> set (votes vs)"
    using pop_expired_subset [of s "votes vs"] by (cases ?ps) (auto simp: kept_def)
  assume ne: "kept \<noteq> []"
  then have ps: "?ps \<noteq> []" and l: "last kept = last ?ps"
    by (auto simp: kept_def last_tl split: if_splits)
  have "last ?ps = ?ps ! (length ?ps - 1)" "length ?ps - 1 < length ?ps"
    using ps by (auto simp: last_conv_nth)
  then have "unat (confirmation_count (last ?ps)) \<le> MAX_LOCKOUT_HISTORY"
    using ok1 unfolding tower_list_ok_def by (metis add_leD2)
  with pop_expired_last [OF ps] have "unat s \<le> lockout_end (last ?ps)"
    by (intro locked_out_bound) (auto simp: MAX_LOCKOUT_HISTORY_def)
  with l show "unat s \<le> lockout_end (last kept)" by simp
qed

lemma kept_above_root:
  fixes s :: u64
  assumes ok: "tower_ok vs" and new: "is_new_vote vs s"
    and r: "(if full_after_pop vs s then Some (slot (hd (votes vs))) else root_slot vs) = Some r"
  shows "r < s \<and> (\<forall>v \<in> set (if full_after_pop vs s then tl (pop_expired s (votes vs))
                else pop_expired s (votes vs)). r < slot v)"
proof (cases "full_after_pop vs s")
  case True
  let ?ps = "pop_expired s (votes vs)"
  have "?ps \<noteq> []" using True by (auto simp: full_after_pop_def MAX_LOCKOUT_HISTORY_def)
  then have ps: "?ps = hd ?ps # tl ?ps" by simp
  then have hd: "hd (votes vs) = hd ?ps" "hd ?ps \<in> set (votes vs)"
    using \<open>?ps \<noteq> []\<close> hd_pop_expired [of s "votes vs"] pop_expired_subset [of s "votes vs"]
    by (auto dest: hd_in_set)
  have "tower_list_ok ?ps" using ok by (simp add: tower_ok_def tower_list_ok_pop)
  with ps have "tower_list_ok (hd ?ps # tl ?ps)" by simp
  then have "\<forall>v \<in> set (tl ?ps). slot (hd ?ps) < slot v"
    by (simp add: tower_list_ok_def)
  moreover have "slot (hd ?ps) < s" using new_vote_above [OF _ new hd(2)] ok
    by (simp add: tower_ok_def)
  ultimately show ?thesis using True r hd by simp
next
  case False
  with r have root: "root_slot vs = Some r" by simp
  then have ne: "votes vs \<noteq> []" and all: "\<forall>v \<in> set (votes vs). r < slot v"
    using ok by (simp_all add: tower_ok_def)
  have h: "hd (votes vs) \<in> set (votes vs)" using ne by simp
  then have "slot (hd (votes vs)) < s" using new_vote_above [OF _ new] ok by (simp add: tower_ok_def)
  with all h have "r < s" by (meson order_less_trans)
  moreover have "set (pop_expired s (votes vs)) \<subseteq> set (votes vs)"
    by (rule pop_expired_subset)
  ultimately show ?thesis using False all by auto
qed

lemma tower_ok_step: "tower_ok vs \<Longrightarrow> tower_ok (process_next_vote_slot vs s ep)"
proof (cases "is_new_vote vs s")
  case True
  assume ok: "tower_ok vs"
  note kept = kept_votes [OF ok True]
  let ?kept = "if full_after_pop vs s then tl (pop_expired s (votes vs))
                else pop_expired s (votes vs)"
  note step = process_next_votes [OF True, of ep]
  have above: "slot v < s" if "v \<in> set (votes vs)" for v
    using ok True that by (auto simp: tower_ok_def intro: new_vote_above)
  have list: "tower_list_ok (votes (process_next_vote_slot vs s ep))"
    unfolding step(1) using kept above by (intro tower_list_ok_push) auto
  note slots = process_next_slots [OF True, of ep]
  have root: "r < s \<and> (\<forall>v \<in> set ?kept. r < slot v)"
    if "root_slot (process_next_vote_slot vs s ep) = Some r" for r
    using kept_above_root [OF ok True] that above by (simp add: step(2))
  have len: "length (votes (process_next_vote_slot vs s ep)) = Suc (length ?kept)"
    unfolding step(1) by simp
  have "r < slot v" if "root_slot (process_next_vote_slot vs s ep) = Some r"
    and "v \<in> set (votes (process_next_vote_slot vs s ep))" for r v
  proof -
    have "slot v \<in> slot ` set ?kept \<union> {s}" using that(2) slots by blast
    then show ?thesis using root [OF that(1)] by auto
  qed
  then show ?thesis
    using list len kept(2) unfolding tower_ok_def by (auto split: option.split)
qed (simp add: process_next_old)

interpretation tower_run: inv_machine "\<lambda>(s, ep) vs. process_next_vote_slot vs s ep" tower_ok
  by unfold_locales (auto simp: tower_ok_step split: prod.splits)

section \<open>Roots and credits\<close>

lemma credits_increment: "credits (increment_credits vs ep) = credits vs + 1"
proof -
  have "last (tl xs) = last xs" if "length xs > MAX_EPOCH_CREDITS_HISTORY"
    for xs :: "(u64 \<times> u64 \<times> u64) list"
    using that by (cases xs; cases "tl xs") (auto simp: MAX_EPOCH_CREDITS_HISTORY_def)
  then show ?thesis
    by (auto simp: credits_def increment_credits_def Let_def case_prod_unfold)
qed

lemma credits_process_next:
  "credits (process_next_vote_slot vs s ep) =
     credits vs + of_bool (is_new_vote vs s \<and> full_after_pop vs s)"
proof (cases "is_new_vote vs s")
  case True
  then have new: "\<not> (case last_voted_slot vs of None \<Rightarrow> False | Some l \<Rightarrow> s \<le> l)"
    by (auto simp: is_new_vote_def split: option.splits)
  have up: "credits (vs'\<lparr>votes := x\<rparr>) = credits vs'" "credits (vs'\<lparr>root_slot := y\<rparr>) = credits vs'"
    for x y vs'
    by (simp_all add: credits_def)
  from new True show ?thesis
    by (simp add: process_next_vote_slot_def pop_expired_votes_def votes_double_lockouts
        full_after_pop_def Let_def up credits_increment)
qed (simp add: process_next_old)

lemma root_changes:
  assumes "tower_ok vs"
  shows "root_slot (process_next_vote_slot vs s ep) \<noteq> root_slot vs \<longleftrightarrow>
    is_new_vote vs s \<and> full_after_pop vs s"
proof (cases "is_new_vote vs s \<and> full_after_pop vs s")
  case True
  then have "pop_expired s (votes vs) \<noteq> []"
    by (auto simp: full_after_pop_def MAX_LOCKOUT_HISTORY_def)
  then have "hd (votes vs) \<in> set (votes vs)"
    using pop_expired_subset [of s "votes vs"] by (cases "votes vs") auto
  then have "\<not> (\<forall>v \<in> set (votes vs). slot (hd (votes vs)) < slot v)" by blast
  then have "root_slot vs \<noteq> Some (slot (hd (votes vs)))"
    using assms by (auto simp: tower_ok_def simp del: Ball_def)
  with True show ?thesis by (simp add: process_next_votes)
next
  case False
  then show ?thesis by (cases "is_new_vote vs s") (simp_all add: process_next_votes process_next_old)
qed

definition root_rank :: "vote_state \<Rightarrow> nat" where
  "root_rank vs = (case root_slot vs of None \<Rightarrow> 0 | Some r \<Rightarrow> Suc (unat r))"

lemma root_rank_mono:
  assumes ok: "tower_ok vs"
  shows "root_rank vs \<le> root_rank (process_next_vote_slot vs s ep)"
proof (cases "is_new_vote vs s \<and> full_after_pop vs s")
  case True
  then have "votes vs \<noteq> []" using pop_expired_subset [of s "votes vs"]
    by (auto simp: full_after_pop_def MAX_LOCKOUT_HISTORY_def)
  then have "r < slot (hd (votes vs))" if "root_slot vs = Some r" for r
    using ok that by (simp add: tower_ok_def)
  with True show ?thesis
    by (auto simp: root_rank_def process_next_votes word_less_nat_alt split: option.split)
next
  case False
  then have "root_slot (process_next_vote_slot vs s ep) = root_slot vs"
    using root_changes [OF ok] by blast
  then show ?thesis by (simp add: root_rank_def)
qed

text \<open>
  What becomes of a vote when the next slot is voted on: it stays with no fewer confirmations, it
  becomes the root, or it had expired and only the new vote is above it.
\<close>

lemma vote_fate:
  assumes ok: "tower_ok vs" and new: "is_new_vote vs s" and v: "v \<in> set (votes vs)"
  obtains (kept) w where "w \<in> set (votes (process_next_vote_slot vs s ep))"
      "slot w = slot v" "confirmation_count v \<le> confirmation_count w"
    | (rooted) "root_slot (process_next_vote_slot vs s ep) = Some (slot v)"
    | (expired) "last_locked_out_slot v < s"
      "slot v \<notin> slot ` set (votes (process_next_vote_slot vs s ep))"
      "\<And>n. n \<in> set (votes (process_next_vote_slot vs s ep)) \<Longrightarrow> slot v < slot n \<Longrightarrow> slot n = s"
proof -
  let ?ps = "pop_expired s (votes vs)"
  let ?kept = "if full_after_pop vs s then tl ?ps else ?ps"
  note k = kept_votes [OF ok new]
  obtain popped where p: "votes vs = ?ps @ popped" "\<forall>v \<in> set popped. \<not> is_locked_out_at_slot v s"
    using pop_expired_append by blast
  consider (popped) "v \<in> set popped" | (kept) "v \<in> set ?kept"
    | (first) "full_after_pop vs s" "v = hd (votes vs)"
  proof -
    have "v \<in> set ?ps \<union> set popped" using v p(1) by (metis set_append)
    moreover have "v = hd ?ps \<or> v \<in> set (tl ?ps)" if "v \<in> set ?ps"
      using that by (cases ?ps) auto
    moreover have "hd ?ps = hd (votes vs)" if "v \<in> set ?ps"
      using that by (intro hd_pop_expired) auto
    ultimately show thesis using that by (metis Un_iff)
  qed
  then show thesis
  proof cases
    case popped
    have "sorted_wrt (\<lambda>v w. slot v < slot w \<and> confirmation_count w < confirmation_count v) (?ps @ popped)"
      using ok p(1) by (simp add: tower_ok_def tower_list_ok_def)
    then have "slot w < slot v" if "w \<in> set ?ps" for w
      using popped that by (simp add: sorted_wrt_append)
    moreover have "set ?kept \<subseteq> set ?ps" by (cases ?ps) auto
    ultimately have below: "slot w < slot v" if "w \<in> set ?kept" for w using that by blast
    have "slot v < s" using ok new v by (auto simp: tower_ok_def intro: new_vote_above)
    then have "slot v \<notin> slot ` set ?kept \<union> {s}" using below by fastforce
    moreover have "slot n = s" if "slot n \<in> slot ` set ?kept \<union> {s}" "slot v < slot n" for n :: lockout
      using that below by fastforce
    ultimately show thesis
      using expired p(2) popped unfolding process_next_slots [OF new, of ep, symmetric]
      by (auto simp: is_locked_out_at_slot_def)
  next
    case kept
    then obtain i where i: "i < length ?kept" "v = ?kept ! i" by (metis in_set_conv_nth)
    let ?w = "doubled (?kept @ [lockout_new s]) ! i"
    have "unat (confirmation_count v) \<le> unat (confirmation_count ?w)"
      using tower_push_confirmations(1) [OF k(1,2), of i s] i by (simp add: nth_append)
    moreover have "slot ?w = slot v" using i by (simp add: nth_append)
    moreover have "?w \<in> set (votes (process_next_vote_slot vs s ep))"
      unfolding process_next_votes(1) [OF new] using i(1) by (intro nth_mem) simp
    ultimately show thesis using that(1) by (simp add: word_le_nat_alt)
  next
    case first
    then show thesis using rooted by (simp add: process_next_votes(2) [OF new])
  qed
qed

section \<open>Properties\<close>

lemma tower_ok_new: "tower_ok (vote_state_new vi c)"
  by (simp add: tower_ok_def tower_list_ok_def vote_state_new_def vote_state_default_def)

text \<open>
  C1: whatever slots a new vote account votes on, in whatever order and epochs, its tower is well
  formed: slots strictly increase, confirmation counts strictly decrease and match the depth, no
  vote is expired by the one on top of it, there are at most 31 votes and all are above the root.
\<close>

theorem tower_invariant:
  "tower_ok (fold (\<lambda>(s, ep) vs. process_next_vote_slot vs s ep) evs (vote_state_new vi c))"
  by (rule tower_run.run_inv [OF tower_ok_new])

text \<open>
  C2: voting on a slot never drops a vote that is still locked out at that slot: each earlier vote
  stays with no fewer confirmations, becomes the root, or its lockout has ended.
\<close>

theorem lockouts_respected:
  assumes "tower_ok vs" and "v \<in> set (votes vs)"
  shows "(\<exists>w \<in> set (votes (process_next_vote_slot vs s ep)).
            slot w = slot v \<and> confirmation_count v \<le> confirmation_count w)
    \<or> root_slot (process_next_vote_slot vs s ep) = Some (slot v)
    \<or> \<not> is_locked_out_at_slot v s"
proof (cases "is_new_vote vs s")
  case True
  show ?thesis
    using assms(1) True assms(2)
    by (cases rule: vote_fate [where ep = ep]) (auto simp: is_locked_out_at_slot_def)
qed (use assms(2) in \<open>auto simp: process_next_old\<close>)

definition example_tower :: vote_state where
  "example_tower = vote_state_default\<lparr>votes := [\<lparr>slot = 3, confirmation_count = 2\<rparr>,
     \<lparr>slot = 5, confirmation_count = 1\<rparr>]\<rparr>"

lemma example_tower_ok: "tower_ok example_tower"
  by (simp add: tower_ok_def tower_list_ok_def example_tower_def vote_state_default_def
      MAX_LOCKOUT_HISTORY_def lockout_end_def less_Suc_eq)

theorem lockouts_respected_witness:
  "(\<exists>w \<in> set (votes (process_next_vote_slot example_tower 8 0)).
       slot w = 5 \<and> 1 \<le> confirmation_count w)
    \<or> root_slot (process_next_vote_slot example_tower 8 0) = Some 5
    \<or> \<not> is_locked_out_at_slot \<lparr>slot = 5, confirmation_count = 1\<rparr> 8"
  using lockouts_respected [OF example_tower_ok, of "\<lparr>slot = 5, confirmation_count = 1\<rparr>" 8 0]
  by (simp add: example_tower_def)

text \<open>
  C19: a vote earns exactly one credit when it pushes the oldest vote out as the new root, and none
  otherwise; the root never moves backwards.
\<close>

theorem credit_per_root:
  assumes "tower_ok vs"
  shows "credits (process_next_vote_slot vs s ep) = credits vs
      + (if root_slot (process_next_vote_slot vs s ep) \<noteq> root_slot vs then 1 else 0)
    \<and> root_rank vs \<le> root_rank (process_next_vote_slot vs s ep)"
  using credits_process_next [of vs s ep] root_changes [OF assms, of s ep] root_rank_mono [OF assms]
  by simp

theorem credit_per_root_witness:
  "credits (process_next_vote_slot example_tower 6 0) = credits example_tower
      + (if root_slot (process_next_vote_slot example_tower 6 0) \<noteq> root_slot example_tower then 1 else 0)"
  using credit_per_root [OF example_tower_ok] by simp

end
