(* ===== verification/Vote_Checks.thy ===== *)
theory Vote_Checks
  imports Vote_Tower
begin

text \<open>
  What the two acceptance tests of a vote state decide: \<open>check_slots_are_valid\<close>, which matches a
  vote against the slot hashes of the bank, and \<open>process_new_vote_state\<close>, which compares a whole
  proposed tower with the current one.
\<close>

section \<open>Matching slots with slot hashes\<close>

definition newer :: "u64 option \<Rightarrow> u64 \<Rightarrow> bool" where
  "newer l s \<longleftrightarrow> (case l of None \<Rightarrow> True | Some x \<Rightarrow> x < s)"

lemma newer_iff: "newer l s \<longleftrightarrow> \<not> (case l of None \<Rightarrow> False | Some x \<Rightarrow> s \<le> x)"
  by (auto simp: newer_def split: option.split)

lemma newer_mono: "newer l s \<Longrightarrow> s \<le> t \<Longrightarrow> newer l t"
  by (auto simp: newer_def split: option.splits)

lemma loop_unfold:
  assumes "i < length slots" and "0 < j"
  shows "check_slots_loop l slots sh i j =
    (if \<not> newer l (slots ! i) then check_slots_loop l slots sh (i + 1) j
     else if slots ! i \<noteq> fst (sh ! (j - 1)) then check_slots_loop l slots sh i (j - 1)
     else check_slots_loop l slots sh (i + 1) (j - 1))"
  by (subst check_slots_loop.simps) (simp only: assms newer_iff not_not simp_thms if_True)

lemma loop_cases:
  assumes "i < length slots" and "0 < j"
  shows "\<not> newer l (slots ! i) \<Longrightarrow>
      check_slots_loop l slots sh i j = check_slots_loop l slots sh (i + 1) j"
    and "newer l (slots ! i) \<Longrightarrow> slots ! i \<noteq> fst (sh ! (j - 1)) \<Longrightarrow>
      check_slots_loop l slots sh i j = check_slots_loop l slots sh i (j - 1)"
    and "newer l (slots ! i) \<Longrightarrow> slots ! i = fst (sh ! (j - 1)) \<Longrightarrow>
      check_slots_loop l slots sh i j = check_slots_loop l slots sh (i + 1) (j - 1)"
  using loop_unfold [OF assms, of l sh] by (simp_all only: not_not simp_thms if_True if_False)

lemma loop_end: "\<not> (i < length slots \<and> 0 < j) \<Longrightarrow> check_slots_loop l slots sh i j = (i, j)"
  by (subst check_slots_loop.simps) auto

text \<open>Induction along the loop with its four exits named.\<close>

lemma check_slots_induct [case_names stop old mismatch match]:
  assumes "\<And>i j. \<not> (i < length slots \<and> 0 < j) \<Longrightarrow> P i j"
    and "\<And>i j. i < length slots \<Longrightarrow> 0 < j \<Longrightarrow> \<not> newer l (slots ! i) \<Longrightarrow> P (i + 1) j \<Longrightarrow> P i j"
    and "\<And>i j. i < length slots \<Longrightarrow> 0 < j \<Longrightarrow> newer l (slots ! i) \<Longrightarrow>
      slots ! i \<noteq> fst (sh ! (j - 1)) \<Longrightarrow> P i (j - 1) \<Longrightarrow> P i j"
    and "\<And>i j. i < length slots \<Longrightarrow> 0 < j \<Longrightarrow> newer l (slots ! i) \<Longrightarrow>
      slots ! i = fst (sh ! (j - 1)) \<Longrightarrow> P (i + 1) (j - 1) \<Longrightarrow> P i j"
  shows "P i j"
proof (induction "length slots - i + j" arbitrary: i j rule: less_induct)
  case less
  consider "\<not> (i < length slots \<and> 0 < j)" | "i < length slots" "0 < j" "\<not> newer l (slots ! i)"
    | "i < length slots" "0 < j" "newer l (slots ! i)" "slots ! i \<noteq> fst (sh ! (j - 1))"
    | "i < length slots" "0 < j" "newer l (slots ! i)" "slots ! i = fst (sh ! (j - 1))"
    by blast
  then show ?case
  proof cases
    case 1 then show ?thesis by (rule assms(1))
  next
    case 2
    then have "P (i + 1) j" by (intro less.hyps) linarith
    with 2 show ?thesis by (rule assms(2))
  next
    case 3
    then have "P i (j - 1)" by (intro less.hyps) linarith
    with 3 show ?thesis by (rule assms(3))
  next
    case 4
    then have "P (i + 1) (j - 1)" by (intro less.hyps) linarith
    with 4 show ?thesis by (rule assms(4))
  qed
qed

lemma filter_newer_drop:
  assumes "i < length slots"
  shows "filter P (drop i slots)
    = (if P (slots ! i) then slots ! i # filter P (drop (i + 1) slots)
       else filter P (drop (i + 1) slots))"
  using assms by (simp add: Cons_nth_drop_Suc [symmetric])

lemma rev_take_fst:
  assumes "0 < j" and "j \<le> length sh"
  shows "map fst (rev (take j sh)) = fst (sh ! (j - 1)) # map fst (rev (take (j - 1) sh))"
  using assms by (cases j) (simp_all add: take_Suc_conv_app_nth)

lemma loop_bounds:
  "i \<le> length slots \<Longrightarrow> fst (check_slots_loop l slots sh i j) \<le> length slots
     \<and> snd (check_slots_loop l slots sh i j) \<le> j"
  by (induction i j rule: check_slots_induct [where l = l and slots = slots and sh = sh])
    (auto simp: loop_end loop_cases)

lemma loop_untouched:
  "i \<le> length slots \<Longrightarrow> snd (check_slots_loop l slots sh i j) = j \<longleftrightarrow>
     j = 0 \<or> filter (newer l) (drop i slots) = []"
proof (induction i j rule: check_slots_induct [where l = l and slots = slots and sh = sh])
  case (mismatch i j)
  have "snd (check_slots_loop l slots sh i (j - 1)) \<le> j - 1"
    using loop_bounds [of i slots l sh "j - 1"] mismatch by simp
  with mismatch show ?case by (auto simp: loop_cases filter_newer_drop [of i slots])
next
  case (match i j)
  have "snd (check_slots_loop l slots sh (i + 1) (j - 1)) \<le> j - 1"
    using loop_bounds [of "i + 1" slots l sh "j - 1"] match by simp
  with match show ?case by (auto simp: loop_cases filter_newer_drop [of i slots])
next
  case (old i j)
  then show ?case by (simp add: loop_cases filter_newer_drop [of i slots])
next
  case (stop i j)
  then show ?case by (auto simp: loop_end)
qed

lemma loop_sound:
  assumes "i \<le> length slots" "j \<le> length sh" "fst (check_slots_loop l slots sh i j) = length slots"
  shows "subseq (filter (newer l) (drop i slots)) (map fst (rev (take j sh)))
    \<and> (filter (newer l) (drop i slots) \<noteq> [] \<longrightarrow>
         last (filter (newer l) (drop i slots)) = fst (sh ! snd (check_slots_loop l slots sh i j)))"
  using assms
proof (induction i j rule: check_slots_induct [where l = l and slots = slots and sh = sh])
  case (stop i j)
  then show ?case by (simp add: loop_end)
next
  case (old i j)
  then show ?case by (simp add: loop_cases filter_newer_drop [of i slots])
next
  case (mismatch i j)
  then show ?case
    by (simp add: loop_cases filter_newer_drop [of i slots] rev_take_fst)
next
  case (match i j)
  have "snd (check_slots_loop l slots sh (i + 1) (j - 1)) = j - 1"
    if "filter (newer l) (drop (i + 1) slots) = []"
    using loop_untouched [of "i + 1" slots l sh "j - 1"] match that by simp
  with match show ?case
    by (simp add: loop_cases filter_newer_drop [of i slots] rev_take_fst)
qed

lemma loop_complete:
  assumes "i \<le> length slots" "j \<le> length sh" "sorted slots"
    and "0 < j \<or> i = length slots \<or> newer l (slots ! i)"
    and "subseq (filter (newer l) (drop i slots)) (map fst (rev (take j sh)))"
  shows "fst (check_slots_loop l slots sh i j) = length slots"
  using assms
proof (induction i j rule: check_slots_induct [where l = l and slots = slots and sh = sh])
  case (stop i j)
  show ?case
  proof (cases "i = length slots")
    case False
    with stop have "i < length slots" "j = 0" "newer l (slots ! i)" by auto
    with stop show ?thesis by (simp add: filter_newer_drop [of i slots])
  qed (simp add: loop_end)
next
  case (old i j)
  then show ?case by (auto simp: loop_cases filter_newer_drop [of i slots])
next
  case (mismatch i j)
  then show ?case
    by (auto simp: loop_cases filter_newer_drop [of i slots] rev_take_fst)
next
  case (match i j)
  have "i + 1 = length slots \<or> newer l (slots ! (i + 1))"
    using newer_mono [OF match.hyps(3)] sorted_nth_mono [OF match.prems(3), of i "i + 1"] match.hyps(1)
    by fastforce
  with match show ?case
    by (auto simp: loop_cases filter_newer_drop [of i slots] rev_take_fst)
qed

lemma check_slots_iff:
  fixes vs :: vote_state and v :: vote
  assumes "sorted (vote_slots v)" and "distinct (map fst sh)"
  defines "ns \<equiv> filter (newer (last_voted_slot vs)) (vote_slots v)"
  shows "check_slots_are_valid vs v sh = Inr () \<longleftrightarrow>
    ns \<noteq> [] \<and> subseq ns (rev (map fst sh)) \<and> map_of sh (last ns) = Some (vote_hash v)"
proof -
  obtain i j where ij: "check_slots_loop (last_voted_slot vs) (vote_slots v) sh 0 (length sh) = (i, j)"
    by fastforce
  have bounds: "i \<le> length (vote_slots v)" "j \<le> length sh"
    using loop_bounds [of 0 "vote_slots v" "last_voted_slot vs" sh "length sh"] ij by auto
  have old: "j = length sh \<longleftrightarrow> sh = [] \<or> ns = []"
    using loop_untouched [of 0 "vote_slots v" "last_voted_slot vs" sh "length sh"] ij
    by (simp add: ns_def)
  have sound: "subseq ns (rev (map fst sh)) \<and> (ns \<noteq> [] \<longrightarrow> last ns = fst (sh ! j))"
    if "i = length (vote_slots v)"
    using loop_sound [of 0 "vote_slots v" "length sh" sh "last_voted_slot vs"] ij that
    by (simp add: ns_def rev_map)
  have complete: "i = length (vote_slots v)" if "sh \<noteq> []" "subseq ns (rev (map fst sh))"
    using loop_complete [of 0 "vote_slots v" "length sh" sh "last_voted_slot vs"] ij that assms(1)
    by (simp add: ns_def rev_map)
  have entry: "map_of sh (fst (sh ! j)) = Some (snd (sh ! j))" if "j < length sh"
    using assms(2) that by (simp add: map_of_eq_Some_iff)
  show ?thesis
  proof (cases "j < length sh \<and> i = length (vote_slots v)")
    case True
    with old sound have "ns \<noteq> []" "subseq ns (rev (map fst sh))" "last ns = fst (sh ! j)" by auto
    with True entry ij show ?thesis by (simp add: check_slots_are_valid_def)
  next
    case False
    then have "check_slots_are_valid vs v sh \<noteq> Inr ()"
      using ij bounds by (auto simp: check_slots_are_valid_def)
    moreover have "\<not> (ns \<noteq> [] \<and> subseq ns (rev (map fst sh)))"
      using False old complete bounds by (metis list.size(3) map_is_Nil_conv nat_less_le
          rev_is_Nil_conv list_emb_Nil2)
    ultimately show ?thesis by blast
  qed
qed

section \<open>Replacing the tower\<close>

text \<open>The conditions on a proposed tower by itself, as the source's comment lists them.\<close>

definition vote_in_range :: "u64 option \<Rightarrow> lockout \<Rightarrow> bool" where
  "vote_in_range new_root v \<longleftrightarrow> 0 < unat (confirmation_count v)
     \<and> unat (confirmation_count v) \<le> MAX_LOCKOUT_HISTORY
     \<and> (case new_root of None \<Rightarrow> True | Some r \<Rightarrow> r < slot v \<or> r = 0)"

definition stacked_on :: "lockout \<Rightarrow> lockout \<Rightarrow> bool" where
  "stacked_on p v \<longleftrightarrow> slot p < slot v \<and> confirmation_count v < confirmation_count p
     \<and> slot v \<le> last_locked_out_slot p"

lemma check_new_votes_iff:
  "check_new_votes new_root previous vts = Inr () \<longleftrightarrow>
     (\<forall>v \<in> set vts. vote_in_range new_root v)
     \<and> successively stacked_on (case previous of None \<Rightarrow> vts | Some p \<Rightarrow> p # vts)"
proof (induction vts arbitrary: previous)
  case Nil
  then show ?case by (simp split: option.split)
next
  case (Cons v vts)
  show ?case
    by (cases previous)
      (auto simp: Cons vote_in_range_def stacked_on_def unat_gt_0 not_less not_le split: option.splits)
qed

lemma skip_rooted_filter:
  "sorted_wrt (\<lambda>v w. slot v < slot w) vts \<Longrightarrow>
     skip_rooted new_root vts = filter (\<lambda>v. case new_root of None \<Rightarrow> True | Some r \<Rightarrow> r < slot v) vts"
proof (induction vts)
  case (Cons v vts)
  have all: "filter (\<lambda>v. r < slot v) vts = vts" if "\<not> slot v \<le> r" for r
    using Cons.prems that by (intro filter_True) auto
  show ?case using Cons all by (auto split: option.splits)
qed simp

text \<open>
  A vote of the current tower is either kept, with no fewer confirmations, or expired by every
  later vote of the proposed one.
\<close>

definition not_rolled_back :: "lockout list \<Rightarrow> lockout \<Rightarrow> lockout \<Rightarrow> bool" where
  "not_rolled_back new c n \<longleftrightarrow>
     (slot n = slot c \<longrightarrow> confirmation_count c \<le> confirmation_count n)
     \<and> (slot c < slot n \<longrightarrow> slot c \<in> slot ` set new \<or> last_locked_out_slot c < slot n)"

lemma not_rolled_back_below:
  assumes "slot n < slot c"
  shows "not_rolled_back (n # ns) c n" and "not_rolled_back (n # ns) c m = not_rolled_back ns c m"
  using assms by (auto simp: not_rolled_back_def)

lemma check_lockouts_iff:
  "sorted_wrt (\<lambda>v w. slot v < slot w) cs \<Longrightarrow> sorted_wrt (\<lambda>v w. slot v < slot w) ns \<Longrightarrow>
     check_lockouts cs ns = Inr () \<longleftrightarrow> (\<forall>c \<in> set cs. \<forall>n \<in> set ns. not_rolled_back ns c n)"
proof (induction cs ns rule: check_lockouts.induct)
  case (1 c cs n ns)
  consider "slot c < slot n" | "slot c = slot n" | "slot n < slot c" by (rule linorder_cases)
  then show ?case
  proof cases
    case 1
    have le: "slot n \<le> slot m" if "m \<in> set (n # ns)" for m
      using that "1.prems" by auto
    have "slot c \<notin> slot ` set (n # ns)" using le 1 by fastforce
    then have "(\<forall>m \<in> set (n # ns). not_rolled_back (n # ns) c m)
        \<longleftrightarrow> (\<forall>m \<in> set (n # ns). last_locked_out_slot c < slot m)"
      using le 1 unfolding not_rolled_back_def by fastforce
    also have "\<dots> \<longleftrightarrow> last_locked_out_slot c < slot n"
      using le by (meson list.set_intros(1) order_less_le_trans)
    finally show ?thesis using 1 "1.IH"(1) "1.prems" by (auto simp: not_le)
  next
    case 2
    then have "(\<forall>m \<in> set (n # ns). not_rolled_back (n # ns) c m)
        \<longleftrightarrow> confirmation_count c \<le> confirmation_count n"
      using "1.prems" by (auto simp: not_rolled_back_def)
    moreover have "slot n < slot c'" if "c' \<in> set cs" for c' using 2 "1.prems" that by simp
    then have "(\<forall>c' \<in> set cs. \<forall>m \<in> set (n # ns). not_rolled_back (n # ns) c' m)
        \<longleftrightarrow> (\<forall>c' \<in> set cs. \<forall>m \<in> set ns. not_rolled_back ns c' m)"
      using not_rolled_back_below by fastforce
    ultimately show ?thesis using 2 "1.IH"(2) "1.prems" by (auto simp: not_less)
  next
    case 3
    moreover have "slot n < slot c'" if "c' \<in> set (c # cs)" for c'
      using 3 "1.prems" that by fastforce
    then have "(\<forall>c' \<in> set (c # cs). \<forall>m \<in> set (n # ns). not_rolled_back (n # ns) c' m)
        \<longleftrightarrow> (\<forall>c' \<in> set (c # cs). \<forall>m \<in> set ns. not_rolled_back ns c' m)"
      using not_rolled_back_below by fastforce
    ultimately show ?thesis using "1.IH"(3) "1.prems" by auto
  qed
qed simp_all

text \<open>The contract of \<open>process_new_vote_state\<close>.\<close>

definition above_root :: "u64 option \<Rightarrow> lockout \<Rightarrow> bool" where
  "above_root new_root v \<longleftrightarrow> (case new_root of None \<Rightarrow> True | Some r \<Rightarrow> r < slot v)"

definition root_advances :: "u64 option \<Rightarrow> u64 option \<Rightarrow> bool" where
  "root_advances old new \<longleftrightarrow>
     (case old of None \<Rightarrow> True | Some c \<Rightarrow> (case new of None \<Rightarrow> False | Some n \<Rightarrow> c \<le> n))"

definition tower_accepted :: "vote_state \<Rightarrow> lockout list \<Rightarrow> u64 option \<Rightarrow> bool" where
  "tower_accepted vs new_state new_root \<longleftrightarrow>
     new_state \<noteq> [] \<and> length new_state \<le> MAX_LOCKOUT_HISTORY
     \<and> (votes vs = [] \<or> slot (last (votes vs)) < slot (last new_state))
     \<and> root_advances (root_slot vs) new_root
     \<and> (\<forall>v \<in> set new_state. vote_in_range new_root v)
     \<and> successively stacked_on new_state
     \<and> (\<forall>c \<in> set (filter (above_root new_root) (votes vs)).
          \<forall>n \<in> set new_state. not_rolled_back new_state c n)"

lemma stacked_sorted:
  assumes "successively stacked_on vts"
  shows "sorted_wrt (\<lambda>v w. slot v < slot w) vts"
proof -
  have su: "successively (\<lambda>v w. slot v < slot w) vts"
    using assms by (rule successively_mono) (simp add: stacked_on_def)
  have tr: "transp (\<lambda>v w. slot v < slot w)" by (auto intro!: transpI)
  show ?thesis by (rule successively_conv_sorted_wrt [OF tr, THEN iffD1, OF su])
qed

lemma check_root_iff: "check_root new old = Inr () \<longleftrightarrow> root_advances old new"
  by (auto simp: check_root_def root_advances_def result_simps split: option.splits)

lemma process_new_vote_state_accepts:
  assumes "sorted_wrt (\<lambda>v w. slot v < slot w) (votes vs)"
  shows "process_new_vote_state vs new_state new_root ts ep = Inr vs' \<longleftrightarrow>
    tower_accepted vs new_state new_root
    \<and> (\<exists>vs2. (let vs1 = (if root_slot vs \<noteq> new_root then increment_credits vs ep else vs)
            in case ts of None \<Rightarrow> Inr vs1
               | Some t \<Rightarrow> process_timestamp vs1 (slot (last new_state)) t) = Inr vs2
         \<and> vs' = vs2\<lparr>root_slot := new_root, votes := new_state\<rparr>)"
proof -
  have skip: "skip_rooted new_root (votes vs) = filter (above_root new_root) (votes vs)"
    using skip_rooted_filter [OF assms, of new_root]
    by (simp add: above_root_def [abs_def])
  have lockouts: "check_lockouts (skip_rooted new_root (votes vs)) new_state = Inr () \<longleftrightarrow>
      (\<forall>c \<in> set (filter (above_root new_root) (votes vs)).
          \<forall>n \<in> set new_state. not_rolled_back new_state c n)"
    if "successively stacked_on new_state"
    unfolding skip using stacked_sorted [OF that] sorted_wrt_filter [OF assms]
    by (rule check_lockouts_iff [rotated])
  have "process_new_vote_state vs new_state new_root ts ep = Inr vs' \<longleftrightarrow>
      new_state \<noteq> [] \<and> length new_state \<le> MAX_LOCKOUT_HISTORY
      \<and> (votes vs = [] \<or> slot (last (votes vs)) < slot (last new_state))
      \<and> check_root new_root (root_slot vs) = Inr () \<and> check_new_votes new_root None new_state = Inr ()
      \<and> check_lockouts (skip_rooted new_root (votes vs)) new_state = Inr ()
      \<and> (\<exists>vs2. (let vs1 = (if root_slot vs \<noteq> new_root then increment_credits vs ep else vs)
            in case ts of None \<Rightarrow> Inr vs1
               | Some t \<Rightarrow> process_timestamp vs1 (slot (last new_state)) t) = Inr vs2
         \<and> vs' = vs2\<lparr>root_slot := new_root, votes := new_state\<rparr>)"
    unfolding process_new_vote_state_def
    by (simp only: bind_r_Inr Let_def if_distrib [of "\<lambda>x. x = Inr vs'"] not_le not_less)
      (auto simp: not_less)
  then show ?thesis
    unfolding tower_accepted_def check_root_iff check_new_votes_iff
    using lockouts by (simp only: option.case simp_thms) blast
qed

section \<open>One vote at a time is a special case of a whole tower\<close>

lemma tower_list_in_range:
  assumes "tower_list_ok vts" and "v \<in> set vts"
  shows "0 < unat (confirmation_count v)" and "unat (confirmation_count v) \<le> MAX_LOCKOUT_HISTORY"
proof -
  obtain i where "i < length vts" "v = vts ! i" using assms(2) by (metis in_set_conv_nth)
  then have "length vts \<le> i + unat (confirmation_count v)" "i < length vts"
    "i + unat (confirmation_count v) \<le> MAX_LOCKOUT_HISTORY"
    using assms(1) by (auto simp: tower_list_ok_def)
  then show "0 < unat (confirmation_count v)" "unat (confirmation_count v) \<le> MAX_LOCKOUT_HISTORY"
    by linarith+
qed

lemma tower_list_stacked:
  assumes ok: "tower_list_ok vts" and small: "\<And>v. v \<in> set vts \<Longrightarrow> unat (slot v) + 2 ^ 31 < 2 ^ 64"
  shows "successively stacked_on vts"
  unfolding successively_conv_nth
proof (intro allI impI)
  fix i assume i: "Suc i < length vts"
  let ?p = "vts ! i" and ?v = "vts ! Suc i"
  have p: "?p \<in> set vts" using i by simp
  have c: "unat (confirmation_count ?p) \<le> 31"
    using tower_list_in_range(2) [OF ok p] by (simp add: MAX_LOCKOUT_HISTORY_def)
  then have "(2 :: nat) ^ unat (confirmation_count ?p) \<le> 2 ^ 31" by (rule power_increasing) simp
  then have "lockout_end ?p < 2 ^ 64" using small [OF p] by (simp add: lockout_end_def)
  then have "unat (last_locked_out_slot ?p) = lockout_end ?p"
    using c by (intro last_locked_out_slot_exact) auto
  moreover have "unat (slot ?v) \<le> lockout_end ?p" using ok i by (simp add: tower_list_ok_def)
  moreover have "slot ?p < slot ?v \<and> confirmation_count ?v < confirmation_count ?p"
    using ok i by (simp add: tower_list_ok_def sorted_wrt_iff_nth_less)
  ultimately show "stacked_on ?p ?v" by (simp add: stacked_on_def word_le_nat_alt)
qed

lemma tower_list_sorted: "tower_list_ok vts \<Longrightarrow> sorted_wrt (\<lambda>v w. slot v < slot w) vts"
  unfolding tower_list_ok_def by (metis (mono_tags, lifting) sorted_wrt_mono_rel)

lemma sorted_slot_unique:
  "sorted_wrt (\<lambda>v w. slot v < slot w) vts \<Longrightarrow> v \<in> set vts \<Longrightarrow> w \<in> set vts \<Longrightarrow> slot v = slot w \<Longrightarrow> v = w"
  by (induction vts) auto

lemma step_not_rolled_back:
  assumes ok: "tower_ok vs" and new: "is_new_vote vs s"
    and c: "c \<in> set (votes vs)" "above_root (root_slot (process_next_vote_slot vs s ep)) c"
    and n: "n \<in> set (votes (process_next_vote_slot vs s ep))"
  shows "not_rolled_back (votes (process_next_vote_slot vs s ep)) c n"
  using ok new c(1)
proof (cases rule: vote_fate [where ep = ep])
  case (kept w)
  have sorted: "sorted_wrt (\<lambda>v w. slot v < slot w) (votes (process_next_vote_slot vs s ep))"
    using tower_ok_step [OF ok] unfolding tower_ok_def by (blast intro: tower_list_sorted)
  have "n = w" if "slot n = slot c"
    using sorted_slot_unique [OF sorted n kept(1)] that kept(2) by simp
  moreover have "slot c \<in> slot ` set (votes (process_next_vote_slot vs s ep))"
    using kept(1,2) by (metis image_eqI)
  ultimately show ?thesis using kept(3) by (auto simp: not_rolled_back_def)
next
  case rooted
  then show ?thesis using c(2) by (simp add: above_root_def)
next
  case expired
  then have "slot n \<noteq> slot c" "slot c < slot n \<longrightarrow> slot n = s" using n by (metis image_eqI, blast)
  with expired(1) show ?thesis by (auto simp: not_rolled_back_def)
qed

lemma step_accepted:
  assumes ok: "tower_ok vs" and new: "is_new_vote vs s" and small: "unat s + 2 ^ 31 < 2 ^ 64"
  shows "tower_accepted vs (votes (process_next_vote_slot vs s ep))
    (root_slot (process_next_vote_slot vs s ep))"
proof -
  let ?vs' = "process_next_vote_slot vs s ep"
  note ok' = tower_ok_step [OF ok, of s ep]
  then have list: "tower_list_ok (votes ?vs')" by (simp add: tower_ok_def)
  have slots: "slot ` set (votes ?vs') \<subseteq> slot ` set (votes vs) \<union> {s}"
    using kept_votes(3) [OF ok new] unfolding process_next_slots [OF new] by blast
  have above: "slot v < s" if "v \<in> set (votes vs)" for v
    using ok new that by (auto simp: tower_ok_def intro: new_vote_above)
  have le: "slot v \<le> s" if "v \<in> set (votes ?vs')" for v
  proof -
    have "slot v \<in> slot ` set (votes vs) \<union> {s}" using slots that by blast
    then show ?thesis using above by (auto intro: order_less_imp_le)
  qed
  have last: "votes ?vs' \<noteq> []" "slot (last (votes ?vs')) = s"
  proof -
    have "length (votes ?vs') \<noteq> 0" unfolding process_next_votes(1) [OF new] by simp
    then show ne: "votes ?vs' \<noteq> []" by simp
    have "last (map slot (votes ?vs')) = s"
      unfolding process_next_votes(1) [OF new] slots_doubled by (simp add: lockout_new_def)
    then show "slot (last (votes ?vs')) = s" using ne by (simp add: last_map)
  qed
  have "unat (slot v) + 2 ^ 31 < 2 ^ 64" if "v \<in> set (votes ?vs')" for v
    using le [OF that] small by (simp add: word_le_nat_alt)
  then have "successively stacked_on (votes ?vs')" by (rule tower_list_stacked [OF list])
  moreover have "vote_in_range (root_slot ?vs') v" if "v \<in> set (votes ?vs')" for v
    using ok' that tower_list_in_range [OF list that]
    by (auto simp: vote_in_range_def tower_ok_def split: option.splits)
  moreover have "root_advances (root_slot vs) (root_slot ?vs')"
    using root_rank_mono [OF ok, of s ep]
    by (auto simp: root_rank_def root_advances_def word_le_nat_alt split: option.splits)
  moreover have "votes vs = [] \<or> slot (last (votes vs)) < s"
    using above [of "last (votes vs)"] by (cases "votes vs = []") simp_all
  moreover have "length (votes ?vs') \<le> MAX_LOCKOUT_HISTORY" using ok' by (simp add: tower_ok_def)
  moreover have "not_rolled_back (votes ?vs') c n"
    if "c \<in> set (filter (above_root (root_slot ?vs')) (votes vs))" "n \<in> set (votes ?vs')" for c n
    using that by (intro step_not_rolled_back [OF ok new]) auto
  ultimately show ?thesis using last unfolding tower_accepted_def by simp
qed

lemma increment_credits_commute:
  "increment_credits (vs\<lparr>votes := x\<rparr>) ep = (increment_credits vs ep)\<lparr>votes := x\<rparr>"
  "increment_credits (vs\<lparr>root_slot := r\<rparr>) ep = (increment_credits vs ep)\<lparr>root_slot := r\<rparr>"
  by (simp_all add: increment_credits_def Let_def case_prod_unfold)

lemma process_next_state:
  assumes "is_new_vote vs s"
  shows "process_next_vote_slot vs s ep =
    (if full_after_pop vs s then increment_credits vs ep else vs)
      \<lparr>root_slot := root_slot (process_next_vote_slot vs s ep),
       votes := votes (process_next_vote_slot vs s ep)\<rparr>"
proof -
  have new: "\<not> (case last_voted_slot vs of None \<Rightarrow> False | Some l \<Rightarrow> s \<le> l)"
    using assms by (auto simp: is_new_vote_def split: option.splits)
  then show ?thesis
    by (simp add: process_next_vote_slot_def pop_expired_votes_def votes_double_lockouts
        full_after_pop_def Let_def increment_credits_commute)
qed

lemma step_as_new_state:
  assumes ok: "tower_ok vs" and new: "is_new_vote vs s" and small: "unat s + 2 ^ 31 < 2 ^ 64"
  shows "process_new_vote_state vs (votes (process_next_vote_slot vs s ep))
    (root_slot (process_next_vote_slot vs s ep)) None ep = Inr (process_next_vote_slot vs s ep)"
proof -
  have "sorted_wrt (\<lambda>v w. slot v < slot w) (votes vs)"
    using ok by (simp add: tower_ok_def tower_list_sorted)
  moreover have "process_next_vote_slot vs s ep =
    (if root_slot vs \<noteq> root_slot (process_next_vote_slot vs s ep) then increment_credits vs ep else vs)
      \<lparr>root_slot := root_slot (process_next_vote_slot vs s ep),
       votes := votes (process_next_vote_slot vs s ep)\<rparr>"
    using root_changes [OF ok, of s ep] new
    by (subst process_next_state [OF new]) (simp add: eq_commute [of "root_slot vs"])
  ultimately show ?thesis
    using step_accepted [OF assms, of ep] by (simp add: process_new_vote_state_accepts)
qed

section \<open>What a vote leaves\<close>

lemma sorted_le_last: "sorted xs \<Longrightarrow> x \<in> set xs \<Longrightarrow> x \<le> last xs"
  by (induction xs) auto

lemma last_voted_process_next:
  "last_voted_slot (process_next_vote_slot vs s ep) =
     (if newer (last_voted_slot vs) s then Some s else last_voted_slot vs)"
proof (cases "is_new_vote vs s")
  case True
  have "length (votes (process_next_vote_slot vs s ep)) \<noteq> 0"
    unfolding process_next_votes(1) [OF True] by simp
  then have ne: "votes (process_next_vote_slot vs s ep) \<noteq> []" by simp
  have "last (map slot (votes (process_next_vote_slot vs s ep))) = s"
    unfolding process_next_votes(1) [OF True] slots_doubled by (simp add: lockout_new_def)
  then show ?thesis
    using ne True by (simp add: last_map last_voted_slot_def last_lockout_def is_new_vote_def newer_def)
qed (simp add: process_next_old is_new_vote_def newer_def)

lemma last_voted_fold:
  "sorted xs \<Longrightarrow> xs \<noteq> [] \<Longrightarrow> newer (last_voted_slot vs) (last xs) \<or> last_voted_slot vs = Some (last xs) \<Longrightarrow>
     last_voted_slot (fold (\<lambda>s st. process_next_vote_slot st s ep) xs vs) = Some (last xs)"
proof (induction xs arbitrary: vs)
  case (Cons x xs)
  show ?case
  proof (cases "xs = []")
    case True
    with Cons.prems show ?thesis by (auto simp: last_voted_process_next)
  next
    case False
    then have "x \<le> last xs" using Cons.prems(1) by simp
    then have "newer (Some x) (last xs) \<or> x = last xs" by (auto simp: newer_def)
    then have "newer (last_voted_slot (process_next_vote_slot vs x ep)) (last xs)
        \<or> last_voted_slot (process_next_vote_slot vs x ep) = Some (last xs)"
      using Cons.prems(3) False by (auto simp: last_voted_process_next)
    then show ?thesis using Cons False by simp
  qed
qed simp

lemma check_slots_newer:
  assumes "check_slots_are_valid vs v sh = Inr ()"
  obtains x where "x \<in> set (vote_slots v)" and "newer (last_voted_slot vs) x"
proof -
  have "snd (check_slots_loop (last_voted_slot vs) (vote_slots v) sh 0 (length sh)) \<noteq> length sh"
    using assms by (auto simp: check_slots_are_valid_def split: prod.splits if_splits)
  then have "filter (newer (last_voted_slot vs)) (vote_slots v) \<noteq> []"
    using loop_untouched [of 0 "vote_slots v" "last_voted_slot vs" sh "length sh"] by simp
  then show thesis using that by (auto simp: filter_empty_conv)
qed

lemma process_vote_last_voted:
  assumes "process_vote vs v sh ep = Inr vs'" and "sorted (vote_slots v)"
  shows "last_voted_slot vs' = Some (last (vote_slots v))"
proof -
  from assms(1) have ne: "vote_slots v \<noteq> []" and c: "check_slots_are_valid vs v sh = Inr ()"
    and vs': "vs' = fold (\<lambda>s st. process_next_vote_slot st s ep) (vote_slots v) vs"
    by (auto simp: process_vote_def result_simps split: if_splits)
  from c obtain x where x: "x \<in> set (vote_slots v)" "newer (last_voted_slot vs) x"
    by (rule check_slots_newer)
  then have "x \<le> last (vote_slots v)" using assms(2) by (intro sorted_le_last)
  then have "newer (last_voted_slot vs) (last (vote_slots v))" using x(2) by (rule newer_mono [rotated])
  then show ?thesis unfolding vs' using assms(2) ne by (intro last_voted_fold) auto
qed

section \<open>Properties\<close>

text \<open>
  C17: \<open>check_slots_are_valid\<close> accepts a vote exactly when it has slots above the last voted one,
  those slots occur in order among the bank's slot hashes, and its hash is the bank's hash of its
  last slot.
\<close>

theorem check_slots_decides:
  assumes "sorted (vote_slots v)" and "distinct (map fst slot_hashes)"
  shows "check_slots_are_valid vs v slot_hashes = Inr () \<longleftrightarrow>
    (let new = filter (newer (last_voted_slot vs)) (vote_slots v)
     in new \<noteq> [] \<and> subseq new (rev (map fst slot_hashes))
        \<and> map_of slot_hashes (last new) = Some (vote_hash v))"
  unfolding Let_def by (rule check_slots_iff [OF assms])

theorem check_slots_decides_witness:
  "check_slots_are_valid vote_state_default (vote_new [2, 4] 9) [(4, 9), (3, 8), (2, 7)] = Inr ()"
  using check_slots_decides [of "vote_new [2, 4] 9" "[(4, 9), (3, 8), (2, 7)]" vote_state_default]
  by (simp add: vote_new_def vote_state_default_def last_voted_slot_def last_lockout_def newer_def)



text \<open>
  C15: voting on one more slot is a special case of proposing a whole tower: the tower that
  \<open>process_next_vote_slot\<close> builds is accepted by \<open>process_new_vote_state\<close> and gives the very same
  state, credits included (slots far enough below the largest 64-bit number that lockouts do not
  wrap around).
\<close>

theorem single_vote_refines_tower:
  assumes "tower_ok vs" and "is_new_vote vs s" and "unat s + 2 ^ 31 < 2 ^ 64"
  shows "process_new_vote_state vs (votes (process_next_vote_slot vs s ep))
    (root_slot (process_next_vote_slot vs s ep)) None ep = Inr (process_next_vote_slot vs s ep)"
  by (rule step_as_new_state [OF assms])

theorem single_vote_refines_tower_witness:
  "process_new_vote_state example_tower (votes (process_next_vote_slot example_tower 6 0))
    (root_slot (process_next_vote_slot example_tower 6 0)) None 0
   = Inr (process_next_vote_slot example_tower 6 0)"
  by (rule single_vote_refines_tower [OF example_tower_ok])
    (simp_all add: is_new_vote_def example_tower_def last_voted_slot_def last_lockout_def)

text \<open>
  An accepted vote with ascending slots is on record afterwards: the last slot of the vote is
  the last voted slot of the state.
\<close>

lemma vote_is_recorded:
  assumes "process_vote vs v slot_hashes ep = Inr vs'" and "sorted (vote_slots v)"
  shows "last_voted_slot vs' = Some (last (vote_slots v))"
  by (rule process_vote_last_voted [OF assms])

end
