(* ===== verification/Vote_Credits.thy ===== *)
theory Vote_Credits
  imports Vote_Tower
begin

text \<open>
  The parts of a vote state beside the tower: the credit ledger, the commission, the voter
  authorized for an epoch and the history of prior voters, and the timestamp.
\<close>

section \<open>Credits\<close>

text \<open>
  Entries are \<open>(epoch, credits, prev_credits)\<close>: epochs increase and each entry starts with the
  credits the one before it ended with.
\<close>

definition ledger_next :: "u64 \<times> u64 \<times> u64 \<Rightarrow> u64 \<times> u64 \<times> u64 \<Rightarrow> bool" where
  "ledger_next x y \<longleftrightarrow> fst x < fst y \<and> snd (snd y) = fst (snd x)"

definition credits_ok :: "(u64 \<times> u64 \<times> u64) list \<Rightarrow> bool" where
  "credits_ok ec \<longleftrightarrow> length ec \<le> MAX_EPOCH_CREDITS_HISTORY
     \<and> successively ledger_next ec"

lemma successively_change_last:
  assumes "successively P xs" and "xs \<noteq> []" and "\<And>x. P x (last xs) \<Longrightarrow> P x y"
  shows "successively P (butlast xs @ [y])"
proof -
  have "successively P (butlast xs @ [last xs])" using assms(1,2) by simp
  then show ?thesis using assms(3) by (cases "butlast xs = []") (auto simp: successively_append_iff)
qed

lemma successively_tl: "successively P xs \<Longrightarrow> successively P (tl xs)"
  by (cases xs) (auto simp: successively_Cons)

text \<open>The ledger before the final increment.\<close>

definition ledger_for :: "(u64 \<times> u64 \<times> u64) list \<Rightarrow> u64 \<Rightarrow> (u64 \<times> u64 \<times> u64) list" where
  "ledger_for ec ep =
     (if ec = [] then [(ep, 0, 0)]
      else if ep \<noteq> fst (last ec) then
        (let (_, cr, prev_credits) = last ec;
             ec2 = (if cr \<noteq> prev_credits then ec @ [(ep, cr, cr)]
                    else butlast ec @ [(ep, cr, prev_credits)])
         in if length ec2 > MAX_EPOCH_CREDITS_HISTORY then tl ec2 else ec2)
      else ec)"

lemma increment_credits_ledger:
  "epoch_credits (increment_credits vs ep) =
     (let ec = ledger_for (epoch_credits vs) ep
      in butlast ec @ [(fst (last ec), fst (snd (last ec)) + 1, snd (snd (last ec)))])"
  by (simp add: increment_credits_def ledger_for_def Let_def case_prod_unfold)

lemma last_tl_long:
  "length xs > MAX_EPOCH_CREDITS_HISTORY \<Longrightarrow> tl xs \<noteq> [] \<and> last (tl xs) = last xs"
  by (cases xs; cases "tl xs") (auto simp: MAX_EPOCH_CREDITS_HISTORY_def)

lemma ledger_for_last:
  "ledger_for ec ep \<noteq> [] \<and> fst (last (ledger_for ec ep)) = ep
     \<and> fst (snd (last (ledger_for ec ep))) = (if ec = [] then 0 else fst (snd (last ec)))"
proof (cases "ec = [] \<or> ep = fst (last ec)")
  case True
  then show ?thesis by (auto simp: ledger_for_def)
next
  case False
  obtain e cr prev where l: "last ec = (e, cr, prev)" by (cases "last ec")
  define ec2 where "ec2 = (if cr \<noteq> prev then ec @ [(ep, cr, cr)] else butlast ec @ [(ep, cr, prev)])"
  have "ec2 \<noteq> []" "fst (last ec2) = ep" "fst (snd (last ec2)) = cr" by (auto simp: ec2_def)
  moreover have "ledger_for ec ep = (if length ec2 > MAX_EPOCH_CREDITS_HISTORY then tl ec2 else ec2)"
    using False l by (simp add: ledger_for_def ec2_def Let_def)
  ultimately show ?thesis using last_tl_long [of ec2] False l by simp
qed

lemma credits_ok_ledger_for:
  assumes ok: "credits_ok ec" and ep: "ec \<noteq> [] \<Longrightarrow> fst (last ec) \<le> ep"
  shows "credits_ok (ledger_for ec ep)"
proof (cases "ec = [] \<or> ep = fst (last ec)")
  case True
  then show ?thesis using ok by (auto simp: ledger_for_def credits_ok_def MAX_EPOCH_CREDITS_HISTORY_def)
next
  case False
  then have ne: "ec \<noteq> []" and lt: "fst (last ec) < ep" using ep by auto
  obtain e cr prev where l: "last ec = (e, cr, prev)" by (cases "last ec")
  define ec2 where "ec2 = (if cr \<noteq> prev then ec @ [(ep, cr, cr)] else butlast ec @ [(ep, cr, prev)])"
  have "ledger_next x (ep, cr, prev)" if "ledger_next x (last ec)" for x
    using that lt l by (auto simp: ledger_next_def intro: order_less_trans)
  then have "successively ledger_next (butlast ec @ [(ep, cr, prev)])"
    using ok ne by (intro successively_change_last) (auto simp: credits_ok_def)
  moreover have "successively ledger_next (ec @ [(ep, cr, cr)])"
    using ok lt l by (auto simp: credits_ok_def successively_append_iff ledger_next_def)
  ultimately have "successively ledger_next ec2" by (auto simp: ec2_def)
  moreover have "length ec2 \<le> Suc MAX_EPOCH_CREDITS_HISTORY"
    using ok by (auto simp: ec2_def credits_ok_def)
  ultimately show ?thesis
    using False l successively_tl [of ledger_next ec2]
    by (auto simp: ledger_for_def credits_ok_def ec2_def Let_def)
qed

lemma credits_ok_increment:
  assumes "credits_ok (epoch_credits vs)" and "current_epoch vs \<le> ep"
  shows "credits_ok (epoch_credits (increment_credits vs ep))"
    and "current_epoch (increment_credits vs ep) = ep"
proof -
  let ?ec = "ledger_for (epoch_credits vs) ep"
  have ok: "credits_ok ?ec" using assms by (intro credits_ok_ledger_for) (auto simp: current_epoch_def)
  have ne: "?ec \<noteq> []" "fst (last ?ec) = ep" using ledger_for_last by auto
  show "current_epoch (increment_credits vs ep) = ep"
    using ne by (simp add: current_epoch_def increment_credits_ledger Let_def)
  show "credits_ok (epoch_credits (increment_credits vs ep))"
    using ok ne(1) unfolding increment_credits_ledger credits_ok_def Let_def
    by (auto intro!: successively_change_last simp: ledger_next_def)
qed

section \<open>Commission\<close>

lemma commission_split_exact:
  "commission_split vs on = (mine, theirs, was_split) \<Longrightarrow>
     unat mine = unat on * min (unat (commission vs)) 100 div 100
     \<and> unat theirs = unat on * (100 - min (unat (commission vs)) 100) div 100"
proof -
  assume r: "commission_split vs on = (mine, theirs, was_split)"
  let ?s = "min (commission vs) 100"
  have s: "unat ?s = min (unat (commission vs)) 100" "?s \<le> 100"
    by (auto simp: min_def word_le_nat_alt)
  have prod: "unat (ucast (ucast on * ucast (q :: u8) div 100 :: u128) :: u64) = unat on * unat q div 100"
    if "unat q \<le> 100" for q
  proof -
    have o64: "unat (ucast on :: u128) = unat on" "unat (ucast q :: u128) = unat q"
      by (simp_all add: unat_ucast_wider)
    have "unat on * unat q \<le> unat on * 100" using that by simp
    then have bound: "unat on * unat q div 100 \<le> unat on" by linarith
    have "unat on * unat q < 2 ^ 128"
      using \<open>unat on * unat q \<le> _\<close> by (rule le_less_trans) (use unat_less_exp [of on] in simp)
    then have "unat (ucast on * ucast q div 100 :: u128) = unat on * unat q div 100"
      using unat_mul_no_wrap [of "ucast on :: u128" "ucast q"] o64 by (simp add: unat_div)
    moreover have "unat on * unat q div 100 < 2 ^ 64"
      using bound unat_less_exp [of on] by simp
    ultimately show ?thesis by (simp add: unsigned_ucast_eq take_bit_nat_eq_self)
  qed
  consider "?s = 0" | "?s = 100" | "?s \<noteq> 0" "?s \<noteq> 100" by blast
  then show ?thesis
  proof cases
    case 1
    then have "min (unat (commission vs)) 100 = 0" using s(1) by simp
    then show ?thesis using r 1 by (auto simp: commission_split_def)
  next
    case 2
    then have "min (unat (commission vs)) 100 = 100" using s(1) by simp
    then show ?thesis using r 2 by (auto simp: commission_split_def)
  next
    case 3
    have "unat (100 - ?s) = 100 - unat ?s" using s(2) by (simp add: unat_sub_no_wrap)
    then show ?thesis
      using r 3 s prod [of ?s] prod [of "100 - ?s"]
      by (auto simp: commission_split_def Let_def)
  qed
qed

lemma floor_split:
  fixes n k :: nat
  assumes "k \<le> 100"
  shows "n * k div 100 + n * (100 - k) div 100 \<le> n" and "n \<le> n * k div 100 + n * (100 - k) div 100 + 1"
proof -
  have "n * k + n * (100 - k) = n * 100" using assms by (simp flip: add_mult_distrib2)
  then show "n * k div 100 + n * (100 - k) div 100 \<le> n"
    "n \<le> n * k div 100 + n * (100 - k) div 100 + 1" by linarith+
qed

section \<open>Timestamps and the history buffer\<close>

lemma process_timestamp_Inr:
  "process_timestamp vs s ts = Inr vs' \<longleftrightarrow>
     ts_slot (last_timestamp vs) \<le> s \<and> ts_timestamp (last_timestamp vs) \<le> ts
     \<and> (s = ts_slot (last_timestamp vs) \<longrightarrow> ts = ts_timestamp (last_timestamp vs) \<or> s = 0)
     \<and> vs' = vs\<lparr>last_timestamp := \<lparr>ts_slot = s, ts_timestamp = ts\<rparr>\<rparr>"
  by (cases "last_timestamp vs") (auto simp: process_timestamp_def Let_def not_less)

definition circ_buf_ok :: "'a circ_buf \<Rightarrow> bool" where
  "circ_buf_ok b \<longleftrightarrow> length (buf b) = MAX_ITEMS \<and> idx b < MAX_ITEMS"

lemma circ_buf_ok_default [simp]: "circ_buf_ok (circ_buf_default d)"
  by (simp add: circ_buf_ok_def circ_buf_default_def MAX_ITEMS_def)

lemma circ_buf_append_last:
  assumes "circ_buf_ok b"
  shows "circ_buf_ok (circ_buf_append b x)" and "circ_buf_last (circ_buf_append b x) = Inr (Some x)"
  using assms
  by (auto simp: circ_buf_ok_def circ_buf_append_def circ_buf_last_def Let_def MAX_ITEMS_def)

lemma circ_buf_last_ok: "circ_buf_ok b \<Longrightarrow> \<exists>l. circ_buf_last b = Inr l"
  by (simp add: circ_buf_ok_def circ_buf_last_def)

section \<open>Authorized voters\<close>

lemma get_and_update_Some:
  assumes ok: "btm_ok (authorized_voters vs)"
    and g: "get_authorized_voter (authorized_voters vs) cur = Some pk"
  obtains m where "get_and_update_authorized_voter vs cur = Inr (pk, vs\<lparr>authorized_voters := m\<rparr>)"
    and "btm_ok m" and "\<And>ep. cur \<le> ep \<Longrightarrow> get_authorized_voter m ep = get_authorized_voter (authorized_voters vs) ep"
    and "\<And>k. map_of m k = (if k < cur then None
           else ((map_of (authorized_voters vs))(cur \<mapsto> pk)) k)"
proof -
  from g obtain m1 where c:
    "get_and_cache_authorized_voter_for_epoch (authorized_voters vs) cur = Some (pk, m1)"
    by (auto simp: get_authorized_voter_def get_and_cache_authorized_voter_for_epoch_def)
  from cache_purge_preserves [OF ok c] obtain m2 where m2: "purge_authorized_voters m1 cur = Some m2"
    "btm_ok m2"
    "\<And>k. map_of m2 k = (if k < cur then None else ((map_of (authorized_voters vs))(cur \<mapsto> pk)) k)"
    "\<And>ep. cur \<le> ep \<Longrightarrow> get_authorized_voter m2 ep = get_authorized_voter (authorized_voters vs) ep"
    by metis
  have "get_and_update_authorized_voter vs cur = Inr (pk, vs\<lparr>authorized_voters := m2\<rparr>)"
    using c m2(1) by (simp add: get_and_update_authorized_voter_def)
  with m2 show thesis using that by blast
qed

lemma get_and_update_None:
  "get_authorized_voter (authorized_voters vs) cur = None \<Longrightarrow>
     get_and_update_authorized_voter vs cur = Inl InvalidAccountData"
  by (simp add: get_authorized_voter_def get_and_update_authorized_voter_def
      get_and_cache_authorized_voter_for_epoch_def)

lemma get_and_update_cases:
  assumes "btm_ok (authorized_voters vs)"
  obtains (none) "get_authorized_voter (authorized_voters vs) cur = None"
      "get_and_update_authorized_voter vs cur = Inl InvalidAccountData"
    | (some) pk m where "get_authorized_voter (authorized_voters vs) cur = Some pk"
      "get_and_update_authorized_voter vs cur = Inr (pk, vs\<lparr>authorized_voters := m\<rparr>)" "btm_ok m"
      "\<And>ep. cur \<le> ep \<Longrightarrow> get_authorized_voter m ep = get_authorized_voter (authorized_voters vs) ep"
      "\<And>k. map_of m k = (if k < cur then None
           else ((map_of (authorized_voters vs))(cur \<mapsto> pk)) k)"
proof (cases "get_authorized_voter (authorized_voters vs) cur")
  case None
  then show thesis using none by (simp add: get_and_update_None)
next
  case (Some pk)
  from get_and_update_Some [OF assms this] show thesis using Some some by metis
qed

text \<open>Inserting after every stored epoch changes the voter from that epoch on and no earlier one.\<close>

lemma get_authorized_voter_insert_after:
  assumes ok: "btm_ok m" and after: "\<And>k. map_of m k \<noteq> None \<Longrightarrow> k < t"
  shows "get_authorized_voter (btm_insert t pk m) ep =
    (if t \<le> ep then Some pk else get_authorized_voter m ep)"
proof -
  have ok': "btm_ok (btm_insert t pk m)" using ok by (rule btm.invar_insert)
  have map: "map_of (btm_insert t pk m) = (map_of m)(t \<mapsto> pk)"
    by (rule map_of_btm_insert)
  show ?thesis
  proof (cases "t \<le> ep")
    case True
    have "k \<le> t" if "map_of (btm_insert t pk m) k \<noteq> None" for k
      using that after [of k] by (auto simp: map split: if_splits)
    then have "is_voter_at (btm_insert t pk m) ep pk"
      unfolding is_voter_at_def using True map by (intro exI [of _ t]) auto
    then show ?thesis using True get_authorized_voter_iff [OF ok'] by simp
  next
    case False
    then have "map_of (btm_insert t pk m) k = map_of m k" if "k \<le> ep" for k
      using that by (auto simp: map)
    then have "is_voter_at (btm_insert t pk m) ep q \<longleftrightarrow> is_voter_at m ep q" for q
      unfolding is_voter_at_def by (metis (mono_tags))
    then have "get_authorized_voter (btm_insert t pk m) ep = Some q \<longleftrightarrow> get_authorized_voter m ep = Some q"
      for q using get_authorized_voter_iff [OF ok] get_authorized_voter_iff [OF ok'] by simp
    then show ?thesis using False by (metis not_None_eq)
  qed
qed

text \<open>The state after a change of voter, without its history buffer.\<close>

lemma set_new_authorized_voter_shape:
  assumes ok: "btm_ok (authorized_voters vs)"
    and r: "set_new_authorized_voter vs pk cur target verify = Inr vs'"
  obtains voter m where "get_authorized_voter (authorized_voters vs) cur = Some voter"
    and "verify voter = Inr ()" and "map_of m target = None"
    and "get_and_update_authorized_voter vs cur = Inr (voter, vs\<lparr>authorized_voters := m\<rparr>)"
    and "vs' = vs\<lparr>prior_voters := prior_voters vs', authorized_voters := btm_insert target pk m\<rparr>"
  using ok
proof (cases rule: get_and_update_cases [where cur = cur])
  case none
  then show thesis using r by (simp add: set_new_authorized_voter_def)
next
  case (some voter m)
  have "map_of m target = None" "verify voter = Inr ()"
    and "vs' = vs\<lparr>prior_voters := prior_voters vs', authorized_voters := btm_insert target pk m\<rparr>"
    using r unfolding set_new_authorized_voter_def some(2)
    by (auto simp: result_simps authorized_voters_contains_def Let_def split: if_splits prod.splits)
  then show thesis using that some by blast
qed

lemma set_new_authorized_voter_voters:
  assumes ok: "btm_ok (authorized_voters vs)" and "cur \<le> target"
    and known: "\<And>k. map_of (authorized_voters vs) k \<noteq> None \<Longrightarrow> k \<le> target"
    and r: "set_new_authorized_voter vs pk cur target verify = Inr vs'" and "cur \<le> ep"
  shows "get_authorized_voter (authorized_voters vs') ep =
    (if target \<le> ep then Some pk else get_authorized_voter (authorized_voters vs) ep)"
  using ok r
proof (rule set_new_authorized_voter_shape)
  fix voter m
  assume g: "get_authorized_voter (authorized_voters vs) cur = Some voter"
    and t: "map_of m target = None"
    and u: "get_and_update_authorized_voter vs cur = Inr (voter, vs\<lparr>authorized_voters := m\<rparr>)"
    and vs': "vs' = vs\<lparr>prior_voters := prior_voters vs', authorized_voters := btm_insert target pk m\<rparr>"
  from get_and_update_Some [OF ok g] obtain m' where
    m': "get_and_update_authorized_voter vs cur = Inr (voter, vs\<lparr>authorized_voters := m'\<rparr>)"
      "btm_ok m'" "\<And>ep. cur \<le> ep \<Longrightarrow> get_authorized_voter m' ep = get_authorized_voter (authorized_voters vs) ep"
      "\<And>k. map_of m' k = (if k < cur then None else ((map_of (authorized_voters vs))(cur \<mapsto> voter)) k)"
    by metis
  from m'(1) u have "authorized_voters (vs\<lparr>authorized_voters := m'\<rparr>)
      = authorized_voters (vs\<lparr>authorized_voters := m\<rparr>)" by simp
  then have m: "m' = m" by simp
  have "k < target" if "map_of m k \<noteq> None" for k
  proof -
    have "k \<le> target" using that m'(4) [of k] known [of k] \<open>cur \<le> target\<close>
      by (auto simp: m split: if_splits)
    moreover have "k \<noteq> target" using that t by auto
    ultimately show ?thesis by simp
  qed
  then show ?thesis
    using get_authorized_voter_insert_after [of m target pk ep] m'(2,3) \<open>cur \<le> ep\<close>
    by (subst vs') (simp add: m)
qed

lemma set_new_authorized_voter_no_panic:
  assumes ok: "btm_ok (authorized_voters vs)" and "circ_buf_ok (prior_voters vs)" and "cur \<le> target"
    and known: "\<And>k. map_of (authorized_voters vs) k \<noteq> None \<Longrightarrow> k \<le> target"
    and verify: "\<And>k. verify k \<noteq> Inl Panicked"
  shows "set_new_authorized_voter vs pk cur target verify \<noteq> Inl Panicked"
  using ok
proof (cases rule: get_and_update_cases [where cur = cur])
  case none
  then show ?thesis by (simp add: set_new_authorized_voter_def)
next
  case (some voter m)
  have too_soon: "vote_error_into TooSoonToReauthorize \<noteq> Panicked"
    by (simp add: instruction_error_from_small)
  have "k < target" if "map_of m target = None" "btm_last m = Some (k, v)" for k v
  proof -
    have "m \<noteq> []" "last m = (k, v)" using that(2) by (auto simp: btm_last_def split: if_splits)
    then have "(k, v) \<in> set m" by (metis last_in_set)
    then have "map_of m k \<noteq> None" by (metis weak_map_of_SomeI option.distinct(1))
    then have "k \<le> target" using some(5) [of k] known [of k] \<open>cur \<le> target\<close> by (auto split: if_splits)
    moreover have "k \<noteq> target" using \<open>map_of m k \<noteq> None\<close> that(1) by auto
    ultimately show ?thesis by simp
  qed
  moreover obtain l where "circ_buf_last (prior_voters vs) = Inr l"
    using circ_buf_last_ok [OF assms(2)] by blast
  ultimately show ?thesis
    unfolding set_new_authorized_voter_def some(2) using too_soon verify
    by (auto simp: result_simps authorized_voters_contains_def authorized_voters_last_def Let_def
        split: if_splits prod.splits)
qed

section \<open>Properties\<close>

text \<open>
  The commission split is exact integer division of the reward by percent, for every reward
  and commission; the two parts never exceed the reward and at most one lamport is lost.
\<close>

lemma commission_split_bounds:
  assumes "commission_split vs on = (mine, theirs, was_split)"
  shows "unat mine = unat on * min (unat (commission vs)) 100 div 100
    \<and> unat theirs = unat on * (100 - min (unat (commission vs)) 100) div 100
    \<and> unat mine + unat theirs \<le> unat on \<and> unat on \<le> unat mine + unat theirs + 1"
  using commission_split_exact [OF assms] floor_split [of "min (unat (commission vs)) 100" "unat on"]
  by simp

text \<open>
  Crediting a vote keeps the ledger of epoch credits well formed when epochs do not go back:
  at most 64 entries with strictly increasing epochs, each starting from the credits of the one
  before; the total grows by one and the last entry is for the current epoch.
\<close>

lemma credit_ledger:
  assumes "credits_ok (epoch_credits vs)" and "current_epoch vs \<le> ep"
  shows "credits_ok (epoch_credits (increment_credits vs ep))
    \<and> current_epoch (increment_credits vs ep) = ep
    \<and> credits (increment_credits vs ep) = credits vs + 1"
  using credits_ok_increment [OF assms] credits_increment by blast

text \<open>
  Looking up the voter of the current epoch, which caches it and purges older epochs, returns
  the voter in force, leaves the voter of every epoch from the current one on as it was, and
  never trips the assertion that a voter remains; without a voter in force it is the documented
  error.
\<close>

lemma authorized_voter_update:
  assumes "btm_ok (authorized_voters vs)"
  shows "case get_authorized_voter (authorized_voters vs) cur of
      None \<Rightarrow> get_and_update_authorized_voter vs cur = Inl InvalidAccountData
    | Some pk \<Rightarrow> \<exists>m. get_and_update_authorized_voter vs cur = Inr (pk, vs\<lparr>authorized_voters := m\<rparr>)
        \<and> btm_ok m
        \<and> (\<forall>ep. cur \<le> ep \<longrightarrow> get_authorized_voter m ep = get_authorized_voter (authorized_voters vs) ep)
        \<and> (\<forall>k. map_of m k \<noteq> None \<longrightarrow> cur \<le> k)"
  using assms
proof (cases rule: get_and_update_cases [where cur = cur])
  case none
  then show ?thesis by simp
next
  case (some pk m)
  then show ?thesis by (auto intro!: exI [of _ m] simp: not_less split: if_splits)
qed

text \<open>
  C20: a successful change of the authorized voter gives every epoch from the target on to the new
  key and leaves the voters of the epochs before it alone, and the current voter passed the
  caller's verification.
\<close>

theorem set_new_authorized_voter_effect:
  assumes "btm_ok (authorized_voters vs)" and "cur \<le> target"
    and "\<forall>k. map_of (authorized_voters vs) k \<noteq> None \<longrightarrow> k \<le> target"
    and "set_new_authorized_voter vs pk cur target verify = Inr vs'" and "cur \<le> ep"
  shows "get_authorized_voter (authorized_voters vs') ep =
    (if target \<le> ep then Some pk else get_authorized_voter (authorized_voters vs) ep)
    \<and> (\<exists>voter. get_authorized_voter (authorized_voters vs) cur = Some voter \<and> verify voter = Inr ())"
  using set_new_authorized_voter_voters [OF assms(1,2) _ assms(4,5)] assms(3)
    set_new_authorized_voter_shape [OF assms(1,4)]
  by metis

theorem set_new_authorized_voter_effect_witness:
  "get_authorized_voter [(2, 11), (4, 44)] 3 = Some 11 \<and>
   (\<exists>voter. get_authorized_voter [(2, 11)] 2 = Some voter)"
proof -
  let ?vs = "vote_state_default\<lparr>authorized_voters := [(2, 11)]\<rparr>"
  have r: "set_new_authorized_voter ?vs 44 2 4 (\<lambda>_. Inr ()) =
      Inr (?vs\<lparr>prior_voters := circ_buf_append (prior_voters ?vs) (11, 0, 4),
               authorized_voters := [(2, 11), (4, 44)]\<rparr>)"
    by (simp add: set_new_authorized_voter_def get_and_update_authorized_voter_def
        get_and_cache_authorized_voter_for_epoch_def get_or_calculate_authorized_voter_for_epoch_def
        purge_authorized_voters_def btm_below_def authorized_voters_contains_def
        authorized_voters_last_def btm_last_def circ_buf_last_def vote_state_default_def
        circ_buf_default_def)
  show ?thesis
    using set_new_authorized_voter_effect [OF _ _ _ r, of 3]
    by (simp add: btm_ok_def get_authorized_voter_def get_or_calculate_authorized_voter_for_epoch_def
        btm_below_def btm_last_def)
qed

text \<open>
  Changing the authorized voter never panics: with a well-formed history buffer and no stored
  epoch beyond the target, neither the purge nor the assertion that the target lies after the
  latest entry can fail.
\<close>

lemma set_new_authorized_voter_never_panics:
  assumes "btm_ok (authorized_voters vs)" and "circ_buf_ok (prior_voters vs)" and "cur \<le> target"
    and "\<forall>k. map_of (authorized_voters vs) k \<noteq> None \<longrightarrow> k \<le> target"
    and "\<forall>k. verify k \<noteq> Inl Panicked"
  shows "set_new_authorized_voter vs pk cur target verify \<noteq> Inl Panicked"
  using set_new_authorized_voter_no_panic [OF assms(1-3)] assms(4,5) by blast

end
