(* ===== verification/Vote_Program.thy ===== *)
theory Vote_Program
  imports Vote_Checks Vote_Credits
begin

text \<open>
  The vote program on accounts: the versions of a stored vote state
  (\<open>vote_state_versions.rs\<close>, \<open>vote_state_0_23_5.rs\<close>), the account operations at the end of
  \<open>vote_state/mod.rs\<close>, and \<open>process_instruction\<close> of \<open>vote_instruction.rs\<close>.
\<close>

section \<open>Stored vote states\<close>

record 'a circ_buf_0_23_5 =
  old_buf :: "'a list"
  old_idx :: nat

record vote_state_0_23_5 =
  old_node_pubkey :: pubkey
  old_authorized_voter :: pubkey
  old_authorized_voter_epoch :: u64
  old_prior_voters :: "(pubkey \<times> u64 \<times> u64 \<times> u64) circ_buf_0_23_5"
  old_authorized_withdrawer :: pubkey
  old_commission :: u8
  old_votes :: "lockout list"
  old_root_slot :: "u64 option"
  old_epoch_credits :: "(u64 \<times> u64 \<times> u64) list"
  old_last_timestamp :: block_timestamp

datatype vote_state_versions =
    V0_23_5 vote_state_0_23_5
  | Current vote_state

text \<open>The stored types are countable, so they have a serialiser (\<open>unary_codec\<close>).\<close>

instance lockout_ext :: (countable) countable
  by (rule countable_classI [of "\<lambda>x. to_nat (slot x, confirmation_count x, lockout.more x)"]) simp

instance block_timestamp_ext :: (countable) countable
  by (rule countable_classI [of "\<lambda>x. to_nat (ts_slot x, ts_timestamp x, block_timestamp.more x)"]) simp

instance circ_buf_ext :: (countable, countable) countable
  by (rule countable_classI [of "\<lambda>x. to_nat (buf x, idx x, buf_is_empty x, circ_buf.more x)"]) simp

instance circ_buf_0_23_5_ext :: (countable, countable) countable
  by (rule countable_classI [of "\<lambda>x. to_nat (old_buf x, old_idx x, circ_buf_0_23_5.more x)"]) simp

instance vote_state_ext :: (countable) countable
  by (rule countable_classI [of "\<lambda>x. to_nat (node_pubkey x, authorized_withdrawer x, commission x,
        votes x, root_slot x, authorized_voters x, prior_voters x, epoch_credits x, last_timestamp x,
        vote_state.more x)"]) simp

instance vote_state_0_23_5_ext :: (countable) countable
  by (rule countable_classI [of "\<lambda>x. to_nat (old_node_pubkey x, old_authorized_voter x,
        old_authorized_voter_epoch x, old_prior_voters x, old_authorized_withdrawer x,
        old_commission x, old_votes x, old_root_slot x, old_epoch_credits x, old_last_timestamp x,
        vote_state_0_23_5.more x)"]) simp

instance vote_state_versions :: countable
  by countable_datatype

fun convert_to_current :: "vote_state_versions \<Rightarrow> vote_state" where
  "convert_to_current (V0_23_5 st) =
     \<lparr>node_pubkey = old_node_pubkey st,
      authorized_withdrawer = old_authorized_withdrawer st,
      commission = old_commission st,
      votes = old_votes st,
      root_slot = old_root_slot st,
      authorized_voters =
        authorized_voters_new (old_authorized_voter_epoch st) (old_authorized_voter st),
      prior_voters = circ_buf_default (pubkey_default, 0, 0),
      epoch_credits = old_epoch_credits st,
      last_timestamp = old_last_timestamp st\<rparr>"
| "convert_to_current (Current st) = st"

fun is_uninitialized :: "vote_state_versions \<Rightarrow> bool" where
  "is_uninitialized (V0_23_5 st) \<longleftrightarrow> old_authorized_voter st = pubkey_default"
| "is_uninitialized (Current st) \<longleftrightarrow> authorized_voters st = []"

text \<open>
  What the program takes from \<open>bincode\<close>: the encoding of the stored versions, the size of the
  largest vote state, and the decoders of instructions and of the clock account.
\<close>

datatype vote_instruction =
    InitializeAccount vote_init
  | Authorize pubkey vote_authorize
  | Vote vote
  | Withdraw u64
  | UpdateValidatorIdentity
  | UpdateCommission u8
  | VoteSwitch vote hash
  | AuthorizeChecked vote_authorize

record vote_codecs =
  versions_codec :: "vote_state_versions codec"
  vote_state_size_of :: nat
  vote_instruction_decode :: "u8 list \<Rightarrow> vote_instruction option"
  clock_codec :: "clock codec"

definition VERSION_OFFSET :: nat where
  "VERSION_OFFSET = 4"

definition DEFAULT_PRIOR_VOTERS_OFFSET :: nat where
  "DEFAULT_PRIOR_VOTERS_OFFSET = 82"

definition is_correct_size_and_initialized :: "vote_codecs \<Rightarrow> u8 list \<Rightarrow> bool" where
  "is_correct_size_and_initialized cs bytes \<longleftrightarrow>
     length bytes = vote_state_size_of cs
     \<and> take DEFAULT_PRIOR_VOTERS_OFFSET (drop VERSION_OFFSET bytes)
         \<noteq> replicate DEFAULT_PRIOR_VOTERS_OFFSET 0"

definition vote_state_deserialize :: "vote_codecs \<Rightarrow> u8 list \<Rightarrow> vote_state ix_result" where
  "vote_state_deserialize cs input =
     ok_or (map_option convert_to_current (deserialize (versions_codec cs) input)) InvalidAccountData"

definition credits_from :: "vote_codecs \<Rightarrow> account \<Rightarrow> u64 option" where
  "credits_from cs a =
     (case vote_state_deserialize cs (data a) of Inl _ \<Rightarrow> None | Inr vs \<Rightarrow> Some (credits vs))"

definition get_rent_exempt_reserve :: "vote_codecs \<Rightarrow> rent \<Rightarrow> u64" where
  "get_rent_exempt_reserve cs r = minimum_balance r (vote_state_size_of cs)"

text \<open>Reading the current state of a cell, and writing one back.\<close>

definition load_vote_state :: "vote_codecs \<Rightarrow> store \<Rightarrow> pubkey \<Rightarrow> vote_state ix_result" where
  "load_vote_state cs s k =
     bind_r (state (versions_codec cs) (s k)) (\<lambda>v. Inr (convert_to_current v))"

definition store_vote_state :: "vote_codecs \<Rightarrow> vote_state \<Rightarrow> pubkey \<Rightarrow> store \<Rightarrow> store ix_result" where
  "store_vote_state cs vs k s =
     bind_r (set_state (versions_codec cs) (Current vs) (s k)) (\<lambda>a. Inr (s(k := a)))"

section \<open>Account operations\<close>

definition verify_authorized_signer :: "pubkey \<Rightarrow> pubkey set \<Rightarrow> unit ix_result" where
  "verify_authorized_signer authorized signers =
     guard_r (authorized \<in> signers) MissingRequiredSignature"

definition authorize ::
  "vote_codecs \<Rightarrow> invoke_context \<Rightarrow> pubkey \<Rightarrow> pubkey \<Rightarrow> vote_authorize \<Rightarrow> pubkey set \<Rightarrow> clock \<Rightarrow> store
     \<Rightarrow> store ix_result" where
  "authorize cs ic me authorized what signers clk s =
     bind_r (load_vote_state cs s me) (\<lambda>vs.
     bind_r
       (case what of
          Voter \<Rightarrow>
            (let authorized_withdrawer_signer =
                   (if is_active ic vote_withdraw_authority_may_change_authorized_voter
                    then verify_authorized_signer (authorized_withdrawer vs) signers = Inr ()
                    else False)
             in set_new_authorized_voter vs authorized (clock_epoch clk)
                  (clock_leader_schedule_epoch clk + 1)
                  (\<lambda>epoch_authorized_voter.
                     if authorized_withdrawer_signer then Inr ()
                     else verify_authorized_signer epoch_authorized_voter signers))
        | Withdrawer \<Rightarrow>
            bind_r (verify_authorized_signer (authorized_withdrawer vs) signers) (\<lambda>_.
              Inr (vs\<lparr>authorized_withdrawer := authorized\<rparr>)))
       (\<lambda>vs'. store_vote_state cs vs' me s))"

definition update_validator_identity ::
  "vote_codecs \<Rightarrow> pubkey \<Rightarrow> pubkey \<Rightarrow> pubkey set \<Rightarrow> store \<Rightarrow> store ix_result" where
  "update_validator_identity cs me node signers s =
     bind_r (load_vote_state cs s me) (\<lambda>vs.
     bind_r (verify_authorized_signer (authorized_withdrawer vs) signers) (\<lambda>_.
     bind_r (verify_authorized_signer node signers) (\<lambda>_.
       store_vote_state cs (vs\<lparr>node_pubkey := node\<rparr>) me s)))"

definition update_commission ::
  "vote_codecs \<Rightarrow> pubkey \<Rightarrow> u8 \<Rightarrow> pubkey set \<Rightarrow> store \<Rightarrow> store ix_result" where
  "update_commission cs me comm signers s =
     bind_r (load_vote_state cs s me) (\<lambda>vs.
     bind_r (verify_authorized_signer (authorized_withdrawer vs) signers) (\<lambda>_.
       store_vote_state cs (vs\<lparr>commission := comm\<rparr>) me s))"

text \<open>\<open>clock.zip(epoch_credits.last())\<close>: credits in the current or the previous epoch.\<close>

definition reject_active_vote_account_close :: "clock option \<Rightarrow> vote_state \<Rightarrow> bool" where
  "reject_active_vote_account_close clk vs =
     (case clk of
        None \<Rightarrow> False
      | Some c \<Rightarrow>
          if epoch_credits vs = [] then False
          else saturating_sub (clock_epoch c) (fst (last (epoch_credits vs))) < 2)"

definition vote_withdraw ::
  "vote_codecs \<Rightarrow> pubkey \<Rightarrow> u64 \<Rightarrow> pubkey \<Rightarrow> pubkey set \<Rightarrow> rent option \<Rightarrow> clock option \<Rightarrow> store
     \<Rightarrow> store ix_result" where
  "vote_withdraw cs me amount to_key signers rent_sysvar clk s =
     bind_r (load_vote_state cs s me) (\<lambda>vs.
     bind_r (verify_authorized_signer (authorized_withdrawer vs) signers) (\<lambda>_.
     bind_r (ok_or (checked_sub (lamports (s me)) amount) InsufficientFunds) (\<lambda>remaining_balance.
     bind_r
       (if remaining_balance = 0 then
          if reject_active_vote_account_close clk vs then Inl ActiveVoteAccountClose
          else store_vote_state cs vote_state_default me s
        else
          case rent_sysvar of
            None \<Rightarrow> Inr s
          | Some r \<Rightarrow>
              if remaining_balance < minimum_balance r (length (data (s me)))
              then Inl InsufficientFunds else Inr s)
       (\<lambda>s1. move_lamports me to_key amount s1))))"

definition initialize_account ::
  "vote_codecs \<Rightarrow> pubkey \<Rightarrow> vote_init \<Rightarrow> pubkey set \<Rightarrow> clock \<Rightarrow> store \<Rightarrow> store ix_result" where
  "initialize_account cs me vi signers clk s =
     (if length (data (s me)) \<noteq> vote_state_size_of cs then Inl InvalidAccountData
      else
        bind_r (state (versions_codec cs) (s me)) (\<lambda>versioned.
        if \<not> is_uninitialized versioned then Inl AccountAlreadyInitialized
        else
          bind_r (verify_authorized_signer (init_node_pubkey vi) signers) (\<lambda>_.
            store_vote_state cs (vote_state_new vi clk) me s)))"

definition record_timestamp :: "vote_state \<Rightarrow> vote \<Rightarrow> (vote_error, vote_state) result" where
  "record_timestamp vs v =
     (case vote_timestamp v of
        None \<Rightarrow> Inr vs
      | Some ts \<Rightarrow>
          if vote_slots v = [] then Inl EmptySlots
          else process_timestamp vs (Max (set (vote_slots v))) ts)"

definition process_vote_account ::
  "vote_codecs \<Rightarrow> pubkey \<Rightarrow> slot_hashes \<Rightarrow> clock \<Rightarrow> vote \<Rightarrow> pubkey set \<Rightarrow> store \<Rightarrow> store ix_result" where
  "process_vote_account cs me hashes clk v signers s =
     bind_r (state (versions_codec cs) (s me)) (\<lambda>versioned.
     if is_uninitialized versioned then Inl UninitializedAccount
     else
       bind_r (get_and_update_authorized_voter (convert_to_current versioned) (clock_epoch clk))
         (\<lambda>(authorized_voter, vs).
       bind_r (verify_authorized_signer authorized_voter signers) (\<lambda>_.
       bind_r (map_err vote_error_into (process_vote vs v hashes (clock_epoch clk))) (\<lambda>vs1.
       bind_r (map_err vote_error_into (record_timestamp vs1 v)) (\<lambda>vs2.
         store_vote_state cs vs2 me s)))))"

section \<open>Instructions\<close>

definition verify_rent_exemption :: "store \<Rightarrow> pubkey \<Rightarrow> rent \<Rightarrow> unit ix_result" where
  "verify_rent_exemption s k r =
     (if \<not> is_exempt r (lamports (s k)) (length (data (s k))) then Inl InsufficientFunds else Inr ())"

definition checked_clock :: "keyed_account \<Rightarrow> invoke_context \<Rightarrow> clock ix_result" where
  "checked_clock ka ic = bind_r (check_sysvar_keyed_account clock_id ka) (\<lambda>_. get_clock ic)"

definition checked_rent :: "keyed_account \<Rightarrow> invoke_context \<Rightarrow> rent ix_result" where
  "checked_rent ka ic = bind_r (check_sysvar_keyed_account rent_id ka) (\<lambda>_. get_rent ic)"

definition checked_slot_hashes :: "keyed_account \<Rightarrow> invoke_context \<Rightarrow> slot_hashes ix_result" where
  "checked_slot_hashes ka ic =
     bind_r (check_sysvar_keyed_account slot_hashes_id ka) (\<lambda>_. get_slot_hashes ic)"

fun vote_instruction_step ::
  "vote_codecs \<Rightarrow> invoke_context \<Rightarrow> nat \<Rightarrow> pubkey \<Rightarrow> pubkey set \<Rightarrow> vote_instruction \<Rightarrow> store
     \<Rightarrow> store ix_result" where
  "vote_instruction_step cs ic first me signers (InitializeAccount vi) s =
     bind_r (keyed_account_at_index (keyed_accounts ic) (first + 1)) (\<lambda>ka1.
     bind_r (checked_rent ka1 ic) (\<lambda>r.
     bind_r (verify_rent_exemption s me r) (\<lambda>_.
     bind_r (keyed_account_at_index (keyed_accounts ic) (first + 2)) (\<lambda>ka2.
     bind_r (checked_clock ka2 ic) (\<lambda>clk.
       initialize_account cs me vi signers clk s)))))"
| "vote_instruction_step cs ic first me signers (Authorize voter what) s =
     bind_r (keyed_account_at_index (keyed_accounts ic) (first + 1)) (\<lambda>ka1.
     bind_r (checked_clock ka1 ic) (\<lambda>clk.
       authorize cs ic me voter what signers clk s))"
| "vote_instruction_step cs ic first me signers UpdateValidatorIdentity s =
     bind_r (keyed_account_at_index (keyed_accounts ic) (first + 1)) (\<lambda>ka1.
       update_validator_identity cs me (key ka1) signers s)"
| "vote_instruction_step cs ic first me signers (UpdateCommission comm) s =
     update_commission cs me comm signers s"
| "vote_instruction_step cs ic first me signers (Vote v) s =
     bind_r (keyed_account_at_index (keyed_accounts ic) (first + 1)) (\<lambda>ka1.
     bind_r (checked_slot_hashes ka1 ic) (\<lambda>hashes.
     bind_r (keyed_account_at_index (keyed_accounts ic) (first + 2)) (\<lambda>ka2.
     bind_r (checked_clock ka2 ic) (\<lambda>clk.
       process_vote_account cs me hashes clk v signers s))))"
| "vote_instruction_step cs ic first me signers (VoteSwitch v h) s =
     bind_r (keyed_account_at_index (keyed_accounts ic) (first + 1)) (\<lambda>ka1.
     bind_r (checked_slot_hashes ka1 ic) (\<lambda>hashes.
     bind_r (keyed_account_at_index (keyed_accounts ic) (first + 2)) (\<lambda>ka2.
     bind_r (checked_clock ka2 ic) (\<lambda>clk.
       process_vote_account cs me hashes clk v signers s))))"
| "vote_instruction_step cs ic first me signers (Withdraw amount) s =
     bind_r (keyed_account_at_index (keyed_accounts ic) (first + 1)) (\<lambda>to_ka.
     bind_r (if is_active ic reject_non_rent_exempt_vote_withdraws
             then bind_r (get_rent ic) (\<lambda>r. Inr (Some r)) else Inr None) (\<lambda>rent_sysvar.
     bind_r (if is_active ic reject_vote_account_close_unless_zero_credit_epoch
             then bind_r (get_clock ic) (\<lambda>c. Inr (Some c)) else Inr None) (\<lambda>clock_if_active.
       vote_withdraw cs me amount (key to_ka) signers rent_sysvar clock_if_active s)))"
| "vote_instruction_step cs ic first me signers (AuthorizeChecked what) s =
     (if is_active ic vote_stake_checked_instructions then
        bind_r (keyed_account_at_index (keyed_accounts ic) (first + 3)) (\<lambda>ka3.
        bind_r (ok_or (signer_key ka3) MissingRequiredSignature) (\<lambda>voter.
        bind_r (keyed_account_at_index (keyed_accounts ic) (first + 1)) (\<lambda>ka1.
        bind_r (from_keyed_account clock_id (clock_codec cs) s ka1) (\<lambda>clk.
          authorize cs ic me voter what signers clk s))))
      else Inl InvalidInstructionData)"

definition vote_process_instruction ::
  "vote_codecs \<Rightarrow> invoke_context \<Rightarrow> nat \<Rightarrow> u8 list \<Rightarrow> store \<Rightarrow> store ix_result" where
  "vote_process_instruction cs ic first bytes s =
     bind_r (keyed_account_at_index (keyed_accounts ic) first) (\<lambda>me.
     if owner (s (key me)) \<noteq> vote_program_id then Inl InvalidAccountOwner
     else
       (let signers = get_signers (drop first (keyed_accounts ic)) in
        bind_r (limited_deserialize (vote_instruction_decode cs) bytes) (\<lambda>ix.
          vote_instruction_step cs ic first (key me) signers ix s)))"

end
