(* ===== verification/Vote_Safety.thy ===== *)
theory Vote_Safety
  imports Vote_Program
begin

text \<open>
  What an instruction of the vote program can do to the account store. The relation
  \<open>vote_effect\<close> is the specification: who must have signed for which change. Every successful
  instruction is one of its cases; conservation of lamports, the invariant of stored vote states
  and the frame follow from the cases.
\<close>

inductive vote_effect ::
  "vote_codecs \<Rightarrow> pubkey set \<Rightarrow> pubkey set \<Rightarrow> pubkey \<Rightarrow> store \<Rightarrow> store \<Rightarrow> bool"
  for cs :: vote_codecs and keys :: "pubkey set" and signers :: "pubkey set" and me :: pubkey and s :: store
where
  initialized:
    "deserialize (versions_codec cs) (data (s me)) = Some v \<Longrightarrow> is_uninitialized v \<Longrightarrow>
     init_node_pubkey vi \<in> signers \<Longrightarrow>
     store_vote_state cs (vote_state_new vi clk) me s = Inr s' \<Longrightarrow> vote_effect cs keys signers me s s'"
| voted:
    "load_vote_state cs s me = Inr vs \<Longrightarrow>
     get_and_update_authorized_voter vs ep = Inr (voter, vs0) \<Longrightarrow> voter \<in> signers \<Longrightarrow>
     process_vote vs0 v hashes ep = Inr vs1 \<Longrightarrow> record_timestamp vs1 v = Inr vs2 \<Longrightarrow>
     store_vote_state cs vs2 me s = Inr s' \<Longrightarrow> vote_effect cs keys signers me s s'"
| voter_changed:
    "load_vote_state cs s me = Inr vs \<Longrightarrow>
     get_authorized_voter (authorized_voters vs) ep = Some voter \<Longrightarrow>
     voter \<in> signers \<or> authorized_withdrawer vs \<in> signers \<Longrightarrow>
     set_new_authorized_voter vs pk ep target verify = Inr vs' \<Longrightarrow>
     store_vote_state cs vs' me s = Inr s' \<Longrightarrow> vote_effect cs keys signers me s s'"
| administered:
    "load_vote_state cs s me = Inr vs \<Longrightarrow> authorized_withdrawer vs \<in> signers \<Longrightarrow>
     vs' = vs\<lparr>authorized_withdrawer := w\<rparr> \<or> vs' = vs\<lparr>commission := c\<rparr>
       \<or> (vs' = vs\<lparr>node_pubkey := n\<rparr> \<and> n \<in> signers) \<Longrightarrow>
     store_vote_state cs vs' me s = Inr s' \<Longrightarrow> vote_effect cs keys signers me s s'"
| withdrawn:
    "load_vote_state cs s me = Inr vs \<Longrightarrow> authorized_withdrawer vs \<in> signers \<Longrightarrow>
     amount \<noteq> lamports (s me) \<and> s1 = s
       \<or> amount = lamports (s me) \<and> store_vote_state cs vote_state_default me s = Inr s1 \<Longrightarrow>
     to_key \<in> keys \<Longrightarrow> move_lamports me to_key amount s1 = Inr s' \<Longrightarrow> vote_effect cs keys signers me s s'"

inductive_cases vote_effectE: "vote_effect cs keys signers me s s'"

lemma verify_authorized_signer_Inr [result_simps]:
  "verify_authorized_signer k signers = Inr u \<longleftrightarrow> k \<in> signers"
  by (simp add: verify_authorized_signer_def result_simps)

lemma get_and_update_voter:
  "get_and_update_authorized_voter vs ep = Inr (pk, vs') \<Longrightarrow>
     get_authorized_voter (authorized_voters vs) ep = Some pk"
  by (auto simp: get_and_update_authorized_voter_def result_simps get_authorized_voter_def
      get_and_cache_authorized_voter_for_epoch_def)

lemma set_new_authorized_voter_verified:
  assumes "set_new_authorized_voter vs pk ep target verify = Inr vs'"
  obtains voter where "get_authorized_voter (authorized_voters vs) ep = Some voter"
    and "verify voter = Inr ()"
proof -
  obtain voter vs1 where "get_and_update_authorized_voter vs ep = Inr (voter, vs1)"
    and "verify voter = Inr ()"
    using assms unfolding set_new_authorized_voter_def
    by (auto simp: bind_r_Inr split: prod.splits)
  then show thesis using that get_and_update_voter by blast
qed

lemma initialize_account_effect:
  "initialize_account cs me vi signers clk s = Inr s' \<Longrightarrow> vote_effect cs keys signers me s s'"
  unfolding initialize_account_def
  by (auto simp: result_simps split: if_splits intro: vote_effect.initialized)

lemma authorize_effect:
  assumes "authorize cs ic me pk what signers clk s = Inr s'"
  shows "vote_effect cs keys signers me s s'"
proof (cases what)
  case what: Voter
  let ?w = "\<lambda>vs. if is_active ic vote_withdraw_authority_may_change_authorized_voter
    then verify_authorized_signer (authorized_withdrawer vs) signers = Inr () else False"
  obtain vs vs' where vs: "load_vote_state cs s me = Inr vs"
    and set_new: "set_new_authorized_voter vs pk (clock_epoch clk) (clock_leader_schedule_epoch clk + 1)
        (\<lambda>voter. if ?w vs then Inr () else verify_authorized_signer voter signers) = Inr vs'"
    and st: "store_vote_state cs vs' me s = Inr s'"
    using assms unfolding authorize_def Let_def what vote_authorize.case
    by (elim bind_r_InrE) (rule that)
  obtain voter where v: "get_authorized_voter (authorized_voters vs) (clock_epoch clk) = Some voter"
    and ver: "(if ?w vs then Inr () else verify_authorized_signer voter signers) = Inr ()"
    using set_new by (rule set_new_authorized_voter_verified)
  from ver have sg: "voter \<in> signers \<or> authorized_withdrawer vs \<in> signers"
    by (auto simp: result_simps split: if_splits)
  show ?thesis by (rule vote_effect.voter_changed [OF vs v sg set_new st])
next
  case Withdrawer
  with assms obtain vs where vs: "load_vote_state cs s me = Inr vs" "authorized_withdrawer vs \<in> signers"
    "store_vote_state cs (vs\<lparr>authorized_withdrawer := pk\<rparr>) me s = Inr s'"
    unfolding authorize_def by (auto simp: result_simps)
  show ?thesis by (rule vote_effect.administered [OF vs(1,2) _ vs(3)]) blast
qed

lemma process_vote_account_effect:
  assumes "process_vote_account cs me hashes clk v signers s = Inr s'"
  shows "vote_effect cs keys signers me s s'"
proof -
  obtain versioned voter vs0 vs1 vs2 where
    "state (versions_codec cs) (s me) = Inr versioned"
    and u: "get_and_update_authorized_voter (convert_to_current versioned) (clock_epoch clk)
      = Inr (voter, vs0)" "voter \<in> signers"
      "process_vote vs0 v hashes (clock_epoch clk) = Inr vs1" "record_timestamp vs1 v = Inr vs2"
      "store_vote_state cs vs2 me s = Inr s'"
    using assms unfolding process_vote_account_def
    by (auto simp: result_simps split: if_splits prod.splits)
  then have "load_vote_state cs s me = Inr (convert_to_current versioned)"
    by (simp add: load_vote_state_def)
  then show ?thesis using u by (rule vote_effect.voted)
qed

lemma vote_withdraw_effect:
  assumes "vote_withdraw cs me amount to_key signers r clk s = Inr s'" and "to_key \<in> keys"
  shows "vote_effect cs keys signers me s s'"
proof -
  have zero: "lamports (s me) - amount = 0 \<longleftrightarrow> amount = lamports (s me)" by auto
  from assms obtain vs s1 where e: "load_vote_state cs s me = Inr vs" "authorized_withdrawer vs \<in> signers"
    "amount \<noteq> lamports (s me) \<and> s1 = s
       \<or> amount = lamports (s me) \<and> store_vote_state cs vote_state_default me s = Inr s1"
    "to_key \<in> keys" "move_lamports me to_key amount s1 = Inr s'"
    unfolding vote_withdraw_def
    by (auto simp: result_simps word_ops zero split: if_splits option.splits)
  then show ?thesis by (rule vote_effect.withdrawn)
qed

lemma vote_instruction_effect:
  assumes "vote_instruction_step cs ic first me signers ix s = Inr s'"
  shows "vote_effect cs (key ` set (keyed_accounts ic)) signers me s s'"
proof (cases ix)
  case (InitializeAccount vi)
  with assms show ?thesis by (auto simp: result_simps intro: initialize_account_effect)
next
  case (Authorize pk what)
  with assms show ?thesis by (auto simp: result_simps intro: authorize_effect)
next
  case (Vote v)
  with assms show ?thesis by (auto simp: result_simps intro: process_vote_account_effect)
next
  case (VoteSwitch v h)
  with assms show ?thesis by (auto simp: result_simps intro: process_vote_account_effect)
next
  case (Withdraw amount)
  with assms show ?thesis by (auto simp: result_simps intro: vote_withdraw_effect)
next
  case UpdateValidatorIdentity
  with assms obtain n vs where vs: "load_vote_state cs s me = Inr vs" "authorized_withdrawer vs \<in> signers"
    "store_vote_state cs (vs\<lparr>node_pubkey := n\<rparr>) me s = Inr s'" and "n \<in> signers"
    by (auto simp: result_simps update_validator_identity_def)
  then show ?thesis by (intro vote_effect.administered [OF vs(1,2) _ vs(3)]) blast
next
  case (UpdateCommission c)
  with assms obtain vs where vs: "load_vote_state cs s me = Inr vs" "authorized_withdrawer vs \<in> signers"
    "store_vote_state cs (vs\<lparr>commission := c\<rparr>) me s = Inr s'"
    by (auto simp: result_simps update_commission_def)
  show ?thesis by (rule vote_effect.administered [OF vs(1,2) _ vs(3)]) blast
next
  case (AuthorizeChecked what)
  with assms show ?thesis
    by (auto simp: result_simps split: if_splits intro: authorize_effect)
qed

lemma vote_process_instruction_effect:
  assumes "vote_process_instruction cs ic first bytes s = Inr s'"
  obtains "first < length (keyed_accounts ic)"
    and "owner (s (key (keyed_accounts ic ! first))) = vote_program_id"
    and "vote_effect cs (key ` set (keyed_accounts ic)) (get_signers (drop first (keyed_accounts ic)))
           (key (keyed_accounts ic ! first)) s s'"
  using assms unfolding vote_process_instruction_def Let_def
  by (auto simp: result_simps split: if_splits dest: vote_instruction_effect)

section \<open>Frame and conservation\<close>

lemma store_vote_state_Inr [result_simps]:
  "store_vote_state cs vs k s = Inr s' \<longleftrightarrow>
     (\<exists>a. set_state (versions_codec cs) (Current vs) (s k) = Inr a \<and> s' = s(k := a))"
  by (auto simp: store_vote_state_def bind_r_Inr)

lemma store_vote_state_frame:
  assumes "store_vote_state cs vs k s = Inr s'"
  shows "k' \<noteq> k \<Longrightarrow> s' k' = s k'" and "lamports (s' x) = lamports (s x)" and "owner (s' x) = owner (s x)"
    and "length (data (s' x)) = length (data (s x))"
  using assms set_state_frame unfolding store_vote_state_Inr by auto

lemma store_vote_state_total:
  assumes "store_vote_state cs vs k s = Inr s'"
  shows "total_lamports K s' = total_lamports K s"
  unfolding total_lamports_def using store_vote_state_frame(2) [OF assms] by simp

lemma vote_effect_total:
  assumes "vote_effect cs keys signers me s s'" and "finite K" "keys \<subseteq> K" "me \<in> K"
  shows "total_lamports K s' = total_lamports K s"
  using assms(1)
proof cases
  case (withdrawn vs amount s1 to_key)
  have "total_lamports K s' = total_lamports K s1"
    using move_lamports_total [OF withdrawn(5)] withdrawn(4) assms(2-4) by blast
  moreover have "total_lamports K s1 = total_lamports K s"
    using withdrawn(3) store_vote_state_total by auto
  ultimately show ?thesis by simp
qed (auto dest: store_vote_state_total)

lemma vote_effect_owner:
  assumes "vote_effect cs keys signers me s s'"
  shows "owner (s' k) = owner (s k)"
  using assms
proof cases
  case (withdrawn vs amount s1 to_key)
  then have "owner (s' k) = owner (s1 k)" by (intro move_lamports_frame)
  also have "\<dots> = owner (s k)" using withdrawn(3) store_vote_state_frame(3) by auto
  finally show ?thesis .
qed (auto dest: store_vote_state_frame(3))

section \<open>Stored vote states stay well formed\<close>

definition vote_state_ok :: "vote_state \<Rightarrow> bool" where
  "vote_state_ok vs \<longleftrightarrow> tower_ok vs \<and> btm_ok (authorized_voters vs) \<and> circ_buf_ok (prior_voters vs)
     \<and> length (epoch_credits vs) \<le> MAX_EPOCH_CREDITS_HISTORY"

definition vote_accounts_ok :: "vote_codecs \<Rightarrow> store \<Rightarrow> bool" where
  "vote_accounts_ok cs s \<longleftrightarrow>
     (\<forall>k v. owner (s k) = vote_program_id \<and> deserialize (versions_codec cs) (data (s k)) = Some v
        \<longrightarrow> vote_state_ok (convert_to_current v))"

lemma length_ledger_for:
  "length ec \<le> MAX_EPOCH_CREDITS_HISTORY \<Longrightarrow> length (ledger_for ec ep) \<le> MAX_EPOCH_CREDITS_HISTORY"
  by (auto simp: ledger_for_def Let_def case_prod_unfold MAX_EPOCH_CREDITS_HISTORY_def)

lemma length_increment_credits:
  "length (epoch_credits vs) \<le> MAX_EPOCH_CREDITS_HISTORY \<Longrightarrow>
     length (epoch_credits (increment_credits vs ep)) \<le> MAX_EPOCH_CREDITS_HISTORY"
  using length_ledger_for [of "epoch_credits vs" ep] ledger_for_last [of "epoch_credits vs" ep]
  by (simp add: increment_credits_ledger Let_def)

lemma vote_state_ok_step: "vote_state_ok vs \<Longrightarrow> vote_state_ok (process_next_vote_slot vs s ep)"
proof (cases "is_new_vote vs s")
  case True
  assume ok: "vote_state_ok vs"
  let ?vs' = "if full_after_pop vs s then increment_credits vs ep else vs"
  have "authorized_voters (process_next_vote_slot vs s ep) = authorized_voters ?vs'"
    "prior_voters (process_next_vote_slot vs s ep) = prior_voters ?vs'"
    "epoch_credits (process_next_vote_slot vs s ep) = epoch_credits ?vs'"
    by (subst process_next_state [OF True], simp)+
  with ok show ?thesis
    by (simp add: vote_state_ok_def tower_ok_step length_increment_credits)
qed (simp add: process_next_old)

interpretation vote_run: inv_machine "\<lambda>s vs. process_next_vote_slot vs s ep" vote_state_ok for ep
  by unfold_locales (rule vote_state_ok_step)

lemma process_vote_ok: "vote_state_ok vs \<Longrightarrow> process_vote vs v hashes ep = Inr vs' \<Longrightarrow> vote_state_ok vs'"
  by (auto simp: process_vote_def result_simps vote_run.run_inv split: if_splits)

lemma record_timestamp_ok:
  "vote_state_ok vs \<Longrightarrow> record_timestamp vs v = Inr vs' \<Longrightarrow> vote_state_ok vs'"
  by (auto simp: record_timestamp_def process_timestamp_Inr vote_state_ok_def
      split: option.splits if_splits)

lemma get_and_update_ok:
  assumes "vote_state_ok vs" and "get_and_update_authorized_voter vs ep = Inr (voter, vs')"
  shows "vote_state_ok vs'"
proof -
  from assms(1) have "btm_ok (authorized_voters vs)" by (simp add: vote_state_ok_def)
  then show ?thesis
    by (cases rule: get_and_update_cases [where cur = ep])
      (use assms in \<open>auto simp: vote_state_ok_def\<close>)
qed

lemma set_new_authorized_voter_ok:
  assumes ok: "vote_state_ok vs" and r: "set_new_authorized_voter vs pk ep target verify = Inr vs'"
  shows "vote_state_ok vs'"
proof -
  from r obtain voter vs1 where u: "get_and_update_authorized_voter vs ep = Inr (voter, vs1)"
    unfolding set_new_authorized_voter_def by (auto simp: bind_r_Inr)
  from get_and_update_ok [OF ok u] have "vote_state_ok vs1" .
  then show ?thesis
    using r unfolding set_new_authorized_voter_def u
    by (auto simp: result_simps Let_def vote_state_ok_def btm.invar_insert circ_buf_append_last(1)
        split: if_splits prod.splits)
qed

lemma vote_state_ok_default: "vote_state_ok vote_state_default"
  by (simp add: vote_state_ok_def tower_ok_def tower_list_ok_def vote_state_default_def
      MAX_LOCKOUT_HISTORY_def btm_ok_def)

lemma vote_state_ok_new: "vote_state_ok (vote_state_new vi clk)"
  using vote_state_ok_default
  by (simp add: vote_state_ok_def vote_state_new_def authorized_voters_new_def btm_ok_def)

lemma store_accounts_ok:
  assumes c: "codec_ok (versions_codec cs)" and ok: "vote_accounts_ok cs s" and vs: "vote_state_ok vs"
    and r: "store_vote_state cs vs k s = Inr s'"
  shows "vote_accounts_ok cs s'"
  unfolding vote_accounts_ok_def
proof (intro allI impI, elim conjE)
  fix k' v
  assume o: "owner (s' k') = vote_program_id" and d: "deserialize (versions_codec cs) (data (s' k')) = Some v"
  show "vote_state_ok (convert_to_current v)"
  proof (cases "k' = k")
    case True
    from r obtain a where "set_state (versions_codec cs) (Current vs) (s k) = Inr a" "s' = s(k := a)"
      unfolding store_vote_state_Inr by blast
    then have "deserialize (versions_codec cs) (data (s' k')) = Some (Current vs)"
      using set_state_reads_back [OF c] True by simp
    with d vs show ?thesis by auto
  next
    case False
    then show ?thesis
      using store_vote_state_frame(1) [OF r False] o d ok by (simp add: vote_accounts_ok_def)
  qed
qed

lemma load_vote_state_ok:
  "vote_accounts_ok cs s \<Longrightarrow> owner (s k) = vote_program_id \<Longrightarrow> load_vote_state cs s k = Inr vs \<Longrightarrow>
     vote_state_ok vs"
  by (auto simp: load_vote_state_def result_simps vote_accounts_ok_def)

lemma vote_effect_accounts_ok:
  assumes c: "codec_ok (versions_codec cs)" and ok: "vote_accounts_ok cs s"
    and o: "owner (s me) = vote_program_id" and e: "vote_effect cs keys signers me s s'"
  shows "vote_accounts_ok cs s'"
  using e
proof cases
  case (initialized v vi clk)
  show ?thesis by (rule store_accounts_ok [OF c ok vote_state_ok_new initialized(4)])
next
  case (voted vs ep voter vs0 v hashes vs1 vs2)
  have "vote_state_ok vs2"
    using load_vote_state_ok [OF ok o voted(1)] voted(2,4,5)
    by (metis get_and_update_ok process_vote_ok record_timestamp_ok)
  then show ?thesis using voted(6) by (rule store_accounts_ok [OF c ok])
next
  case (voter_changed vs ep voter pk target verify vs')
  then show ?thesis
    using load_vote_state_ok [OF ok o] by (metis c ok set_new_authorized_voter_ok store_accounts_ok)
next
  case (administered vs vs' w com n)
  have "vote_state_ok vs'" using load_vote_state_ok [OF ok o administered(1)] administered(3)
    by (auto simp: vote_state_ok_def)
  then show ?thesis using administered(4) by (rule store_accounts_ok [OF c ok])
next
  case (withdrawn vs amount s1 to_key)
  have "vote_accounts_ok cs s1"
    using withdrawn(3) ok store_accounts_ok [OF c ok vote_state_ok_default] by auto
  then show ?thesis
    using move_lamports_frame [OF withdrawn(5)] by (simp add: vote_accounts_ok_def)
qed

text \<open>
  The contract of the program towards the runtime, on every sequence of its instructions over one
  list of accounts.
\<close>

interpretation vote_ix_ok: fallible_machine
  "\<lambda>(first, bytes) s. vote_process_instruction cs ic first bytes s"
  "\<lambda>s. codec_ok (versions_codec cs) \<and> vote_accounts_ok cs s"
  "\<lambda>s s'. True"
  for cs ic
proof unfold_locales
  fix s s' e
  assume inv: "codec_ok (versions_codec cs) \<and> vote_accounts_ok cs s"
    and r: "(case e of (first, bytes) \<Rightarrow> vote_process_instruction cs ic first bytes) s = Inr s'"
  obtain first bytes where "e = (first, bytes)" by (cases e)
  with r have r: "vote_process_instruction cs ic first bytes s = Inr s'" by simp
  show "codec_ok (versions_codec cs) \<and> vote_accounts_ok cs s'"
    using r by (rule vote_process_instruction_effect) (use inv in \<open>blast intro: vote_effect_accounts_ok\<close>)
qed auto

interpretation vote_ix: fallible_machine
  "\<lambda>(first, bytes) s. vote_process_instruction cs ic first bytes s"
  "\<lambda>s. True"
  "\<lambda>s s'. (\<forall>K. finite K \<longrightarrow> key ` set (keyed_accounts ic) \<subseteq> K \<longrightarrow> total_lamports K s' = total_lamports K s)
     \<and> (\<forall>k. owner (s' k) = owner (s k))"
  for cs ic
proof unfold_locales
  fix s s' e
  assume r: "(case e of (first, bytes) \<Rightarrow> vote_process_instruction cs ic first bytes) s = Inr s'"
  obtain first bytes where "e = (first, bytes)" by (cases e)
  with r have r: "vote_process_instruction cs ic first bytes s = Inr s'" by simp
  show "(\<forall>K. finite K \<longrightarrow> key ` set (keyed_accounts ic) \<subseteq> K \<longrightarrow>
          total_lamports K s' = total_lamports K s) \<and> (\<forall>k. owner (s' k) = owner (s k))"
    using r
  proof (rule vote_process_instruction_effect)
    assume first: "first < length (keyed_accounts ic)"
      and e: "vote_effect cs (key ` set (keyed_accounts ic)) (get_signers (drop first (keyed_accounts ic)))
        (key (keyed_accounts ic ! first)) s s'"
    from first have "key (keyed_accounts ic ! first) \<in> key ` set (keyed_accounts ic)" by simp
    then show ?thesis using vote_effect_total [OF e] vote_effect_owner [OF e] by blast
  qed
qed auto

section \<open>A concrete vote account\<close>

text \<open>
  An account whose withdrawer is key 7, that signs for a change of commission, with the generic
  serialiser; the spare bytes hold the new state.
\<close>

definition example_codecs :: vote_codecs where
  "example_codecs = \<lparr>versions_codec = unary_codec, vote_state_size_of = 3731,
     vote_instruction_decode = (\<lambda>bytes. Some (UpdateCommission 5)),
     clock_codec = \<lparr>deserialize = (\<lambda>_. None), serialize = (\<lambda>_. [])\<rparr>\<rparr>"

definition example_vote_state :: vote_state where
  "example_vote_state = vote_state_default\<lparr>authorized_withdrawer := 7\<rparr>"

definition example_account :: account where
  "example_account = account_default\<lparr>owner := vote_program_id, lamports := 10,
     data := serialize unary_codec (Current example_vote_state)
       @ serialize unary_codec (Current (example_vote_state\<lparr>commission := 5\<rparr>))\<rparr>"

definition example_store :: store where
  "example_store = (\<lambda>_. account_default)(3 := example_account)"

definition example_context :: invoke_context where
  "example_context = \<lparr>keyed_accounts = [\<lparr>is_signer = False, is_writable = True, key = 3\<rparr>,
       \<lparr>is_signer = True, is_writable = False, key = 7\<rparr>],
     feature_set = {}, blockhash = 0, lamports_per_signature = 0, cached_clock = None,
     cached_rent = None, cached_slot_hashes = None\<rparr>"

lemma example_deserialize:
  "deserialize unary_codec (serialize unary_codec v @ rest) = Some v"
  by (rule codec_ok_unary [unfolded codec_ok_def, rule_format])

lemma example_run:
  "\<exists>a. vote_process_instruction example_codecs example_context 0 [] example_store
     = Inr (example_store(3 := a))"
proof -
  have "load_vote_state example_codecs example_store 3 = Inr example_vote_state"
    by (simp add: load_vote_state_def state_def example_codecs_def example_store_def
        example_account_def example_deserialize)
  moreover have "7 \<in> get_signers (keyed_accounts example_context)"
    by (simp add: mem_get_signers example_context_def)
  moreover have "\<exists>a. store_vote_state example_codecs (example_vote_state\<lparr>commission := 5\<rparr>) 3 example_store
      = Inr (example_store(3 := a))"
    by (simp add: store_vote_state_def set_state_def Let_def example_codecs_def example_store_def
        example_account_def) (rule exI, rule refl)
  moreover have "keyed_accounts example_context ! 0 = \<lparr>is_signer = False, is_writable = True, key = 3\<rparr>"
    "0 < length (keyed_accounts example_context)"
    by (simp_all add: example_context_def)
  moreover have "owner (example_store 3) = vote_program_id"
    "vote_instruction_decode example_codecs [] = Some (UpdateCommission 5)"
    "authorized_withdrawer example_vote_state = 7"
    by (simp_all add: example_store_def example_account_def example_codecs_def example_vote_state_def)
  ultimately show ?thesis
    by (simp add: vote_process_instruction_def keyed_account_at_index_def limited_deserialize_def
        update_commission_def verify_authorized_signer_def)
qed

lemma vote_program_id_nonzero: "vote_program_id \<noteq> 0"
  by (simp add: vote_program_id_numeral)

lemma example_accounts_ok: "vote_accounts_ok example_codecs example_store"
proof -
  have "vote_state_ok example_vote_state"
    using vote_state_ok_default by (simp add: vote_state_ok_def example_vote_state_def)
  then show ?thesis
    using vote_program_id_nonzero
    by (auto simp: vote_accounts_ok_def example_store_def example_account_def example_codecs_def
        account_default_def pubkey_default_def example_deserialize split: if_splits)
qed

definition withdraw_codecs :: vote_codecs where
  "withdraw_codecs = example_codecs\<lparr>vote_instruction_decode := \<lambda>bytes. Some (Withdraw 4)\<rparr>"

definition withdrawn_store :: store where
  "withdrawn_store = example_store(3 := example_account\<lparr>lamports := 6\<rparr>,
     7 := account_default\<lparr>lamports := 4\<rparr>)"

lemma example_withdraw:
  "vote_process_instruction withdraw_codecs example_context 0 [] example_store = Inr withdrawn_store"
proof -
  have load: "load_vote_state withdraw_codecs example_store 3 = Inr example_vote_state"
    by (simp add: load_vote_state_def state_def withdraw_codecs_def example_codecs_def
        example_store_def example_account_def example_deserialize)
  have sg: "7 \<in> get_signers (keyed_accounts example_context)"
    by (simp add: mem_get_signers example_context_def)
  have ka: "keyed_accounts example_context ! 0 = \<lparr>is_signer = False, is_writable = True, key = 3\<rparr>"
    "keyed_accounts example_context ! Suc 0 = \<lparr>is_signer = True, is_writable = False, key = 7\<rparr>"
    "length (keyed_accounts example_context) = 2"
    by (simp_all add: example_context_def)
  have l: "lamports (example_store 3) = 10" "owner (example_store 3) = vote_program_id"
    by (simp_all add: example_store_def example_account_def)
  have mv: "move_lamports 3 7 4 example_store = Inr withdrawn_store"
    by (simp add: move_lamports_distinct withdrawn_store_def example_store_def example_account_def
        account_default_def)
  have "vote_withdraw withdraw_codecs 3 4 7 (get_signers (keyed_accounts example_context)) None None
      example_store = Inr withdrawn_store"
    using load sg mv
    by (simp add: vote_withdraw_def verify_authorized_signer_def l checked_sub_def
        example_vote_state_def)
  then show ?thesis
    by (simp add: vote_process_instruction_def keyed_account_at_index_def limited_deserialize_def ka l
        withdraw_codecs_def is_active_def)
      (simp add: example_context_def)
qed

section \<open>Properties\<close>

text \<open>
  C3: every successful vote instruction is one of the permitted changes of a vote account, made
  with the permitted signatures: initialising an uninitialised account with the node's signature,
  voting with the signature of the epoch's authorized voter, changing the voter with the current
  voter's or the withdrawer's, changing withdrawer, commission or identity with the withdrawer's,
  and withdrawing with the withdrawer's.
\<close>

theorem vote_program_permissions:
  assumes "vote_process_instruction cs ic first bytes s = Inr s'"
  shows "first < length (keyed_accounts ic)
    \<and> owner (s (key (keyed_accounts ic ! first))) = vote_program_id
    \<and> vote_effect cs (key ` set (keyed_accounts ic)) (get_signers (drop first (keyed_accounts ic)))
        (key (keyed_accounts ic ! first)) s s'"
  using assms by (rule vote_process_instruction_effect) simp

theorem vote_program_permissions_witness:
  "vote_effect withdraw_codecs (key ` set (keyed_accounts example_context))
     (get_signers (drop 0 (keyed_accounts example_context)))
     (key (keyed_accounts example_context ! 0)) example_store withdrawn_store"
  using vote_program_permissions [OF example_withdraw] by blast

text \<open>
  C18: lamports leave an account through the vote program only from the vote account of the
  instruction, and only when its authorized withdrawer has signed.
\<close>

theorem vote_debit_needs_withdrawer:
  assumes "vote_process_instruction cs ic first bytes s = Inr s'"
    and "lamports (s' k) < lamports (s k)"
  shows "k = key (keyed_accounts ic ! first)
    \<and> (\<exists>vs. load_vote_state cs s k = Inr vs
         \<and> authorized_withdrawer vs \<in> get_signers (drop first (keyed_accounts ic)))"
  using assms(1)
proof (rule vote_process_instruction_effect)
  let ?me = "key (keyed_accounts ic ! first)" and ?sg = "get_signers (drop first (keyed_accounts ic))"
  assume "vote_effect cs (key ` set (keyed_accounts ic)) ?sg ?me s s'"
  then show ?thesis
  proof cases
    case (withdrawn vs amount s1 to_key)
    have same: "lamports (s1 x) = lamports (s x)" for x
      using withdrawn(3) store_vote_state_frame(2) by auto
    have "k = ?me"
    proof (rule ccontr)
      assume "k \<noteq> ?me"
      from move_lamports_mono [OF withdrawn(5) this] have "lamports (s k) \<le> lamports (s' k)"
        by (simp add: same)
      with assms(2) show False by simp
    qed
    with withdrawn(1,2) show ?thesis by blast
  qed (metis assms(2) less_irrefl store_vote_state_frame(2))+
qed

theorem vote_debit_needs_withdrawer_witness:
  "\<exists>vs. load_vote_state withdraw_codecs example_store 3 = Inr vs
     \<and> authorized_withdrawer vs \<in> get_signers (drop 0 (keyed_accounts example_context))"
proof -
  have "lamports (withdrawn_store 3) < lamports (example_store 3)"
    by (simp add: withdrawn_store_def example_store_def example_account_def)
  from vote_debit_needs_withdrawer [OF example_withdraw this] show ?thesis by blast
qed

text \<open>
  C5: a run of vote instructions over one list of accounts neither creates nor destroys lamports,
  even when the withdrawing and the receiving account are the same, and changes the owner of no
  account.
\<close>

theorem vote_run_conserves:
  assumes "run_r (\<lambda>(first, bytes) s. vote_process_instruction cs ic first bytes s) ixs s = Inr s'"
    and "finite K" and "key ` set (keyed_accounts ic) \<subseteq> K"
  shows "total_lamports K s' = total_lamports K s \<and> (\<forall>k. owner (s' k) = owner (s k))"
  using vote_ix.run_rel [OF TrueI assms(1)] assms(2,3) by blast

theorem vote_run_conserves_witness:
  "total_lamports {3, 7} withdrawn_store = total_lamports {3, 7} example_store
     \<and> (\<forall>k. owner (withdrawn_store k) = owner (example_store k))"
  by (rule vote_run_conserves [of withdraw_codecs example_context "[(0, [])]"])
    (use example_withdraw in simp, simp, simp add: example_context_def)

text \<open>
  C4: in every reachable store, every account of the vote program that holds a vote state holds a
  well-formed one: tower, map of authorized voters, history buffer and ledger of credits keep
  their invariants over any run of instructions (for a serialiser whose output reads back).
\<close>

theorem vote_run_invariant:
  assumes "codec_ok (versions_codec cs)" and "vote_accounts_ok cs s"
    and "run_r (\<lambda>(first, bytes) s. vote_process_instruction cs ic first bytes s) ixs s = Inr s'"
  shows "vote_accounts_ok cs s'"
  using vote_ix_ok.run_inv [OF _ assms(3)] assms(1,2) by blast

theorem vote_run_invariant_witness:
  "\<exists>a. vote_accounts_ok example_codecs (example_store(3 := a))"
proof -
  obtain a where a: "vote_process_instruction example_codecs example_context 0 [] example_store
     = Inr (example_store(3 := a))" using example_run by blast
  have "codec_ok (versions_codec example_codecs)" by (simp add: example_codecs_def codec_ok_unary)
  from vote_run_invariant [OF this example_accounts_ok, of example_context "[(0, [])]"] a
  show ?thesis by (intro exI [of _ a]) simp
qed

text \<open>
  With the rent sysvar at hand, a withdrawal either empties and deinitialises the vote account
  or leaves it rent exempt; it cannot be left in between.
\<close>

lemma withdraw_leaves_rent_exempt:
  assumes "vote_withdraw cs me amount to_key signers (Some r) clk s = Inr s'" and "me \<noteq> to_key"
  shows "lamports (s' me) = 0 \<or> is_exempt r (lamports (s' me)) (length (data (s' me)))"
proof -
  from assms(1) obtain s1 where mv: "move_lamports me to_key amount s1 = Inr s'"
    and l: "lamports (s1 me) = lamports (s me)" "length (data (s1 me)) = length (data (s me))"
    and ok: "lamports (s me) - amount = 0
      \<or> minimum_balance r (length (data (s me))) \<le> lamports (s me) - amount"
    unfolding vote_withdraw_def
    by (auto simp: bind_r_Inr ok_or_Inr word_ops not_less split: if_splits
        dest: store_vote_state_frame(2,4))
  from mv assms(2) have "s' me = (s1 me)\<lparr>lamports := lamports (s1 me) - amount\<rparr>"
    by (auto simp: move_lamports_distinct split: if_splits)
  with l ok show ?thesis by (auto simp: is_exempt_def)
qed

end
