(* ===== verification/Nonce.thy ===== *)
theory Nonce
  imports Invoke_Context
begin

text \<open>
  Durable nonces: the stored state (\<open>sdk/program/src/nonce/state\<close>), the errors of the system
  program (\<open>sdk/program/src/system_instruction.rs\<close>) and the operations on a nonce account
  (\<open>runtime/src/nonce_keyed_account.rs\<close>). SHA-256 (\<open>hashv\<close>) and the encoding of the stored
  versions are parameters.
\<close>

section \<open>Errors\<close>

datatype system_error =
    AccountAlreadyInUse | ResultWithNegativeLamports | InvalidProgramId | InvalidAccountDataLength
  | SystemMaxSeedLengthExceeded | AddressWithSeedMismatch | NonceNoRecentBlockhashes
  | NonceBlockhashNotExpired | NonceUnexpectedBlockhashValue

fun system_error_into :: "system_error \<Rightarrow> instruction_error" where
  "system_error_into AccountAlreadyInUse = instruction_error_from 0"
| "system_error_into ResultWithNegativeLamports = instruction_error_from 1"
| "system_error_into InvalidProgramId = instruction_error_from 2"
| "system_error_into InvalidAccountDataLength = instruction_error_from 3"
| "system_error_into SystemMaxSeedLengthExceeded = instruction_error_from 4"
| "system_error_into AddressWithSeedMismatch = instruction_error_from 5"
| "system_error_into NonceNoRecentBlockhashes = instruction_error_from 6"
| "system_error_into NonceBlockhashNotExpired = instruction_error_from 7"
| "system_error_into NonceUnexpectedBlockhashValue = instruction_error_from 8"

datatype nonce_error = NoRecentBlockhashes | NotExpired | UnexpectedValue | BadAccountState

text \<open>\<open>NonceErrorAdapter\<close> has the same variants in the same order.\<close>

fun nonce_error_into :: "nonce_error \<Rightarrow> instruction_error" where
  "nonce_error_into NoRecentBlockhashes = instruction_error_from 0"
| "nonce_error_into NotExpired = instruction_error_from 1"
| "nonce_error_into UnexpectedValue = instruction_error_from 2"
| "nonce_error_into BadAccountState = instruction_error_from 3"

fun nonce_to_instruction_error :: "nonce_error \<Rightarrow> bool \<Rightarrow> instruction_error" where
  "nonce_to_instruction_error e use_system_variant =
     (if use_system_variant then
        (case e of
           NoRecentBlockhashes \<Rightarrow> system_error_into NonceNoRecentBlockhashes
         | NotExpired \<Rightarrow> system_error_into NonceBlockhashNotExpired
         | UnexpectedValue \<Rightarrow> system_error_into NonceUnexpectedBlockhashValue
         | BadAccountState \<Rightarrow> InvalidAccountData)
      else nonce_error_into e)"

text \<open>\<open>decode_custom_error_to_enum\<close> is \<open>FromPrimitive::from_u32\<close>.\<close>

definition instruction_to_nonce_error :: "instruction_error \<Rightarrow> bool \<Rightarrow> nonce_error option" where
  "instruction_to_nonce_error e use_system_variant =
     (if use_system_variant then
        (case e of
           Custom d \<Rightarrow>
             if d = 6 then Some NoRecentBlockhashes
             else if d = 7 then Some NotExpired
             else if d = 8 then Some UnexpectedValue
             else None
         | InvalidAccountData \<Rightarrow> Some BadAccountState
         | _ \<Rightarrow> None)
      else
        (case e of
           Custom d \<Rightarrow>
             if d = 0 then Some NoRecentBlockhashes
             else if d = 1 then Some NotExpired
             else if d = 2 then Some UnexpectedValue
             else if d = 3 then Some BadAccountState
             else None
         | _ \<Rightarrow> None))"

section \<open>Stored nonces\<close>

record nonce_data =
  authority :: pubkey
  durable_nonce :: hash
  nonce_lamports_per_signature :: u64

definition nonce_data_new :: "pubkey \<Rightarrow> hash \<Rightarrow> u64 \<Rightarrow> nonce_data" where
  "nonce_data_new auth nonce fee =
     \<lparr>authority = auth, durable_nonce = nonce, nonce_lamports_per_signature = fee\<rparr>"

datatype nonce_state = NonceUninitialized | NonceInitialized nonce_data

datatype nonce_versions = NonceLegacy nonce_state | NonceCurrent nonce_state

instance nonce_data_ext :: (countable) countable
  by (rule countable_classI [of "\<lambda>x. to_nat (authority x, durable_nonce x,
        nonce_lamports_per_signature x, nonce_data.more x)"]) simp

instance nonce_state :: countable
  by countable_datatype

instance nonce_versions :: countable
  by countable_datatype

definition DURABLE_NONCE_HASH_PREFIX :: "u8 list" where
  "DURABLE_NONCE_HASH_PREFIX = map (\<lambda>c. of_nat (of_char c)) ''DURABLE_NONCE''"

definition from_blockhash :: "(u8 list list \<Rightarrow> hash) \<Rightarrow> hash \<Rightarrow> bool \<Rightarrow> hash" where
  "from_blockhash hashv h separate_domains =
     (if separate_domains then hashv [DURABLE_NONCE_HASH_PREFIX, bytes_of h] else h)"

definition nonce_versions_new :: "nonce_state \<Rightarrow> bool \<Rightarrow> nonce_versions" where
  "nonce_versions_new st separate = (if separate then NonceCurrent st else NonceLegacy st)"

fun nonce_versions_state :: "nonce_versions \<Rightarrow> nonce_state" where
  "nonce_versions_state (NonceLegacy st) = st"
| "nonce_versions_state (NonceCurrent st) = st"

fun separate_domains :: "nonce_versions \<Rightarrow> bool" where
  "separate_domains (NonceLegacy _) = False"
| "separate_domains (NonceCurrent _) = True"

definition verify_recent_blockhash :: "nonce_versions \<Rightarrow> hash \<Rightarrow> bool \<Rightarrow> nonce_data option" where
  "verify_recent_blockhash v recent separate =
     (case v of
        NonceLegacy st \<Rightarrow>
          if separate then None
          else (case st of NonceUninitialized \<Rightarrow> None
                | NonceInitialized d \<Rightarrow> if recent = durable_nonce d then Some d else None)
      | NonceCurrent st \<Rightarrow>
          (case st of NonceUninitialized \<Rightarrow> None
           | NonceInitialized d \<Rightarrow> if recent = durable_nonce d then Some d else None))"

fun upgrade :: "(u8 list list \<Rightarrow> hash) \<Rightarrow> nonce_versions \<Rightarrow> nonce_versions option" where
  "upgrade hashv (NonceLegacy NonceUninitialized) = None"
| "upgrade hashv (NonceLegacy (NonceInitialized d)) =
     Some (NonceCurrent (NonceInitialized
       (d\<lparr>durable_nonce := from_blockhash hashv (durable_nonce d) True\<rparr>)))"
| "upgrade hashv (NonceCurrent _) = None"

section \<open>Operations on a nonce account\<close>

definition get_durable_nonce :: "(u8 list list \<Rightarrow> hash) \<Rightarrow> invoke_context \<Rightarrow> hash \<times> bool" where
  "get_durable_nonce hashv ic =
     (let separate = is_active ic separate_nonce_from_blockhash
      in (from_blockhash hashv (blockhash ic) separate, separate))"

definition store_nonce :: "nonce_versions codec \<Rightarrow> nonce_versions \<Rightarrow> pubkey \<Rightarrow> store \<Rightarrow> store ix_result" where
  "store_nonce c v k s = bind_r (set_state c v (s k)) (\<lambda>a. Inr (s(k := a)))"

definition check_nonce_writable :: "invoke_context \<Rightarrow> keyed_account \<Rightarrow> unit ix_result" where
  "check_nonce_writable ic ka =
     (if is_active ic nonce_must_be_writable \<and> \<not> is_writable ka then Inl InvalidArgument else Inr ())"

definition advance_nonce_account ::
  "(u8 list list \<Rightarrow> hash) \<Rightarrow> nonce_versions codec \<Rightarrow> invoke_context \<Rightarrow> keyed_account \<Rightarrow> pubkey set \<Rightarrow> store
     \<Rightarrow> store ix_result" where
  "advance_nonce_account hashv c ic me signers s =
     (let merge = is_active ic merge_nonce_error_into_system_error in
      bind_r (check_nonce_writable ic me) (\<lambda>_.
      bind_r (state c (s (key me))) (\<lambda>v.
      case nonce_versions_state v of
        NonceInitialized d \<Rightarrow>
          if authority d \<notin> signers then Inl MissingRequiredSignature
          else
            (let (next_durable_nonce, separate) = get_durable_nonce hashv ic in
             if durable_nonce d = next_durable_nonce
             then Inl (nonce_to_instruction_error NotExpired merge)
             else
               store_nonce c (nonce_versions_new (NonceInitialized
                 (nonce_data_new (authority d) next_durable_nonce (lamports_per_signature ic)))
                 separate) (key me) s)
      | NonceUninitialized \<Rightarrow> Inl (nonce_to_instruction_error BadAccountState merge))))"

definition withdraw_nonce_account ::
  "(u8 list list \<Rightarrow> hash) \<Rightarrow> nonce_versions codec \<Rightarrow> invoke_context \<Rightarrow> keyed_account \<Rightarrow> u64 \<Rightarrow> pubkey
     \<Rightarrow> rent \<Rightarrow> pubkey set \<Rightarrow> store \<Rightarrow> store ix_result" where
  "withdraw_nonce_account hashv c ic me amount to_key r signers s =
     (let merge = is_active ic merge_nonce_error_into_system_error in
      bind_r (check_nonce_writable ic me) (\<lambda>_.
      bind_r (state c (s (key me))) (\<lambda>v.
      bind_r
        (case nonce_versions_state v of
           NonceUninitialized \<Rightarrow>
             if amount > lamports (s (key me)) then Inl InsufficientFunds else Inr (key me, s)
         | NonceInitialized d \<Rightarrow>
             if amount = lamports (s (key me)) then
               (let (nonce, separate) = get_durable_nonce hashv ic in
                if durable_nonce d = nonce then Inl (nonce_to_instruction_error NotExpired merge)
                else
                  bind_r (store_nonce c (nonce_versions_new NonceUninitialized separate) (key me) s)
                    (\<lambda>s1. Inr (authority d, s1)))
             else
               bind_r (ok_or (checked_add amount (minimum_balance r (length (data (s (key me))))))
                         InsufficientFunds) (\<lambda>needed.
               if needed > lamports (s (key me)) then Inl InsufficientFunds
               else Inr (authority d, s)))
        (\<lambda>(signer, s1).
        if signer \<notin> signers then Inl MissingRequiredSignature
        else
          bind_r (ok_or (checked_sub (lamports (s1 (key me))) amount) ArithmeticOverflow) (\<lambda>l.
          let s2 = s1(key me := (s1 (key me))\<lparr>lamports := l\<rparr>) in
          bind_r (ok_or (checked_add (lamports (s2 to_key)) amount) ArithmeticOverflow) (\<lambda>l'.
            Inr (s2(to_key := (s2 to_key)\<lparr>lamports := l'\<rparr>))))))))"

definition initialize_nonce_account ::
  "(u8 list list \<Rightarrow> hash) \<Rightarrow> nonce_versions codec \<Rightarrow> invoke_context \<Rightarrow> keyed_account \<Rightarrow> pubkey \<Rightarrow> rent
     \<Rightarrow> store \<Rightarrow> store ix_result" where
  "initialize_nonce_account hashv c ic me nonce_authority r s =
     (let merge = is_active ic merge_nonce_error_into_system_error in
      bind_r (check_nonce_writable ic me) (\<lambda>_.
      bind_r (state c (s (key me))) (\<lambda>v.
      case nonce_versions_state v of
        NonceUninitialized \<Rightarrow>
          if lamports (s (key me)) < minimum_balance r (length (data (s (key me))))
          then Inl InsufficientFunds
          else
            (let (nonce, separate) = get_durable_nonce hashv ic in
             store_nonce c (nonce_versions_new (NonceInitialized
               (nonce_data_new nonce_authority nonce (lamports_per_signature ic))) separate)
               (key me) s)
      | NonceInitialized _ \<Rightarrow> Inl (nonce_to_instruction_error BadAccountState merge))))"

definition authorize_nonce_account ::
  "nonce_versions codec \<Rightarrow> invoke_context \<Rightarrow> keyed_account \<Rightarrow> pubkey \<Rightarrow> pubkey set \<Rightarrow> store
     \<Rightarrow> store ix_result" where
  "authorize_nonce_account c ic me nonce_authority signers s =
     (let merge = is_active ic merge_nonce_error_into_system_error in
      bind_r (check_nonce_writable ic me) (\<lambda>_.
      bind_r (state c (s (key me))) (\<lambda>v.
      case nonce_versions_state v of
        NonceInitialized d \<Rightarrow>
          if authority d \<notin> signers then Inl MissingRequiredSignature
          else
            store_nonce c (nonce_versions_new (NonceInitialized
              (nonce_data_new nonce_authority (durable_nonce d) (nonce_lamports_per_signature d)))
              (separate_domains v)) (key me) s
      | NonceUninitialized \<Rightarrow> Inl (nonce_to_instruction_error BadAccountState merge))))"

end
