(* ===== verification/System_Program.thy ===== *)
theory System_Program
  imports Nonce
begin

text \<open>
  The system program, \<open>runtime/src/system_instruction_processor.rs\<close>: creating, allocating and
  assigning accounts, transfers, and the nonce instructions.
\<close>

datatype system_instruction =
    CreateAccount u64 u64 pubkey
  | Assign pubkey
  | Transfer u64
  | CreateAccountWithSeed pubkey string u64 u64 pubkey
  | AdvanceNonceAccount
  | WithdrawNonceAccount u64
  | InitializeNonceAccount pubkey
  | AuthorizeNonceAccount pubkey
  | Allocate u64
  | AllocateWithSeed pubkey string u64 pubkey
  | AssignWithSeed pubkey string pubkey
  | TransferWithSeed u64 string pubkey
  | UpgradeNonceAccount

text \<open>
  What is not part of the repository: SHA-256 and the encodings of the stored nonce, of the rent
  and recent-blockhashes sysvars and of the instruction itself, and the size of an encoded nonce.
\<close>

record system_params =
  sp_hashv :: "u8 list list \<Rightarrow> hash"
  nonce_codec :: "nonce_versions codec"
  nonce_size :: nat
  rent_codec :: "rent codec"
  recent_blockhashes_codec :: "(hash \<times> u64) list codec"
  system_instruction_decode :: "u8 list \<Rightarrow> system_instruction option"

section \<open>Addresses\<close>

record address =
  addr :: pubkey
  base :: "pubkey option"

definition address_is_signer :: "address \<Rightarrow> pubkey set \<Rightarrow> bool" where
  "address_is_signer a signers =
     (case base a of Some b \<Rightarrow> b \<in> signers | None \<Rightarrow> addr a \<in> signers)"

definition address_create ::
  "system_params \<Rightarrow> pubkey \<Rightarrow> (pubkey \<times> string \<times> pubkey) option \<Rightarrow> address ix_result" where
  "address_create sp k with_seed =
     (case with_seed of
        None \<Rightarrow> Inr \<lparr>addr = k, base = None\<rparr>
      | Some (b, seed, own) \<Rightarrow>
          bind_r (map_err (\<lambda>e. instruction_error_from (pubkey_error_code e))
                    (create_with_seed (sp_hashv sp) b seed own)) (\<lambda>address_with_seed.
          if k \<noteq> address_with_seed then Inl (system_error_into AddressWithSeedMismatch)
          else Inr \<lparr>addr = k, base = Some b\<rparr>))"

section \<open>Operations\<close>

definition allocate :: "account \<Rightarrow> address \<Rightarrow> u64 \<Rightarrow> pubkey set \<Rightarrow> account ix_result" where
  "allocate a adr space signers =
     (if \<not> address_is_signer adr signers then Inl MissingRequiredSignature
      else if data a \<noteq> [] \<or> owner a \<noteq> system_program_id
      then Inl (system_error_into AccountAlreadyInUse)
      else if space > MAX_PERMITTED_DATA_LENGTH
      then Inl (system_error_into InvalidAccountDataLength)
      else Inr (a\<lparr>data := replicate (unat space) 0\<rparr>))"

definition assign ::
  "invoke_context \<Rightarrow> account \<Rightarrow> address \<Rightarrow> pubkey \<Rightarrow> pubkey set \<Rightarrow> account ix_result" where
  "assign ic a adr own signers =
     (if owner a = own then Inr a
      else if \<not> address_is_signer adr signers then Inl MissingRequiredSignature
      else if \<not> is_active ic rent_for_sysvars \<and> own = sysvar_owner_id
      then Inl (system_error_into InvalidProgramId)
      else Inr (a\<lparr>owner := own\<rparr>))"

definition allocate_and_assign ::
  "invoke_context \<Rightarrow> account \<Rightarrow> address \<Rightarrow> u64 \<Rightarrow> pubkey \<Rightarrow> pubkey set \<Rightarrow> account ix_result" where
  "allocate_and_assign ic a adr space own signers =
     bind_r (allocate a adr space signers) (\<lambda>a1. assign ic a1 adr own signers)"

definition transfer_verified :: "pubkey \<Rightarrow> pubkey \<Rightarrow> u64 \<Rightarrow> store \<Rightarrow> store ix_result" where
  "transfer_verified from_key to_key amount s =
     (if data (s from_key) \<noteq> [] then Inl InvalidArgument
      else if amount > lamports (s from_key)
      then Inl (system_error_into ResultWithNegativeLamports)
      else move_lamports from_key to_key amount s)"

definition transfer ::
  "invoke_context \<Rightarrow> keyed_account \<Rightarrow> keyed_account \<Rightarrow> u64 \<Rightarrow> store \<Rightarrow> store ix_result" where
  "transfer ic from_ka to_ka amount s =
     (if \<not> is_active ic system_transfer_zero_check \<and> amount = 0 then Inr s
      else if signer_key from_ka = None then Inl MissingRequiredSignature
      else transfer_verified (key from_ka) (key to_ka) amount s)"

definition transfer_with_seed ::
  "system_params \<Rightarrow> invoke_context \<Rightarrow> keyed_account \<Rightarrow> keyed_account \<Rightarrow> string \<Rightarrow> pubkey \<Rightarrow> keyed_account
     \<Rightarrow> u64 \<Rightarrow> store \<Rightarrow> store ix_result" where
  "transfer_with_seed sp ic from_ka from_base from_seed from_owner to_ka amount s =
     (if \<not> is_active ic system_transfer_zero_check \<and> amount = 0 then Inr s
      else if signer_key from_base = None then Inl MissingRequiredSignature
      else
        bind_r (map_err (\<lambda>e. instruction_error_from (pubkey_error_code e))
                  (create_with_seed (sp_hashv sp) (key from_base) from_seed from_owner))
          (\<lambda>address_from_seed.
        if key from_ka \<noteq> address_from_seed then Inl (system_error_into AddressWithSeedMismatch)
        else transfer_verified (key from_ka) (key to_ka) amount s))"

definition create_account ::
  "invoke_context \<Rightarrow> keyed_account \<Rightarrow> keyed_account \<Rightarrow> address \<Rightarrow> u64 \<Rightarrow> u64 \<Rightarrow> pubkey \<Rightarrow> pubkey set
     \<Rightarrow> store \<Rightarrow> store ix_result" where
  "create_account ic from_ka to_ka to_address amount space own signers s =
     (if lamports (s (key to_ka)) > 0 then Inl (system_error_into AccountAlreadyInUse)
      else
        bind_r (allocate_and_assign ic (s (key to_ka)) to_address space own signers) (\<lambda>a.
          transfer ic from_ka to_ka amount (s(key to_ka := a))))"

text \<open>Replacing one cell by a fallible function of its account.\<close>

definition update_cell :: "pubkey \<Rightarrow> (account \<Rightarrow> account ix_result) \<Rightarrow> store \<Rightarrow> store ix_result" where
  "update_cell k f s = bind_r (f (s k)) (\<lambda>a. Inr (s(k := a)))"

definition upgrade_nonce_account ::
  "system_params \<Rightarrow> invoke_context \<Rightarrow> keyed_account \<Rightarrow> store \<Rightarrow> store ix_result" where
  "upgrade_nonce_account sp ic ka s =
     (if owner (s (key ka)) \<noteq> system_program_id then Inl InvalidAccountOwner
      else if \<not> is_writable ka then Inl InvalidArgument
      else
        bind_r (state (nonce_codec sp) (s (key ka))) (\<lambda>v.
        case upgrade (sp_hashv sp) v of
          None \<Rightarrow> Inl InvalidArgument
        | Some v' \<Rightarrow> store_nonce (nonce_codec sp) v' (key ka) s))"

section \<open>Instructions\<close>

fun system_instruction_step ::
  "system_params \<Rightarrow> invoke_context \<Rightarrow> nat \<Rightarrow> pubkey set \<Rightarrow> system_instruction \<Rightarrow> store \<Rightarrow> store ix_result"
where
  "system_instruction_step sp ic first signers (CreateAccount amount space own) s =
     bind_r (keyed_account_at_index (keyed_accounts ic) first) (\<lambda>from_ka.
     bind_r (keyed_account_at_index (keyed_accounts ic) (first + 1)) (\<lambda>to_ka.
     bind_r (address_create sp (key to_ka) None) (\<lambda>to_address.
       create_account ic from_ka to_ka to_address amount space own signers s)))"
| "system_instruction_step sp ic first signers (CreateAccountWithSeed b seed amount space own) s =
     bind_r (keyed_account_at_index (keyed_accounts ic) first) (\<lambda>from_ka.
     bind_r (keyed_account_at_index (keyed_accounts ic) (first + 1)) (\<lambda>to_ka.
     bind_r (address_create sp (key to_ka) (Some (b, seed, own))) (\<lambda>to_address.
       create_account ic from_ka to_ka to_address amount space own signers s)))"
| "system_instruction_step sp ic first signers (Assign own) s =
     bind_r (keyed_account_at_index (keyed_accounts ic) first) (\<lambda>ka.
     bind_r (address_create sp (key ka) None) (\<lambda>adr.
       update_cell (key ka) (\<lambda>a. assign ic a adr own signers) s))"
| "system_instruction_step sp ic first signers (Transfer amount) s =
     bind_r (keyed_account_at_index (keyed_accounts ic) first) (\<lambda>from_ka.
     bind_r (keyed_account_at_index (keyed_accounts ic) (first + 1)) (\<lambda>to_ka.
       transfer ic from_ka to_ka amount s))"
| "system_instruction_step sp ic first signers (TransferWithSeed amount from_seed from_owner) s =
     bind_r (keyed_account_at_index (keyed_accounts ic) first) (\<lambda>from_ka.
     bind_r (keyed_account_at_index (keyed_accounts ic) (first + 1)) (\<lambda>base_ka.
     bind_r (keyed_account_at_index (keyed_accounts ic) (first + 2)) (\<lambda>to_ka.
       transfer_with_seed sp ic from_ka base_ka from_seed from_owner to_ka amount s)))"
| "system_instruction_step sp ic first signers AdvanceNonceAccount s =
     bind_r (keyed_account_at_index (keyed_accounts ic) first) (\<lambda>me.
     bind_r (keyed_account_at_index (keyed_accounts ic) (first + 1)) (\<lambda>rb.
     bind_r (from_keyed_account recent_blockhashes_id (recent_blockhashes_codec sp) s rb) (\<lambda>hashes.
     if hashes = [] then Inl (nonce_error_into NoRecentBlockhashes)
     else advance_nonce_account (sp_hashv sp) (nonce_codec sp) ic me signers s)))"
| "system_instruction_step sp ic first signers (WithdrawNonceAccount amount) s =
     bind_r (keyed_account_at_index (keyed_accounts ic) first) (\<lambda>me.
     bind_r (keyed_account_at_index (keyed_accounts ic) (first + 1)) (\<lambda>to_ka.
     bind_r (keyed_account_at_index (keyed_accounts ic) (first + 2)) (\<lambda>rb.
     bind_r (from_keyed_account recent_blockhashes_id (recent_blockhashes_codec sp) s rb) (\<lambda>_.
     bind_r (keyed_account_at_index (keyed_accounts ic) (first + 3)) (\<lambda>rent_ka.
     bind_r (from_keyed_account rent_id (rent_codec sp) s rent_ka) (\<lambda>r.
       withdraw_nonce_account (sp_hashv sp) (nonce_codec sp) ic me amount (key to_ka) r signers s))))))"
| "system_instruction_step sp ic first signers (InitializeNonceAccount authorized) s =
     bind_r (keyed_account_at_index (keyed_accounts ic) first) (\<lambda>me.
     bind_r (keyed_account_at_index (keyed_accounts ic) (first + 1)) (\<lambda>rb.
     bind_r (from_keyed_account recent_blockhashes_id (recent_blockhashes_codec sp) s rb) (\<lambda>hashes.
     if hashes = [] then Inl (nonce_error_into NoRecentBlockhashes)
     else
       bind_r (keyed_account_at_index (keyed_accounts ic) (first + 2)) (\<lambda>rent_ka.
       bind_r (from_keyed_account rent_id (rent_codec sp) s rent_ka) (\<lambda>r.
         initialize_nonce_account (sp_hashv sp) (nonce_codec sp) ic me authorized r s)))))"
| "system_instruction_step sp ic first signers (AuthorizeNonceAccount nonce_authority) s =
     bind_r (keyed_account_at_index (keyed_accounts ic) first) (\<lambda>me.
       authorize_nonce_account (nonce_codec sp) ic me nonce_authority signers s)"
| "system_instruction_step sp ic first signers UpgradeNonceAccount s =
     (if \<not> is_active ic separate_nonce_from_blockhash then Inl InvalidInstructionData
      else
        bind_r (keyed_account_at_index (keyed_accounts ic) first) (\<lambda>ka.
          upgrade_nonce_account sp ic ka s))"
| "system_instruction_step sp ic first signers (Allocate space) s =
     bind_r (keyed_account_at_index (keyed_accounts ic) first) (\<lambda>ka.
     bind_r (address_create sp (key ka) None) (\<lambda>adr.
       update_cell (key ka) (\<lambda>a. allocate a adr space signers) s))"
| "system_instruction_step sp ic first signers (AllocateWithSeed b seed space own) s =
     bind_r (keyed_account_at_index (keyed_accounts ic) first) (\<lambda>ka.
     bind_r (address_create sp (key ka) (Some (b, seed, own))) (\<lambda>adr.
       update_cell (key ka) (\<lambda>a. allocate_and_assign ic a adr space own signers) s))"
| "system_instruction_step sp ic first signers (AssignWithSeed b seed own) s =
     bind_r (keyed_account_at_index (keyed_accounts ic) first) (\<lambda>ka.
     bind_r (address_create sp (key ka) (Some (b, seed, own))) (\<lambda>adr.
       update_cell (key ka) (\<lambda>a. assign ic a adr own signers) s))"

definition system_process_instruction ::
  "system_params \<Rightarrow> invoke_context \<Rightarrow> nat \<Rightarrow> u8 list \<Rightarrow> store \<Rightarrow> store ix_result" where
  "system_process_instruction sp ic first bytes s =
     bind_r (limited_deserialize (system_instruction_decode sp) bytes) (\<lambda>ix.
     bind_r (keyed_account_at_index (keyed_accounts ic) first) (\<lambda>_.
       system_instruction_step sp ic first (get_signers (drop first (keyed_accounts ic))) ix s))"

datatype system_account_kind = SystemKind | NonceKind

definition get_system_account_kind :: "system_params \<Rightarrow> account \<Rightarrow> system_account_kind option" where
  "get_system_account_kind sp a =
     (if owner a = system_program_id then
        if data a = [] then Some SystemKind
        else if length (data a) = nonce_size sp then
          (case state (nonce_codec sp) a of
             Inl _ \<Rightarrow> None
           | Inr v \<Rightarrow> (case nonce_versions_state v of
                 NonceUninitialized \<Rightarrow> None | NonceInitialized _ \<Rightarrow> Some NonceKind))
        else None
      else None)"

end
