(* ===== verification/System_Safety.thy ===== *)
theory System_Safety
  imports System_Program
begin

text \<open>
  What an instruction of the system program can do to the account store, as a specification
  (\<open>system_effect\<close>) that every successful instruction meets: who may spend, who may reshape an
  account, and what a nonce account allows.
\<close>

text \<open>A key is controlled by its own signature or by that of the base it is derived from.\<close>

definition controlled :: "system_params \<Rightarrow> pubkey set \<Rightarrow> pubkey \<Rightarrow> bool" where
  "controlled sp signers k \<longleftrightarrow> k \<in> signers
     \<or> (\<exists>b \<in> signers. \<exists>seed own. create_with_seed (sp_hashv sp) b seed own = Inr k)"

text \<open>Allocating and assigning: only a fresh system account gets data, and only zeros.\<close>

definition reshaped_to :: "account \<Rightarrow> account \<Rightarrow> bool" where
  "reshaped_to a b \<longleftrightarrow> lamports b = lamports a \<and> executable b = executable a
     \<and> rent_epoch b = rent_epoch a
     \<and> (data b = data a
        \<or> data a = [] \<and> owner a = system_program_id
          \<and> (\<exists>n. n \<le> unat MAX_PERMITTED_DATA_LENGTH \<and> data b = replicate n 0))"

inductive system_effect ::
  "system_params \<Rightarrow> pubkey set \<Rightarrow> pubkey set \<Rightarrow> store \<Rightarrow> store \<Rightarrow> bool"
  for sp :: system_params and keys :: "pubkey set" and signers :: "pubkey set" and s :: store
where
  unchanged: "system_effect sp keys signers s s"
| transferred:
    "f \<in> keys \<Longrightarrow> t \<in> keys \<Longrightarrow> controlled sp signers f \<Longrightarrow> data (s f) = [] \<Longrightarrow>
     move_lamports f t n s = Inr s' \<Longrightarrow> system_effect sp keys signers s s'"
| reshaped:
    "k \<in> keys \<Longrightarrow> a = s k \<or> controlled sp signers k \<Longrightarrow> reshaped_to (s k) a \<Longrightarrow>
     system_effect sp keys signers s (s(k := a))"
| created:
    "f \<in> keys \<Longrightarrow> t \<in> keys \<Longrightarrow> controlled sp signers t \<Longrightarrow> lamports (s t) = 0 \<Longrightarrow> data (s t) = [] \<Longrightarrow>
     owner (s t) = system_program_id \<Longrightarrow> reshaped_to (s t) a \<Longrightarrow> mid = s(t := a) \<Longrightarrow>
     s' = mid \<or> f \<in> signers \<and> data (mid f) = [] \<and> move_lamports f t n mid = Inr s' \<Longrightarrow>
     system_effect sp keys signers s s'"
| nonce_written:
    "k \<in> keys \<Longrightarrow> deserialize (nonce_codec sp) (data (s k)) = Some v \<Longrightarrow>
     (case nonce_versions_state v of
        NonceInitialized d \<Rightarrow> authority d \<in> signers \<or> upgrade (sp_hashv sp) v = Some v'
      | NonceUninitialized \<Rightarrow> True) \<Longrightarrow>
     store_nonce (nonce_codec sp) v' k s = Inr s' \<Longrightarrow> system_effect sp keys signers s s'"
| nonce_withdrawn:
    "k \<in> keys \<Longrightarrow> t \<in> keys \<Longrightarrow> deserialize (nonce_codec sp) (data (s k)) = Some v \<Longrightarrow>
     (case nonce_versions_state v of
        NonceUninitialized \<Rightarrow> k \<in> signers
      | NonceInitialized d \<Rightarrow> authority d \<in> signers) \<Longrightarrow>
     s1 = s \<or> n = lamports (s k)
       \<and> (\<exists>sep. store_nonce (nonce_codec sp) (nonce_versions_new NonceUninitialized sep) k s = Inr s1) \<Longrightarrow>
     move_lamports k t n s1 = Inr s' \<Longrightarrow> system_effect sp keys signers s s'"

section \<open>Every operation is one of the permitted changes\<close>

lemma address_create_controlled:
  "address_create sp k w = Inr adr \<Longrightarrow> address_is_signer adr signers \<Longrightarrow> controlled sp signers k"
  by (auto simp: address_create_def address_is_signer_def controlled_def result_simps
      split: option.splits prod.splits if_splits)

lemma allocate_Inr:
  "allocate a adr space signers = Inr b \<longleftrightarrow> address_is_signer adr signers \<and> data a = []
     \<and> owner a = system_program_id \<and> space \<le> MAX_PERMITTED_DATA_LENGTH
     \<and> b = a\<lparr>data := replicate (unat space) 0\<rparr>"
  by (auto simp: allocate_def not_less)

lemma assign_Inr:
  "assign ic a adr own signers = Inr b \<longleftrightarrow>
     (owner a = own \<or> address_is_signer adr signers \<and> (is_active ic rent_for_sysvars \<or> own \<noteq> sysvar_owner_id))
     \<and> b = a\<lparr>owner := own\<rparr>"
  by (cases a) (auto simp: assign_def)

lemma allocate_reshapes: "allocate a adr space signers = Inr b \<Longrightarrow> reshaped_to a b"
  unfolding allocate_Inr reshaped_to_def by (auto simp: word_le_nat_alt)

lemma assign_reshapes: "assign ic a adr own signers = Inr b \<Longrightarrow> reshaped_to a b"
  unfolding assign_Inr reshaped_to_def by auto

lemma allocate_and_assign_Inr:
  assumes "allocate_and_assign ic a adr space own signers = Inr b"
  shows "address_is_signer adr signers" and "data a = []" and "owner a = system_program_id"
    and "b = a\<lparr>data := replicate (unat space) 0, owner := own\<rparr>" and "reshaped_to a b"
  using assms unfolding allocate_and_assign_def bind_r_Inr allocate_Inr assign_Inr reshaped_to_def
  by (auto simp: word_le_nat_alt)

lemma transfer_effect:
  assumes "transfer ic f t n s = Inr s'" and "f \<in> set (drop first kas)"
  obtains "s' = s" | "key f \<in> get_signers (drop first kas)" "data (s (key f)) = []"
    "move_lamports (key f) (key t) n s = Inr s'"
  using assms by (auto simp: transfer_def transfer_verified_def signer_key_def mem_get_signers
      split: if_splits)

lemma create_account_effect:
  assumes r: "create_account ic f t adr n space own (get_signers (drop first kas)) s = Inr s'"
    and adr: "address_create sp (key t) w = Inr adr"
    and f: "f \<in> set (drop first kas)" "key f \<in> keys" "key t \<in> keys"
  shows "system_effect sp keys (get_signers (drop first kas)) s s'"
proof -
  from r obtain a where l: "lamports (s (key t)) = 0"
    and a: "allocate_and_assign ic (s (key t)) adr space own (get_signers (drop first kas)) = Inr a"
    and tr: "transfer ic f t n (s(key t := a)) = Inr s'"
    by (auto simp: create_account_def result_simps word_gt_0 split: if_splits)
  note aa = allocate_and_assign_Inr [OF a]
  have c: "controlled sp (get_signers (drop first kas)) (key t)"
    using adr aa(1) by (rule address_create_controlled)
  have "s' = s(key t := a) \<or> key f \<in> get_signers (drop first kas) \<and> data ((s(key t := a)) (key f)) = []
      \<and> move_lamports (key f) (key t) n (s(key t := a)) = Inr s'"
    using tr f(1) by (cases rule: transfer_effect) auto
  then show ?thesis
    by (rule system_effect.created [where f = "key f" and t = "key t" and a = a and n = n
          and mid = "s(key t := a)", OF f(2,3) c l aa(2,3,5) refl])
qed

lemma store_nonce_Inr [result_simps]:
  "store_nonce c v k s = Inr s' \<longleftrightarrow> (\<exists>a. set_state c v (s k) = Inr a \<and> s' = s(k := a))"
  by (auto simp: store_nonce_def bind_r_Inr)

lemma advance_effect:
  assumes "advance_nonce_account (sp_hashv sp) (nonce_codec sp) ic me signers s = Inr s'"
    and "key me \<in> keys"
  shows "system_effect sp keys signers s s'"
proof -
  from assms(1) obtain v d v' where "deserialize (nonce_codec sp) (data (s (key me))) = Some v"
    and "nonce_versions_state v = NonceInitialized d" "authority d \<in> signers"
    and "store_nonce (nonce_codec sp) v' (key me) s = Inr s'"
    unfolding advance_nonce_account_def Let_def
    by (elim bind_r_InrE) (auto simp: state_Inr split: nonce_state.splits if_splits prod.splits)
  with assms(2) show ?thesis by (auto intro: system_effect.nonce_written)
qed

lemma authorize_nonce_effect:
  assumes "authorize_nonce_account (nonce_codec sp) ic me auth signers s = Inr s'" and "key me \<in> keys"
  shows "system_effect sp keys signers s s'"
proof -
  from assms(1) obtain v d v' where "deserialize (nonce_codec sp) (data (s (key me))) = Some v"
    and "nonce_versions_state v = NonceInitialized d" "authority d \<in> signers"
    and "store_nonce (nonce_codec sp) v' (key me) s = Inr s'"
    unfolding authorize_nonce_account_def Let_def
    by (elim bind_r_InrE) (auto simp: state_Inr split: nonce_state.splits if_splits prod.splits)
  with assms(2) show ?thesis by (auto intro: system_effect.nonce_written)
qed

lemma initialize_nonce_effect:
  assumes "initialize_nonce_account (sp_hashv sp) (nonce_codec sp) ic me auth r s = Inr s'"
    and "key me \<in> keys"
  shows "system_effect sp keys signers s s'"
proof -
  from assms(1) obtain v v' where "deserialize (nonce_codec sp) (data (s (key me))) = Some v"
    and "nonce_versions_state v = NonceUninitialized"
    and "store_nonce (nonce_codec sp) v' (key me) s = Inr s'"
    unfolding initialize_nonce_account_def Let_def
    by (elim bind_r_InrE) (auto simp: state_Inr split: nonce_state.splits if_splits prod.splits)
  with assms(2) show ?thesis by (auto intro: system_effect.nonce_written)
qed

lemma upgrade_nonce_effect:
  assumes "upgrade_nonce_account sp ic me s = Inr s'" and "key me \<in> keys"
  shows "system_effect sp keys signers s s'"
proof -
  from assms(1) obtain v v' where v: "deserialize (nonce_codec sp) (data (s (key me))) = Some v"
    and u: "upgrade (sp_hashv sp) v = Some v'"
    and st: "store_nonce (nonce_codec sp) v' (key me) s = Inr s'"
    unfolding upgrade_nonce_account_def
    by (auto simp: state_Inr split: option.splits if_splits elim!: bind_r_InrE)
  show ?thesis
    by (rule system_effect.nonce_written [OF assms(2) v _ st])
      (use u in \<open>auto split: nonce_state.split\<close>)
qed

lemma withdraw_nonce_effect:
  assumes r: "withdraw_nonce_account (sp_hashv sp) (nonce_codec sp) ic me n t rnt signers s = Inr s'"
    and keys: "key me \<in> keys" "t \<in> keys"
  shows "system_effect sp keys signers s s'"
proof -
  have mv: "bind_r (ok_or (checked_sub (lamports (s1 k)) n) ArithmeticOverflow) (\<lambda>l.
          let s2 = s1(k := (s1 k)\<lparr>lamports := l\<rparr>) in
          bind_r (ok_or (checked_add (lamports (s2 t)) n) ArithmeticOverflow) (\<lambda>l'.
            Inr (s2(t := (s2 t)\<lparr>lamports := l'\<rparr>)))) = move_lamports k t n s1" for s1 k
    by (auto simp: move_lamports_def checked_sub_lamports_def checked_add_lamports_def bind_r_def
        ok_or_def map_err_def Let_def split: option.splits)
  from r obtain v where v: "deserialize (nonce_codec sp) (data (s (key me))) = Some v"
    unfolding withdraw_nonce_account_def Let_def by (elim bind_r_InrE) (simp add: state_Inr)
  show ?thesis
  proof (cases "nonce_versions_state v")
    case NonceUninitialized
    with r v have "key me \<in> signers" and m: "move_lamports (key me) t n s = Inr s'"
      unfolding withdraw_nonce_account_def mv unfolding Let_def
      by (auto simp: state_Inr bind_r_Inr split: if_splits)
    then show ?thesis using NonceUninitialized
      by (intro system_effect.nonce_withdrawn [where s = s, OF keys v _ _ m]) auto
  next
    case (NonceInitialized d)
    with r v obtain sep s1 where "authority d \<in> signers"
      and "s1 = s \<or> n = lamports (s (key me))
        \<and> store_nonce (nonce_codec sp) (nonce_versions_new NonceUninitialized sep) (key me) s = Inr s1"
      and m: "move_lamports (key me) t n s1 = Inr s'"
      unfolding withdraw_nonce_account_def mv unfolding Let_def
      by (auto simp: state_Inr bind_r_Inr split: if_splits prod.splits)
    then show ?thesis using NonceInitialized
      by (intro system_effect.nonce_withdrawn [where s = s, OF keys v _ _ m]) auto
  qed
qed

lemma update_cell_Inr: "update_cell k f s = Inr s' \<longleftrightarrow> (\<exists>a. f (s k) = Inr a \<and> s' = s(k := a))"
  by (auto simp: update_cell_def bind_r_Inr)

lemma transfer_with_seed_effect:
  assumes r: "transfer_with_seed sp ic f b seed own t n s = Inr s'"
    and b: "b \<in> set (drop first kas)" and keys: "key f \<in> keys" "key t \<in> keys"
  shows "system_effect sp keys (get_signers (drop first kas)) s s'"
proof (cases "s' = s")
  case True
  then show ?thesis by (simp add: system_effect.unchanged)
next
  case False
  with r have "is_signer b" and der: "create_with_seed (sp_hashv sp) (key b) seed own = Inr (key f)"
    and d: "data (s (key f)) = []" and m: "move_lamports (key f) (key t) n s = Inr s'"
    by (auto simp: transfer_with_seed_def transfer_verified_def signer_key_def result_simps
        split: if_splits)
  then have "key b \<in> get_signers (drop first kas)" using b by (auto simp: mem_get_signers)
  then have "controlled sp (get_signers (drop first kas)) (key f)"
    using der unfolding controlled_def by blast
  then show ?thesis by (rule system_effect.transferred [OF keys _ d m])
qed

lemma nth_drop_member:
  assumes "i < length xs" and "first \<le> i"
  shows "xs ! i \<in> set (drop first xs)"
proof -
  have "drop first xs ! (i - first) = xs ! i" "i - first < length (drop first xs)"
    using assms by simp_all
  then show ?thesis by (metis nth_mem)
qed

lemma reshaped_effect:
  assumes "address_create sp k w = Inr adr" and "k \<in> keys"
    and "a = s k \<or> address_is_signer adr signers" and "reshaped_to (s k) a"
  shows "system_effect sp keys signers s (s(k := a))"
  using assms address_create_controlled by (intro system_effect.reshaped) auto


lemma keyed_at:
  assumes "keyed_account_at_index kas i = Inr ka"
  shows "key ka \<in> key ` set kas" and "first \<le> i \<Longrightarrow> ka \<in> set (drop first kas)"
  using assms nth_drop_member [of i kas first] by (auto simp: keyed_account_at_index_Inr)

lemma transfer_system_effect:
  assumes "transfer ic f t n s = Inr s'" and "f \<in> set (drop first kas)"
    and "key f \<in> keys" "key t \<in> keys"
  shows "system_effect sp keys (get_signers (drop first kas)) s s'"
  using assms(1,2)
proof (cases rule: transfer_effect)
  case 1
  then show ?thesis by (simp add: system_effect.unchanged)
next
  case 2
  then show ?thesis
    using assms(3,4) by (intro system_effect.transferred) (auto simp: controlled_def)
qed

lemma assign_effect:
  assumes "address_create sp k w = Inr adr" and "k \<in> keys"
    and "update_cell k (\<lambda>a. assign ic a adr own signers) s = Inr s'"
  shows "system_effect sp keys signers s s'"
proof -
  from assms(3) obtain a where a: "assign ic (s k) adr own signers = Inr a" "s' = s(k := a)"
    by (auto simp: update_cell_Inr)
  then have "a = s k \<or> address_is_signer adr signers" by (auto simp: assign_Inr)
  with assms(1,2) a assign_reshapes [OF a(1)] show ?thesis by (blast intro: reshaped_effect)
qed

lemma allocate_effect:
  assumes "address_create sp k w = Inr adr" and "k \<in> keys"
    and "update_cell k (\<lambda>a. allocate a adr space signers) s = Inr s'"
  shows "system_effect sp keys signers s s'"
proof -
  from assms(3) obtain a where a: "allocate (s k) adr space signers = Inr a" "s' = s(k := a)"
    by (auto simp: update_cell_Inr)
  then have "address_is_signer adr signers" by (auto simp: allocate_Inr)
  with assms(1,2) a allocate_reshapes [OF a(1)] show ?thesis by (blast intro: reshaped_effect)
qed

lemma allocate_and_assign_effect:
  assumes "address_create sp k w = Inr adr" and "k \<in> keys"
    and "update_cell k (\<lambda>a. allocate_and_assign ic a adr space own signers) s = Inr s'"
  shows "system_effect sp keys signers s s'"
proof -
  from assms(3) obtain a where a: "allocate_and_assign ic (s k) adr space own signers = Inr a"
    "s' = s(k := a)"
    by (auto simp: update_cell_Inr)
  with assms(1,2) allocate_and_assign_Inr(1,5) [OF a(1)] show ?thesis
    by (blast intro: reshaped_effect)
qed

lemma system_instruction_effect:
  assumes "system_instruction_step sp ic first (get_signers (drop first (keyed_accounts ic))) ix s = Inr s'"
  shows "system_effect sp (key ` set (keyed_accounts ic)) (get_signers (drop first (keyed_accounts ic))) s s'"
  using assms
proof (cases ix)
  case (InitializeNonceAccount auth)
  with assms show ?thesis
    by (auto elim!: bind_r_InrE split: if_splits) (erule initialize_nonce_effect, erule keyed_at)
next
  case (TransferWithSeed n seed own)
  with assms show ?thesis
    by (auto elim!: bind_r_InrE) (erule transfer_with_seed_effect; auto intro: keyed_at)
qed (auto elim!: bind_r_InrE split: if_splits
      intro: create_account_effect transfer_system_effect assign_effect allocate_effect
        allocate_and_assign_effect advance_effect withdraw_nonce_effect authorize_nonce_effect
        upgrade_nonce_effect keyed_at(1) keyed_at(2))

lemma system_process_instruction_effect:
  assumes "system_process_instruction sp ic first bytes s = Inr s'"
  shows "system_effect sp (key ` set (keyed_accounts ic)) (get_signers (drop first (keyed_accounts ic))) s s'"
  using assms system_instruction_effect unfolding system_process_instruction_def
  by (elim bind_r_InrE) auto

section \<open>Frame and conservation\<close>

lemma store_nonce_frame:
  assumes "store_nonce c v k s = Inr s'"
  shows "k' \<noteq> k \<Longrightarrow> s' k' = s k'" and "lamports (s' x) = lamports (s x)" and "owner (s' x) = owner (s x)"
    and "executable (s' x) = executable (s x)" and "rent_epoch (s' x) = rent_epoch (s x)"
    and "length (data (s' x)) = length (data (s x))"
  using assms unfolding store_nonce_Inr set_state_Inr by auto

lemma same_lamports_total: "(\<And>x. lamports (s' x) = lamports (s x)) \<Longrightarrow> total_lamports K s' = total_lamports K s"
  by (simp add: total_lamports_def)

lemma system_effect_total:
  assumes "system_effect sp keys signers s s'" and K: "finite K" "keys \<subseteq> K"
  shows "total_lamports K s' = total_lamports K s"
  using assms(1)
proof cases
  case (transferred f t n)
  then show ?thesis using K by (blast intro: move_lamports_total)
next
  case (reshaped k a)
  then show ?thesis by (intro same_lamports_total) (auto simp: reshaped_to_def)
next
  case (created f t a mid n)
  have "total_lamports K mid = total_lamports K s"
    using created(7,8) by (intro same_lamports_total) (auto simp: reshaped_to_def)
  moreover have "total_lamports K s' = total_lamports K mid"
    using created(1,2,9) K move_lamports_total by blast
  ultimately show ?thesis by simp
next
  case (nonce_written k v v')
  then show ?thesis using store_nonce_frame(2) by (blast intro: same_lamports_total)
next
  case (nonce_withdrawn k t v s1 n)
  have "total_lamports K s1 = total_lamports K s"
    using nonce_withdrawn(5) store_nonce_frame(2) by (blast intro: same_lamports_total)
  moreover have "total_lamports K s' = total_lamports K s1"
    using nonce_withdrawn(1,2,6) K move_lamports_total by blast
  ultimately show ?thesis by simp
qed simp

lemma system_effect_frame:
  assumes "system_effect sp keys signers s s'"
  shows "(k \<notin> keys \<longrightarrow> s' k = s k) \<and> executable (s' k) = executable (s k) \<and> rent_epoch (s' k) = rent_epoch (s k)"
  using assms
proof cases
  case (transferred f t n)
  then show ?thesis using move_lamports_frame by metis
next
  case (reshaped k' a)
  then show ?thesis by (auto simp: reshaped_to_def)
next
  case (created f t a mid n)
  have "(k \<notin> keys \<longrightarrow> mid k = s k) \<and> executable (mid k) = executable (s k) \<and> rent_epoch (mid k) = rent_epoch (s k)"
    using created(2,7,8) by (auto simp: reshaped_to_def)
  then show ?thesis using created(1,2,9) move_lamports_frame by metis
next
  case (nonce_written k' v v')
  then show ?thesis using store_nonce_frame [OF nonce_written(4)] by metis
next
  case (nonce_withdrawn k' t v s1 n)
  have "(k \<notin> keys \<longrightarrow> s1 k = s k) \<and> executable (s1 k) = executable (s k) \<and> rent_epoch (s1 k) = rent_epoch (s k)"
    using nonce_withdrawn(1,5) store_nonce_frame by metis
  then show ?thesis using nonce_withdrawn(1,2,6) move_lamports_frame by metis
qed simp

interpretation system_ix: fallible_machine
  "\<lambda>(first, bytes) s. system_process_instruction sp ic first bytes s"
  "\<lambda>s. True"
  "\<lambda>s s'. (\<forall>K. finite K \<longrightarrow> key ` set (keyed_accounts ic) \<subseteq> K \<longrightarrow> total_lamports K s' = total_lamports K s)
     \<and> (\<forall>k. (k \<notin> key ` set (keyed_accounts ic) \<longrightarrow> s' k = s k)
           \<and> executable (s' k) = executable (s k) \<and> rent_epoch (s' k) = rent_epoch (s k))"
  for sp ic
proof unfold_locales
  fix s s' e
  assume "(case e of (first, bytes) \<Rightarrow> system_process_instruction sp ic first bytes) s = Inr s'"
  then obtain first bytes where "system_process_instruction sp ic first bytes s = Inr s'"
    by (cases e) auto
  note e = system_process_instruction_effect [OF this]
  show "(\<forall>K. finite K \<longrightarrow> key ` set (keyed_accounts ic) \<subseteq> K \<longrightarrow> total_lamports K s' = total_lamports K s)
     \<and> (\<forall>k. (k \<notin> key ` set (keyed_accounts ic) \<longrightarrow> s' k = s k)
           \<and> executable (s' k) = executable (s k) \<and> rent_epoch (s' k) = rent_epoch (s k))"
    using system_effect_total [OF e] system_effect_frame [OF e] by blast
qed auto


section \<open>Nonces\<close>

lemma store_nonce_reads_back:
  "codec_ok c \<Longrightarrow> store_nonce c v k s = Inr s' \<Longrightarrow> state c (s' k) = Inr v"
  by (auto simp: store_nonce_Inr state_Inr set_state_reads_back)

lemma advance_Inr:
  assumes "advance_nonce_account hashv c ic me signers s = Inr s'"
  obtains v d where "check_nonce_writable ic me = Inr ()" and "state c (s (key me)) = Inr v"
    and "nonce_versions_state v = NonceInitialized d" and "authority d \<in> signers"
    and "durable_nonce d \<noteq> fst (get_durable_nonce hashv ic)"
    and "store_nonce c (nonce_versions_new (NonceInitialized (nonce_data_new (authority d)
           (fst (get_durable_nonce hashv ic)) (lamports_per_signature ic)))
           (snd (get_durable_nonce hashv ic))) (key me) s = Inr s'"
  using assms unfolding advance_nonce_account_def Let_def
  by (elim bind_r_InrE) (auto split: nonce_state.splits if_splits prod.splits)

lemma nonce_versions_state_new [simp]: "nonce_versions_state (nonce_versions_new st b) = st"
  by (simp add: nonce_versions_new_def)

text \<open>A concrete nonce account, held at key 3 and controlled by key 7.\<close>

definition example_params :: system_params where
  "example_params = \<lparr>sp_hashv = (\<lambda>_. 0), nonce_codec = unary_codec, nonce_size = 80,
     rent_codec = \<lparr>deserialize = (\<lambda>_. None), serialize = (\<lambda>_. [])\<rparr>,
     recent_blockhashes_codec = \<lparr>deserialize = (\<lambda>_. None), serialize = (\<lambda>_. [])\<rparr>,
     system_instruction_decode = (\<lambda>bytes. Some (CreateAccount 4 2 9))\<rparr>"

definition example_nonce :: "hash \<Rightarrow> nonce_versions" where
  "example_nonce h = NonceLegacy (NonceInitialized (nonce_data_new 7 h 0))"

definition nonce_account :: account where
  "nonce_account = account_default\<lparr>lamports := 10,
     data := serialize unary_codec (example_nonce 1) @ serialize unary_codec (example_nonce 0)\<rparr>"

definition nonce_store :: store where
  "nonce_store = (\<lambda>_. account_default)(3 := nonce_account)"

definition system_context :: invoke_context where
  "system_context = \<lparr>keyed_accounts = [\<lparr>is_signer = True, is_writable = True, key = 5\<rparr>,
       \<lparr>is_signer = True, is_writable = True, key = 6\<rparr>],
     feature_set = {system_transfer_zero_check}, blockhash = 0, lamports_per_signature = 0,
     cached_clock = None, cached_rent = None, cached_slot_hashes = None\<rparr>"

definition funded_store :: store where
  "funded_store = (\<lambda>_. account_default\<lparr>owner := system_program_id\<rparr>)
     (5 := account_default\<lparr>owner := system_program_id, lamports := 10\<rparr>)"

definition created_store :: store where
  "created_store = funded_store
     (5 := account_default\<lparr>owner := system_program_id, lamports := 6\<rparr>,
      6 := account_default\<lparr>owner := 9, lamports := 4, data := [0, 0]\<rparr>)"

lemma example_create:
  "system_process_instruction example_params system_context 0 [] funded_store = Inr created_store"
proof -
  have "system_program_id \<noteq> 9" "sysvar_owner_id \<noteq> 9"
    by (simp_all add: system_program_id_numeral sysvar_owner_id_numeral)
  moreover have "replicate 2 (0 :: u8) = [0, 0]" by (simp add: numeral_2_eq_2)
  ultimately have a: "allocate_and_assign system_context (funded_store 6) \<lparr>addr = 6, base = None\<rparr> 2 9
      (get_signers (keyed_accounts system_context))
      = Inr (account_default\<lparr>owner := 9, data := [0, 0]\<rparr>)"
    by (auto simp: allocate_and_assign_def allocate_def assign_def address_is_signer_def mem_get_signers
        system_context_def funded_store_def account_default_def MAX_PERMITTED_DATA_LENGTH_def)
  have t: "move_lamports 5 6 4 (funded_store(6 := account_default\<lparr>owner := 9, data := [0, 0]\<rparr>))
      = Inr created_store"
    by (simp add: move_lamports_distinct created_store_def funded_store_def account_default_def
        fun_upd_twist)
  have "keyed_accounts system_context = [\<lparr>is_signer = True, is_writable = True, key = 5\<rparr>,
       \<lparr>is_signer = True, is_writable = True, key = 6\<rparr>]" "lamports (funded_store 6) = 0"
    "data (funded_store 5) = []" "lamports (funded_store 5) = 10"
    by (simp_all add: system_context_def funded_store_def account_default_def)
  with a t show ?thesis
    by (simp add: system_process_instruction_def example_params_def limited_deserialize_def
        keyed_account_at_index_def address_create_def create_account_def transfer_def
        transfer_verified_def signer_key_def is_active_def)
qed


section \<open>Properties\<close>

text \<open>
  C23: every successful system instruction is one of the permitted changes, made with the permitted
  signatures: moving lamports out of an account without data that is controlled by a signer (by its
  own key or as the base of a derived key), giving an unused system account zeroed data and an
  owner, creating an account that had no lamports, writing a nonce with its authority's signature
  (or upgrading it), and withdrawing from a nonce account with its authority's.
\<close>

theorem system_program_permissions:
  assumes "system_process_instruction sp ic first bytes s = Inr s'"
  shows "system_effect sp (key ` set (keyed_accounts ic)) (get_signers (drop first (keyed_accounts ic))) s s'"
  using assms by (rule system_process_instruction_effect)

theorem system_program_permissions_witness:
  "system_effect example_params (key ` set (keyed_accounts system_context))
     (get_signers (drop 0 (keyed_accounts system_context))) funded_store created_store"
  by (rule system_program_permissions [OF example_create])

text \<open>
  C24: a run of system instructions over one list of accounts conserves lamports, leaves every
  account outside the list alone and changes neither an executable flag nor a rent epoch.
\<close>

theorem system_run_conserves:
  assumes "run_r (\<lambda>(first, bytes) s. system_process_instruction sp ic first bytes s) ixs s = Inr s'"
    and "finite K" and "key ` set (keyed_accounts ic) \<subseteq> K"
  shows "total_lamports K s' = total_lamports K s
    \<and> (\<forall>k. (k \<notin> K \<longrightarrow> s' k = s k) \<and> executable (s' k) = executable (s k)
          \<and> rent_epoch (s' k) = rent_epoch (s k))"
  using system_ix.run_rel [OF TrueI assms(1)] assms(2,3) by blast

theorem system_run_conserves_witness:
  "total_lamports {5, 6} created_store = total_lamports {5, 6} funded_store
    \<and> (\<forall>k. (k \<notin> {5, 6} \<longrightarrow> created_store k = funded_store k)
          \<and> executable (created_store k) = executable (funded_store k)
          \<and> rent_epoch (created_store k) = rent_epoch (funded_store k))"
  by (rule system_run_conserves [of example_params system_context "[(0, [])]"])
    (use example_create in simp, simp, simp add: system_context_def)

text \<open>
  C25: lamports leave an account through the system program only in two ways: from an account
  without data whose key, or the base it is derived from, signed; or from a nonce account whose
  authority (before initialisation, whose own key) signed.
\<close>

theorem system_debit_authorized:
  assumes "system_process_instruction sp ic first bytes s = Inr s'"
    and "lamports (s' k) < lamports (s k)"
  shows "data (s k) = [] \<and> controlled sp (get_signers (drop first (keyed_accounts ic))) k
    \<or> (\<exists>v. deserialize (nonce_codec sp) (data (s k)) = Some v
         \<and> (case nonce_versions_state v of
              NonceUninitialized \<Rightarrow> k \<in> get_signers (drop first (keyed_accounts ic))
            | NonceInitialized d \<Rightarrow> authority d \<in> get_signers (drop first (keyed_accounts ic))))"
  using system_process_instruction_effect [OF assms(1)]
proof cases
  case (transferred f t n)
  have "k = f" using move_lamports_mono [OF transferred(5), of k] assms(2) by fastforce
  with transferred show ?thesis by blast
next
  case (created f t a mid n)
  have "lamports (mid x) = lamports (s x)" for x using created(7,8) by (simp add: reshaped_to_def)
  then have "s' \<noteq> mid" "k \<noteq> f \<Longrightarrow> move_lamports f t n mid \<noteq> Inr s'"
    using assms(2) move_lamports_mono [of f t n mid s' k] by fastforce+
  with created(9) have "k = f" "f \<in> get_signers (drop first (keyed_accounts ic))" "data (mid f) = []"
    by auto
  then show ?thesis using created(5,8) by (auto simp: controlled_def split: if_splits)
next
  case (nonce_withdrawn k' t v s1 n)
  have "lamports (s1 x) = lamports (s x)" for x using nonce_withdrawn(5) store_nonce_frame(2) by metis
  then have "k = k'" using move_lamports_mono [OF nonce_withdrawn(6), of k] assms(2) by fastforce
  with nonce_withdrawn show ?thesis by blast
next
  case (nonce_written k' v v')
  then show ?thesis using assms(2) store_nonce_frame(2) [OF nonce_written(4), of k] by simp
qed (use assms(2) in \<open>auto simp: reshaped_to_def split: if_splits\<close>)

theorem system_debit_authorized_witness:
  "data (funded_store 5) = []
    \<and> controlled example_params (get_signers (drop 0 (keyed_accounts system_context))) 5
   \<or> (\<exists>v. deserialize (nonce_codec example_params) (data (funded_store 5)) = Some v
        \<and> (case nonce_versions_state v of
             NonceUninitialized \<Rightarrow> 5 \<in> get_signers (drop 0 (keyed_accounts system_context))
           | NonceInitialized d \<Rightarrow> authority d \<in> get_signers (drop 0 (keyed_accounts system_context))))"
  by (rule system_debit_authorized [OF example_create])
    (simp add: created_store_def funded_store_def)




text \<open>
  C26: an advanced nonce cannot be advanced again in the same block: the first advance keeps the
  authority and stores the nonce of the current blockhash, a different one from before, and a second
  one fails as not expired.
\<close>

theorem advance_no_replay:
  assumes "codec_ok c" and "advance_nonce_account hashv c ic me signers s = Inr s'"
  shows "\<exists>v v' d d'. state c (s (key me)) = Inr v \<and> nonce_versions_state v = NonceInitialized d
      \<and> state c (s' (key me)) = Inr v' \<and> nonce_versions_state v' = NonceInitialized d'
      \<and> authority d' = authority d \<and> durable_nonce d' \<noteq> durable_nonce d
      \<and> advance_nonce_account hashv c ic me signers s'
          = Inl (nonce_to_instruction_error NotExpired (is_active ic merge_nonce_error_into_system_error))"
  using assms(2)
proof (rule advance_Inr)
  fix v and d :: nonce_data
  let ?n = "fst (get_durable_nonce hashv ic)"
  let ?d' = "nonce_data_new (authority d) ?n (lamports_per_signature ic)"
  let ?v' = "nonce_versions_new (NonceInitialized ?d') (snd (get_durable_nonce hashv ic))"
  assume old: "check_nonce_writable ic me = Inr ()" "state c (s (key me)) = Inr v"
      "nonce_versions_state v = NonceInitialized d" "authority d \<in> signers" "durable_nonce d \<noteq> ?n"
    and st: "store_nonce c ?v' (key me) s = Inr s'"
  have new: "state c (s' (key me)) = Inr ?v'" using assms(1) st by (rule store_nonce_reads_back)
  have "advance_nonce_account hashv c ic me signers s'
      = Inl (nonce_to_instruction_error NotExpired (is_active ic merge_nonce_error_into_system_error))"
    unfolding advance_nonce_account_def
    using old(1,4) new by (simp add: Let_def nonce_data_new_def case_prod_unfold)
  with old new show ?thesis
    by (intro exI [of _ v] exI [of _ ?v'] exI [of _ d] exI [of _ ?d']) (simp add: nonce_data_new_def)
qed

theorem advance_no_replay_witness:
  "\<exists>s'. advance_nonce_account (\<lambda>_. 0) unary_codec system_context
      \<lparr>is_signer = False, is_writable = True, key = 3\<rparr> {7} nonce_store = Inr s'
    \<and> advance_nonce_account (\<lambda>_. 0) unary_codec system_context
      \<lparr>is_signer = False, is_writable = True, key = 3\<rparr> {7} s' = Inl (Custom 1)"
proof -
  let ?me = "\<lparr>is_signer = False, is_writable = True, key = 3\<rparr> :: keyed_account"
  have c: "codec_ok (unary_codec :: nonce_versions codec)" by (rule codec_ok_unary)
  have "state unary_codec (nonce_store 3) = Inr (example_nonce 1)"
    using c by (simp add: state_def nonce_store_def nonce_account_def codec_ok_def)
  moreover have "\<exists>s'. store_nonce unary_codec (example_nonce 0) 3 nonce_store = Inr s'"
    by (simp add: store_nonce_def set_state_def nonce_store_def nonce_account_def Let_def)
  ultimately have "\<exists>s'. advance_nonce_account (\<lambda>_. 0) unary_codec system_context ?me {7} nonce_store = Inr s'"
    by (simp add: advance_nonce_account_def check_nonce_writable_def is_active_def system_context_def
        example_nonce_def nonce_data_new_def get_durable_nonce_def from_blockhash_def Let_def
        nonce_versions_new_def)
  then obtain s' where s': "advance_nonce_account (\<lambda>_. 0) unary_codec system_context ?me {7} nonce_store = Inr s'"
    by blast
  from advance_no_replay [OF c s'] s' show ?thesis
    by (auto simp: is_active_def system_context_def instruction_error_from_def)
qed

text \<open>
  Upgrading separates the domains of nonces and blockhashes once and for all: a legacy nonce is
  rejected as a recent blockhash once the domains are separate, its upgrade has the same authority
  and fee, is accepted exactly under the hash of the old value in the nonce domain, and cannot be
  upgraded again.
\<close>

lemma upgrade_separates_domains:
  assumes "upgrade hashv v = Some v'"
  shows "verify_recent_blockhash v h True = None \<and> separate_domains v' \<and> upgrade hashv v' = None
    \<and> (\<exists>d. nonce_versions_state v = NonceInitialized d
         \<and> verify_recent_blockhash v' h b =
             (if h = hashv [DURABLE_NONCE_HASH_PREFIX, bytes_of (durable_nonce d)]
              then Some (d\<lparr>durable_nonce := h\<rparr>) else None))"
  using assms
  by (induction hashv v rule: upgrade.induct)
    (auto simp: verify_recent_blockhash_def from_blockhash_def)

text \<open>
  Every nonce error survives the passage through an instruction error and back, in both the old
  and the system encoding.
\<close>

lemma nonce_error_roundtrip:
  "instruction_to_nonce_error (nonce_to_instruction_error e b) b = Some e"
  by (cases e; cases b) (simp_all add: instruction_to_nonce_error_def instruction_error_from_def)

text \<open>
  A withdrawal from an initialised nonce account to another account either leaves it rent exempt
  or empties it and deinitialises its state, and the latter only if its nonce has expired.
\<close>

lemma nonce_withdraw_keeps_rent:
  assumes "codec_ok c" and "withdraw_nonce_account hashv c ic me n t r signers s = Inr s'" and "key me \<noteq> t"
    and "state c (s (key me)) = Inr v" and "nonce_versions_state v = NonceInitialized d"
  shows "is_exempt r (lamports (s' (key me))) (length (data (s' (key me))))
    \<or> lamports (s' (key me)) = 0 \<and> durable_nonce d \<noteq> fst (get_durable_nonce hashv ic)
       \<and> (\<exists>v'. state c (s' (key me)) = Inr v' \<and> nonce_versions_state v' = NonceUninitialized)"
proof (cases "n = lamports (s (key me))")
  case True
  with assms(2-5) obtain s1 where
    st: "store_nonce c (nonce_versions_new NonceUninitialized (snd (get_durable_nonce hashv ic))) (key me) s
       = Inr s1"
    and ne: "durable_nonce d \<noteq> fst (get_durable_nonce hashv ic)"
    and me: "s' (key me) = (s1 (key me))\<lparr>lamports := lamports (s1 (key me)) - n\<rparr>"
    by (auto simp: withdraw_nonce_account_def bind_r_Inr Let_def ok_or_Inr word_ops
        split: if_splits prod.splits)
  have "state c (s1 (key me)) = Inr (nonce_versions_new NonceUninitialized (snd (get_durable_nonce hashv ic)))"
    using assms(1) st by (rule store_nonce_reads_back)
  with me ne True store_nonce_frame(2) [OF st, of "key me"] show ?thesis by (simp add: state_def)
next
  case False
  with assms(2-5) have "unat n + unat (minimum_balance r (length (data (s (key me))))) < 2 ^ 64"
    "n + minimum_balance r (length (data (s (key me)))) \<le> lamports (s (key me))"
    and me: "s' (key me) = (s (key me))\<lparr>lamports := lamports (s (key me)) - n\<rparr>"
    by (auto simp: withdraw_nonce_account_def bind_r_Inr Let_def ok_or_Inr word_ops
        split: if_splits prod.splits)
  then have "minimum_balance r (length (data (s (key me)))) \<le> lamports (s (key me)) - n"
    using unat_add_no_wrap [of n "minimum_balance r (length (data (s (key me))))"]
    by (simp add: word_le_nat_alt unat_sub_if')
  with me show ?thesis by (simp add: is_exempt_def)
qed


end
