(* ===== verification/Short_Vec.thy ===== *)
theory Short_Vec
  imports Prelude
begin

text \<open>
  The compact lengths and vectors of transactions, \<open>sdk/program/src/short_vec.rs\<close>: the encoder of
  \<open>ShortU16\<close>, the byte-wise decoder that rejects every non-canonical form, and vectors of elements
  whose own encoding is a parameter.
\<close>

section \<open>Encoding\<close>

function short_u16_serialize :: "u16 \<Rightarrow> u8 list" where
  "short_u16_serialize rem_val =
     (let elem = ucast (rem_val AND 0x7f) :: u8;
          rem_val' = drop_bit 7 rem_val
      in if rem_val' = 0 then [elem] else (elem OR 0x80) # short_u16_serialize rem_val')"
  by pat_completeness auto

lemma drop_bit_decreases: "drop_bit 7 (w :: u16) \<noteq> 0 \<Longrightarrow> unat (drop_bit 7 w) < unat w"
  by (simp add: unsigned_drop_bit_eq drop_bit_eq_div unat_div unat_eq_zero [symmetric] del: unat_eq_zero)

termination short_u16_serialize
  by (relation "measure unat") (auto intro: drop_bit_decreases)

declare short_u16_serialize.simps [simp del]

section \<open>Decoding\<close>

datatype visit_status = Done u16 | More u16

datatype visit_error = TooLong nat | TooShort nat | Overflow u32 | Alias | ByteThreeContinues

definition MAX_ENCODING_LENGTH :: nat where
  "MAX_ENCODING_LENGTH = 3"

definition visit_byte :: "u8 \<Rightarrow> u16 \<Rightarrow> nat \<Rightarrow> (visit_error, visit_status) result" where
  "visit_byte elem val nth_byte =
     (if elem = 0 \<and> nth_byte \<noteq> 0 then Inl Alias
      else
        let val = ucast val :: u32;
            elem = ucast elem :: u32;
            elem_val = elem AND 0x7f;
            elem_done = (elem AND 0x80 = 0)
        in if nth_byte \<ge> MAX_ENCODING_LENGTH then Inl (TooLong (nth_byte + 1))
           else if nth_byte = MAX_ENCODING_LENGTH - 1 \<and> \<not> elem_done then Inl ByteThreeContinues
           else
             let shift = saturating_mul (if nth_byte < 2 ^ 32 then of_nat nth_byte else max_val :: u32) 7;
                 elem_val = (if unat shift < 32 then push_bit (unat shift) elem_val else max_val);
                 new_val = val OR elem_val
             in if unat new_val < 2 ^ 16
                then Inr (if elem_done then Done (ucast new_val) else More (ucast new_val))
                else Inl (Overflow new_val))"

text \<open>
  \<open>ShortU16Visitor::visit_seq\<close>: the loop over \<open>nth_byte\<close> from the given one on, with the elements of
  the sequence still to come; the rest of the sequence is returned with the value.
\<close>

function visit_seq_from :: "nat \<Rightarrow> u16 \<Rightarrow> u8 list \<Rightarrow> (visit_error, u16 \<times> u8 list) result" where
  "visit_seq_from nth_byte val bytes =
     (if nth_byte \<ge> MAX_ENCODING_LENGTH then Inl ByteThreeContinues
      else case bytes of
        [] \<Rightarrow> Inl (TooShort (nth_byte + 1))
      | elem # rest \<Rightarrow>
          bind_r (visit_byte elem val nth_byte) (\<lambda>st.
          case st of
            Done new_val \<Rightarrow> Inr (new_val, rest)
          | More new_val \<Rightarrow> visit_seq_from (nth_byte + 1) new_val rest))"
  by pat_completeness auto
termination visit_seq_from
  by (relation "measure (\<lambda>(n, _, _). 3 - n)") (auto simp: MAX_ENCODING_LENGTH_def)

definition short_u16_deserialize :: "u8 list \<Rightarrow> (visit_error, u16 \<times> u8 list) result" where
  "short_u16_deserialize bytes = visit_seq_from 0 0 bytes"

text \<open>\<open>decode_shortu16_len\<close>: the loop over the first three bytes; \<open>Err(())\<close> is \<open>None\<close>.\<close>

fun decode_shortu16_len_loop :: "nat \<Rightarrow> u16 \<Rightarrow> u8 list \<Rightarrow> (nat \<times> nat) option" where
  "decode_shortu16_len_loop nth_byte val [] = None"
| "decode_shortu16_len_loop nth_byte val (byte # bytes) =
     (case visit_byte byte val nth_byte of
        Inl _ \<Rightarrow> None
      | Inr (More new_val) \<Rightarrow> decode_shortu16_len_loop (nth_byte + 1) new_val bytes
      | Inr (Done new_val) \<Rightarrow> Some (unat new_val, nth_byte + 1))"

definition decode_shortu16_len :: "u8 list \<Rightarrow> (nat \<times> nat) option" where
  "decode_shortu16_len bytes = decode_shortu16_len_loop 0 0 (take MAX_ENCODING_LENGTH bytes)"

section \<open>Vectors\<close>

text \<open>
  The serde data format is not part of the repository: how one element is written
  (\<open>serialize_element\<close>) and how the next one is read (\<open>next_element\<close>, which may fail, report the end
  of the sequence, or return the element and what follows) are parameters.
\<close>

datatype 'e short_vec_error = LengthLargerThanU16 | BadLength visit_error | BadElement 'e | InvalidLength nat

definition short_vec_serialize :: "('a \<Rightarrow> u8 list) \<Rightarrow> 'a list \<Rightarrow> ('e short_vec_error, u8 list) result" where
  "short_vec_serialize serialize_element elements =
     (let len = length elements
      in if len > unat (max_val :: u16) then Inl LengthLargerThanU16
         else Inr (short_u16_serialize (of_nat len) @ concat (map serialize_element elements)))"

text \<open>The loop of \<open>ShortVecVisitor::visit_seq\<close>, with \<open>todo\<close> elements left after the \<open>i\<close> read so far.\<close>

fun short_vec_visit ::
  "(u8 list \<Rightarrow> ('e, ('a \<times> u8 list) option) result) \<Rightarrow> nat \<Rightarrow> nat \<Rightarrow> u8 list
     \<Rightarrow> ('e short_vec_error, 'a list \<times> u8 list) result" where
  "short_vec_visit next_element i 0 bytes = Inr ([], bytes)"
| "short_vec_visit next_element i (Suc todo) bytes =
     bind_r (map_err BadElement (next_element bytes)) (\<lambda>e.
     bind_r (ok_or e (InvalidLength i)) (\<lambda>(elem, rest).
     bind_r (short_vec_visit next_element (i + 1) todo rest) (\<lambda>(result, rest').
       Inr (elem # result, rest'))))"

definition short_vec_deserialize ::
  "(u8 list \<Rightarrow> ('e, ('a \<times> u8 list) option) result) \<Rightarrow> u8 list
     \<Rightarrow> ('e short_vec_error, 'a list \<times> u8 list) result" where
  "short_vec_deserialize next_element bytes =
     bind_r (map_err BadLength (short_u16_deserialize bytes)) (\<lambda>(short_len, rest).
       short_vec_visit next_element 0 (unat short_len) rest)"

section \<open>The encoding in arithmetic\<close>

lemma or_eq_add_low:
  assumes "a < 2 ^ k"
  shows "a OR (b * 2 ^ k) = a + b * (2 ^ k :: nat)"
proof -
  have low: "bit a n \<Longrightarrow> n < k" for n
    using assms by (metis bit_take_bit_iff take_bit_nat_eq_self)
  have "a AND push_bit k b = 0"
    by (rule bit_eqI) (use low in \<open>force simp: bit_and_iff bit_push_bit_iff\<close>)
  then have "a + push_bit k b = a OR push_bit k b" by (rule disjunctive_add_eq_or)
  then show ?thesis by (simp add: push_bit_eq_mult)
qed

lemma and_127: "n AND 127 = n mod (128 :: nat)"
  using take_bit_eq_mask [of 7 n] by (simp add: take_bit_eq_mod mask_eq_exp_minus_1)

lemma and_128:
  assumes "n < 256"
  shows "n AND 128 = 0 \<longleftrightarrow> n < (128 :: nat)"
proof -
  have "n div 128 < 2" using assms by (simp add: less_mult_imp_div_less)
  then have "even (n div 128) \<longleftrightarrow> n div 128 = 0" by (auto simp: less_2_cases_iff)
  then show ?thesis using and_exp_eq_0_iff_not_bit [of n 7] by (auto simp: bit_iff_odd)
qed

lemma ucast_of_unat: "ucast w = of_nat (unat w)"
  by simp

lemma low_bits: "ucast (w AND 0x7f) = (of_nat (unat w mod 128) :: u8)" for w :: u16
proof -
  have "unat (w AND 0x7f) = unat w mod 128" by (simp add: unsigned_and_eq and_127)
  then show ?thesis by (metis ucast_of_unat)
qed

lemma div_128_fits: "unat w div 128 < 2 ^ 16" for w :: u16
  using unat_less_exp [of w] by simp

lemma high_bits: "drop_bit 7 w = of_nat (unat w div 128)" for w :: u16
  using div_128_fits [of w]
  by (simp add: word_unat_eq_iff drop_bit_eq_div unat_of_nat_fits unat_div)

lemma set_continue:
  assumes "n < 128"
  shows "(of_nat n OR 0x80 :: u8) = of_nat (128 + n)"
proof -
  have "unat (0x80 :: u8) = 128" by simp
  moreover have "unat (of_nat n :: u8) = n" "unat (of_nat (128 + n) :: u8) = 128 + n"
    using assms by (simp_all add: unat_of_nat_fits del: of_nat_add)
  ultimately show ?thesis
    using or_eq_add_low [of n 7 1] assms unfolding word_unat_eq_iff unsigned_or_eq by simp
qed

lemma serialize_small: "unat w < 128 \<Longrightarrow> short_u16_serialize w = [of_nat (unat w)]"
  by (subst short_u16_serialize.simps) (simp add: Let_def low_bits high_bits)

lemma serialize_large:
  assumes "128 \<le> unat w"
  shows "short_u16_serialize w
     = of_nat (128 + unat w mod 128) # short_u16_serialize (of_nat (unat w div 128))"
proof -
  have "(of_nat (unat w div 128) :: u16) \<noteq> 0"
    using assms div_128_fits [of w] by (simp add: word_unat_eq_iff unat_of_nat_fits)
  then show ?thesis
    by (subst short_u16_serialize.simps) (simp add: Let_def low_bits high_bits set_continue del: of_nat_add)
qed

text \<open>One byte of the decoder, on the numbers: the byte extends the value by seven bits.\<close>

lemma visit_byte_arith:
  assumes n: "n < 3" and val: "unat val < 2 ^ (7 * n)"
  shows "visit_byte elem val n =
    (if elem = 0 \<and> n \<noteq> 0 then Inl Alias
     else if n = 2 \<and> 128 \<le> unat elem then Inl ByteThreeContinues
     else let new_val = unat val + unat elem mod 128 * 2 ^ (7 * n)
          in if new_val < 2 ^ 16 then Inr ((if unat elem < 128 then Done else More) (of_nat new_val))
             else Inl (Overflow (of_nat new_val)))"
proof -
  define new where "new = unat val + unat elem mod 128 * 2 ^ (7 * n)"
  have e: "unat (ucast elem :: u32) = unat elem" and v: "unat (ucast val :: u32) = unat val"
    by (simp_all add: unat_ucast_wider)
  have e8: "unat elem < 256" using unat_less_exp [of elem] by simp
  have low: "unat ((ucast elem :: u32) AND 0x7f) = unat elem mod 128"
    by (simp add: unsigned_and_eq e and_127)
  have fin: "(ucast elem :: u32) AND 0x80 = 0 \<longleftrightarrow> unat elem < 128"
    by (simp add: word_unat_eq_iff unsigned_and_eq e and_128 e8)
  have sh: "unat (saturating_mul (of_nat n) 7 :: u32) = 7 * n"
    using n by (simp add: saturating_mul_def unat_of_nat_fits unat_mul_no_wrap)
  have "2 ^ (7 * n) \<le> (2 :: nat) ^ 14" using n by (intro power_increasing) auto
  moreover have "unat elem mod 128 \<le> 127" by (simp add: less_Suc_eq_le [symmetric])
  ultimately have fits: "unat elem mod 128 * 2 ^ (7 * n) < 2 ^ 31"
    using mult_le_mono [of "unat elem mod 128" 127 "2 ^ (7 * n)" "2 ^ 14"] by simp
  then have "unat (push_bit (7 * n) ((ucast elem :: u32) AND 0x7f)) = unat elem mod 128 * 2 ^ (7 * n)"
    unfolding unsigned_push_bit_eq low by (simp add: push_bit_eq_mult take_bit_nat_eq_self)
  moreover define x where "x = (ucast val :: u32) OR push_bit (7 * n) ((ucast elem :: u32) AND 0x7f)"
  ultimately have x: "unat x = new"
    using or_eq_add_low [OF val, of "unat elem mod 128"] by (simp add: unsigned_or_eq v new_def)
  have in32: "(if n < 2 ^ 32 then of_nat n else max_val :: u32) = of_nat n" and s32: "7 * n < 32"
    using n by simp_all
  have "x = of_nat new" "ucast x = (of_nat new :: u16)" using x [symmetric] by simp_all
  with n x s32 show ?thesis
    unfolding visit_byte_def MAX_ENCODING_LENGTH_def new_def [symmetric] Let_def fin in32 sh
    by (simp add: x_def [symmetric] del: push_bit_and)
qed

declare visit_seq_from.simps [simp del]

lemma visit_seq_from_byte:
  "n < 3 \<Longrightarrow> visit_seq_from n val (elem # rest) =
     bind_r (visit_byte elem val n) (\<lambda>st.
       case st of Done new_val \<Rightarrow> Inr (new_val, rest) | More new_val \<Rightarrow> visit_seq_from (n + 1) new_val rest)"
  by (subst visit_seq_from.simps) (simp add: MAX_ENCODING_LENGTH_def)

lemma byte_value:
  "n < 256 \<Longrightarrow> unat (of_nat n :: u8) = n"
  by (simp add: unat_of_nat_fits)

text \<open>Decoding what the encoder wrote, from any position it can be at.\<close>

lemma decode_serialized:
  assumes "n < 3" and "unat val < 2 ^ (7 * n)" and "unat val + unat w * 2 ^ (7 * n) < 2 ^ 16"
    and "n \<noteq> 0 \<Longrightarrow> w \<noteq> 0"
  shows "visit_seq_from n val (short_u16_serialize w @ rest)
    = Inr (of_nat (unat val + unat w * 2 ^ (7 * n)), rest)"
  using assms
proof (induction "unat w" arbitrary: n val w rule: less_induct)
  case less
  show ?case
  proof (cases "unat w < 128")
    case True
    then have "unat (of_nat (unat w) :: u8) = unat w" by (intro byte_value) simp
    moreover have "n \<noteq> 0 \<Longrightarrow> (of_nat (unat w) :: u8) \<noteq> 0"
      using less.prems(4) calculation by (auto simp: word_unat_eq_iff)
    ultimately show ?thesis
      using less.prems True
      by (cases "n = 0") (simp_all add: serialize_small visit_seq_from_byte visit_byte_arith Let_def)
  next
    case False
    define e p v q where "e = 128 + unat w mod 128" and "p = (2 :: nat) ^ (7 * n)"
      and "v = unat val + unat w mod 128 * p" and "q = (of_nat (unat w div 128) :: u16)"
    have e: "unat (of_nat e :: u8) = e" by (rule byte_value) (simp add: e_def)
    have em: "e mod 128 = unat w mod 128" "128 \<le> e" by (simp_all add: e_def)
    have p: "2 ^ (7 * (n + 1)) = 128 * p" by (simp add: p_def power_add)
    have q: "unat q = unat w div 128" using div_128_fits [of w] by (simp add: q_def unat_of_nat_fits)
    have "128 * p \<le> unat w * p" using False by simp
    also have "\<dots> < 2 ^ 16" using less.prems(3) by (simp add: p_def)
    finally have "p < 2 ^ 9" by simp
    then have "7 * n < 9" unfolding p_def by (rule power_less_imp_less_exp [rotated]) simp
    then have n: "n < 2" by simp
    have "unat w * p = (unat w mod 128 + unat w div 128 * 128) * p" by simp
    then have "unat w * p = unat w mod 128 * p + unat w div 128 * (128 * p)"
      by (simp only: add_mult_distrib mult.assoc)
    then have total: "v + unat q * 2 ^ (7 * (n + 1)) = unat val + unat w * p"
      unfolding p q v_def by linarith
    then have fits: "v + unat q * 2 ^ (7 * (n + 1)) < 2 ^ 16" using less.prems(3) by (simp add: p_def)
    then have v: "unat (of_nat v :: u16) = v" by (intro unat_of_nat_fits) simp
    have "unat w mod 128 * p \<le> 127 * p"
      by (intro mult_le_mono1) (simp add: less_Suc_eq_le [symmetric])
    moreover have "unat val < p" using less.prems(2) by (simp add: p_def)
    ultimately have small: "v < 2 ^ (7 * (n + 1))" unfolding p v_def by linarith
    have "unat q < unat w" "q \<noteq> 0" using False by (auto simp: q word_unat_eq_iff)
    then have IH: "visit_seq_from (n + 1) (of_nat v) (short_u16_serialize q @ rest)
        = Inr (of_nat (unat val + unat w * p), rest)"
      using n small fits [unfolded total]
      by (intro less.hyps [of q "n + 1" "of_nat v", unfolded v total]) auto
    have "visit_byte (of_nat e) val n = Inr (More (of_nat v))"
    proof -
      have "(of_nat e :: u8) \<noteq> 0" using e em(2) by (auto simp: word_unat_eq_iff)
      then show ?thesis
        using n fits e em less.prems(2) visit_byte_arith [of n val "of_nat e"]
        by (simp add: v_def p_def Let_def)
    qed
    then show ?thesis
      using IH n False
      by (simp add: serialize_large visit_seq_from_byte e_def [symmetric] q_def [symmetric] p_def del: of_nat_add)
  qed
qed

text \<open>Whatever decodes is what the encoder writes.\<close>

lemma decode_canonical:
  assumes "visit_seq_from n val bytes = Inr (r, rest)" and "unat val < 2 ^ (7 * n)"
  shows "\<exists>w. bytes = short_u16_serialize w @ rest \<and> unat r = unat val + unat w * 2 ^ (7 * n) \<and> (n \<noteq> 0 \<longrightarrow> w \<noteq> 0)"
  using assms
proof (induction bytes arbitrary: n val)
  case Nil
  then show ?case by (subst (asm) visit_seq_from.simps) (auto split: if_splits)
next
  case (Cons e tl)
  from Cons.prems(1) have n: "n < 3"
    by (subst (asm) visit_seq_from.simps) (auto simp: MAX_ENCODING_LENGTH_def split: if_splits)
  define p new where "p = (2 :: nat) ^ (7 * n)" and "new = unat val + unat e mod 128 * p"
  have p: "2 ^ (7 * (n + 1)) = 128 * p" "0 < p" by (simp_all add: p_def power_add)
  note vb = visit_byte_arith [OF n Cons.prems(2), of e, folded p_def, folded new_def]
  from Cons.prems(1) obtain st where st: "visit_byte e val n = Inr st"
    unfolding visit_seq_from_byte [OF n] by (auto simp: bind_r_Inr)
  then have e0: "n \<noteq> 0 \<longrightarrow> e \<noteq> 0" and lt: "new < 2 ^ 16"
    and st_def: "st = (if unat e < 128 then Done else More) (of_nat new)"
    unfolding vb Let_def by (auto split: if_splits)
  have new: "unat (of_nat new :: u16) = new" using lt by (simp add: unat_of_nat_fits)
  show ?case
  proof (cases "unat e < 128")
    case True
    then have r: "r = of_nat new" "rest = tl"
      using Cons.prems(1) st st_def unfolding visit_seq_from_byte [OF n] by auto
    have w: "unat (of_nat (unat e) :: u16) = unat e" using True by (intro unat_of_nat_fits) simp
    then have "short_u16_serialize (of_nat (unat e)) = [e]" using True by (simp add: serialize_small)
    moreover have "n \<noteq> 0 \<longrightarrow> (of_nat (unat e) :: u16) \<noteq> 0" using e0 w by (auto simp: word_unat_eq_iff)
    ultimately show ?thesis
      using True r w new by (intro exI [of _ "of_nat (unat e)"]) (simp add: new_def p_def)
  next
    case False
    then have rec: "visit_seq_from (n + 1) (of_nat new) tl = Inr (r, rest)"
      using Cons.prems(1) st st_def unfolding visit_seq_from_byte [OF n] by auto
    have "unat e mod 128 * p \<le> 127 * p"
      by (intro mult_le_mono1) (simp add: less_Suc_eq_le [symmetric])
    moreover have "unat val < p" using Cons.prems(2) by (simp add: p_def)
    ultimately have "unat (of_nat new :: u16) < 2 ^ (7 * (n + 1))"
      unfolding new p unfolding new_def by linarith
    from Cons.IH [OF rec this] obtain w' where w': "tl = short_u16_serialize w' @ rest"
      "unat r = new + unat w' * (128 * p)" "w' \<noteq> 0" unfolding new p by auto
    define m where "m = unat e mod 128 + 128 * unat w'"
    have r: "unat r = unat val + m * p" using w'(2) by (simp add: m_def new_def algebra_simps)
    have "m \<le> m * p" using p(2) by simp
    also have "\<dots> \<le> unat r" using r by simp
    finally have w: "unat (of_nat m :: u16) = m"
      using unat_less_exp [of r] by (intro unat_of_nat_fits) simp
    have "128 + unat e mod 128 = unat e"
      using False unat_less_exp [of e] by (simp add: mod_if [of "unat e"])
    moreover have "128 \<le> m" "m mod 128 = unat e mod 128" "m div 128 = unat w'"
      using w'(3) by (auto simp: m_def word_unat_eq_iff)
    ultimately have "short_u16_serialize (of_nat m) = e # short_u16_serialize w'"
      using serialize_large [of "of_nat m"] w by (simp del: of_nat_add)
    moreover have "(of_nat m :: u16) \<noteq> 0" using w \<open>128 \<le> m\<close> by (auto simp: word_unat_eq_iff)
    ultimately show ?thesis
      using w' r w by (intro exI [of _ "of_nat m"]) (simp add: p_def)
  qed
qed

lemma visit_seq_from_rest:
  assumes "visit_seq_from n val bytes = Inr (r, rest)"
  shows "length rest \<le> length bytes"
  using assms
proof (induction bytes arbitrary: n val)
  case Nil
  then show ?case by (subst (asm) visit_seq_from.simps) (simp split: if_splits)
next
  case (Cons e tl)
  from Cons.prems have "rest = tl \<or> (\<exists>v. visit_seq_from (n + 1) v tl = Inr (r, rest))"
    by (subst (asm) visit_seq_from.simps)
      (auto split: if_splits visit_status.splits elim!: bind_r_InrE)
  with Cons.IH show ?case by (auto simp: le_SucI)
qed

lemma decode_loop_eq:
  "n \<le> 3 \<Longrightarrow> decode_shortu16_len_loop n val (take (3 - n) bytes) =
     (case visit_seq_from n val bytes of
        Inl _ \<Rightarrow> None | Inr (r, rest) \<Rightarrow> Some (unat r, n + (length bytes - length rest)))"
proof (induction bytes arbitrary: n val)
  case Nil
  then show ?case by (subst visit_seq_from.simps) simp
next
  case (Cons e tl)
  show ?case
  proof (cases "n = 3")
    case True
    then show ?thesis by (subst visit_seq_from.simps) (simp add: MAX_ENCODING_LENGTH_def)
  next
    case False
    with Cons.prems obtain m where m: "3 - n = Suc m" "n < 3" by (metis Suc_diff_Suc le_neq_implies_less)
    then have m': "m = 3 - (n + 1)" by simp
    have len: "length rest \<le> length tl" if "visit_seq_from (n + 1) v tl = Inr (r, rest)" for v r rest
      using that visit_seq_from_rest by blast
    show ?thesis
      using Cons.IH [of "n + 1"] m(2) len
      by (auto simp: m(1) visit_seq_from_byte m' Suc_diff_le split: sum.splits visit_status.splits)
  qed
qed

section \<open>Properties\<close>

text \<open>
  C37: a vector of at most 65535 elements reads back exactly, whatever follows it, for every data
  format whose next element after a written element is that element; a longer vector is refused.
\<close>

theorem short_vec_roundtrip:
  assumes "\<And>x rest. next_element (serialize_element x @ rest) = Inr (Some (x, rest))"
  shows "if length xs \<le> 65535
    then \<exists>bytes. short_vec_serialize serialize_element xs = Inr bytes
           \<and> short_vec_deserialize next_element (bytes @ rest) = Inr (xs, rest)
    else short_vec_serialize serialize_element xs = Inl LengthLargerThanU16"
proof -
  have visit: "short_vec_visit next_element i (length xs) (concat (map serialize_element xs) @ rest) = Inr (xs, rest)"
    for i xs
    by (induction xs arbitrary: i) (simp_all add: assms)
  have "visit_seq_from 0 0 (short_u16_serialize w @ b) = Inr (w, b)" for w b
    using decode_serialized [of 0 0 w b] unat_less_exp [of w] by simp
  moreover have max16: "unat (max_val :: u16) = 65535" by simp
  ultimately show ?thesis
    using visit [of 0 xs]
    by (auto simp: short_vec_serialize_def short_vec_deserialize_def short_u16_deserialize_def max16
        unat_of_nat_fits)
qed

theorem short_vec_roundtrip_witness:
  "\<exists>bytes. short_vec_serialize (\<lambda>x. [x]) [1, 2, 3 :: u8] = Inr bytes
     \<and> short_vec_deserialize (\<lambda>bs. Inr (case bs of [] \<Rightarrow> None | b # rest \<Rightarrow> Some (b, rest))) (bytes @ [9])
         = (Inr ([1, 2, 3], [9]) :: (unit short_vec_error, u8 list \<times> u8 list) result)"
  using short_vec_roundtrip
    [of "\<lambda>bs. Inr (case bs of [] \<Rightarrow> None | b # rest \<Rightarrow> Some (b, rest)) :: (unit, (u8 \<times> u8 list) option) result"
      "\<lambda>x. [x]" "[1, 2, 3]" "[9]"] by simp

text \<open>
  C36: the encoding of lengths is one-to-one: whatever byte sequence decodes to a length begins with
  the encoding of that length, and decoding consumes exactly that prefix; no alias is accepted.
\<close>

theorem short_u16_canonical:
  "short_u16_deserialize bytes = Inr (v, rest) \<longleftrightarrow> bytes = short_u16_serialize v @ rest"
proof
  assume "short_u16_deserialize bytes = Inr (v, rest)"
  then obtain w where "bytes = short_u16_serialize w @ rest" "unat v = unat w"
    using decode_canonical [of 0 0 bytes v rest] by (auto simp: short_u16_deserialize_def)
  then show "bytes = short_u16_serialize v @ rest" by (simp add: word_unat_eq_iff [symmetric])
next
  assume "bytes = short_u16_serialize v @ rest"
  then show "short_u16_deserialize bytes = Inr (v, rest)"
    using decode_serialized [of 0 0 v rest] unat_less_exp [of v] by (simp add: short_u16_deserialize_def)
qed

text \<open>
  C38: the stand-alone decoder of lengths agrees with the serde visitor on every input: it succeeds
  exactly when the visitor does, with the same value and the number of bytes the visitor consumed.
\<close>

theorem decode_shortu16_len_equiv:
  "decode_shortu16_len bytes =
     (case short_u16_deserialize bytes of
        Inl _ \<Rightarrow> None | Inr (v, rest) \<Rightarrow> Some (unat v, length bytes - length rest))"
  using decode_loop_eq [of 0 0 bytes]
  by (simp add: decode_shortu16_len_def short_u16_deserialize_def MAX_ENCODING_LENGTH_def
      split: sum.splits prod.splits)

end
