(* ===== verification/Epoch_Schedule.thy ===== *)
theory Epoch_Schedule
  imports Prelude
begin

text \<open>
  Epochs and slots, \<open>sdk/program/src/epoch_schedule.rs\<close>: the schedule with its optional warmup, in
  which epochs start with 32 slots and double until they reach the full length, and the maps between
  slots and epochs.
\<close>

definition DEFAULT_TICKS_PER_SECOND :: u64 where
  "DEFAULT_TICKS_PER_SECOND = 160"

definition DEFAULT_TICKS_PER_SLOT :: u64 where
  "DEFAULT_TICKS_PER_SLOT = 64"

definition SECONDS_PER_DAY :: u64 where
  "SECONDS_PER_DAY = 24 * 60 * 60"

definition TICKS_PER_DAY :: u64 where
  "TICKS_PER_DAY = DEFAULT_TICKS_PER_SECOND * SECONDS_PER_DAY"

definition DEFAULT_SLOTS_PER_EPOCH :: u64 where
  "DEFAULT_SLOTS_PER_EPOCH = 2 * TICKS_PER_DAY div DEFAULT_TICKS_PER_SLOT"

definition DEFAULT_LEADER_SCHEDULE_SLOT_OFFSET :: u64 where
  "DEFAULT_LEADER_SCHEDULE_SLOT_OFFSET = DEFAULT_SLOTS_PER_EPOCH"

definition MINIMUM_SLOTS_PER_EPOCH :: u64 where
  "MINIMUM_SLOTS_PER_EPOCH = 32"

record epoch_schedule =
  slots_per_epoch :: u64
  leader_schedule_slot_offset :: u64
  warmup :: bool
  first_normal_epoch :: u64
  first_normal_slot :: u64

text \<open>\<open>None\<close> is the failed assertion on the number of slots.\<close>

definition custom :: "u64 \<Rightarrow> u64 \<Rightarrow> bool \<Rightarrow> epoch_schedule option" where
  "custom spe offset wup =
     (if \<not> MINIMUM_SLOTS_PER_EPOCH \<le> spe then None
      else
        let (first_epoch, first_slot) =
          (if wup then
             let npot = next_power_of_two spe;
                 log2_spe = saturating_sub (trailing_zeros npot) (trailing_zeros MINIMUM_SLOTS_PER_EPOCH)
             in (ucast log2_spe, saturating_sub npot MINIMUM_SLOTS_PER_EPOCH)
           else (0, 0))
        in Some \<lparr>slots_per_epoch = spe, leader_schedule_slot_offset = offset, warmup = wup,
                 first_normal_epoch = first_epoch, first_normal_slot = first_slot\<rparr>)"

definition epoch_schedule_new :: "u64 \<Rightarrow> epoch_schedule option" where
  "epoch_schedule_new spe = custom spe spe True"

definition without_warmup :: "epoch_schedule option" where
  "without_warmup = custom DEFAULT_SLOTS_PER_EPOCH DEFAULT_LEADER_SCHEDULE_SLOT_OFFSET False"

definition epoch_schedule_default :: "epoch_schedule option" where
  "epoch_schedule_default = custom DEFAULT_SLOTS_PER_EPOCH DEFAULT_LEADER_SCHEDULE_SLOT_OFFSET True"

definition get_slots_in_epoch :: "epoch_schedule \<Rightarrow> u64 \<Rightarrow> u64" where
  "get_slots_in_epoch es epoch =
     (if epoch < first_normal_epoch es
      then saturating_pow 2 (saturating_add (ucast epoch) (trailing_zeros MINIMUM_SLOTS_PER_EPOCH))
      else slots_per_epoch es)"

definition get_epoch_and_slot_index :: "epoch_schedule \<Rightarrow> u64 \<Rightarrow> u64 \<times> u64" where
  "get_epoch_and_slot_index es slot =
     (if slot < first_normal_slot es then
        let epoch =
              saturating_sub
                (saturating_sub
                  (trailing_zeros (next_power_of_two
                    (saturating_add (saturating_add slot MINIMUM_SLOTS_PER_EPOCH) 1)))
                  (trailing_zeros MINIMUM_SLOTS_PER_EPOCH))
                1;
            epoch_len = saturating_pow 2 (saturating_add epoch (trailing_zeros MINIMUM_SLOTS_PER_EPOCH))
        in (ucast epoch, saturating_sub slot (saturating_sub epoch_len MINIMUM_SLOTS_PER_EPOCH))
      else
        let normal_slot_index = saturating_sub slot (first_normal_slot es);
            normal_epoch_index = unwrap_or (checked_div normal_slot_index (slots_per_epoch es)) 0;
            epoch = saturating_add (first_normal_epoch es) normal_epoch_index;
            slot_index = unwrap_or (checked_rem normal_slot_index (slots_per_epoch es)) 0
        in (epoch, slot_index))"

definition get_epoch :: "epoch_schedule \<Rightarrow> u64 \<Rightarrow> u64" where
  "get_epoch es slot = fst (get_epoch_and_slot_index es slot)"

definition get_leader_schedule_epoch :: "epoch_schedule \<Rightarrow> u64 \<Rightarrow> u64" where
  "get_leader_schedule_epoch es slot =
     (if slot < first_normal_slot es
      then saturating_add (fst (get_epoch_and_slot_index es slot)) 1
      else
        let new_slots_since_first_normal_slot = saturating_sub slot (first_normal_slot es);
            new_first_normal_leader_schedule_slot =
              saturating_add new_slots_since_first_normal_slot (leader_schedule_slot_offset es);
            new_epochs_since_first_normal_leader_schedule =
              unwrap_or (checked_div new_first_normal_leader_schedule_slot (slots_per_epoch es)) 0
        in saturating_add (first_normal_epoch es) new_epochs_since_first_normal_leader_schedule)"

definition get_first_slot_in_epoch :: "epoch_schedule \<Rightarrow> u64 \<Rightarrow> u64" where
  "get_first_slot_in_epoch es epoch =
     (if epoch \<le> first_normal_epoch es
      then saturating_mul (saturating_sub (saturating_pow 2 (ucast epoch)) 1) MINIMUM_SLOTS_PER_EPOCH
      else
        saturating_add
          (saturating_mul (saturating_sub epoch (first_normal_epoch es)) (slots_per_epoch es))
          (first_normal_slot es))"

definition get_last_slot_in_epoch :: "epoch_schedule \<Rightarrow> u64 \<Rightarrow> u64" where
  "get_last_slot_in_epoch es epoch =
     saturating_sub (saturating_add (get_first_slot_in_epoch es epoch) (get_slots_in_epoch es epoch)) 1"

section \<open>Powers of two\<close>

lemma next_pow2_exp_upper: "n \<le> 2 ^ next_pow2_exp n k"
  by (induction n k rule: next_pow2_exp.induct) (subst next_pow2_exp.simps, simp)

lemma next_pow2_exp_unique:
  assumes "k \<le> j" and "n \<le> 2 ^ j" and "k < j \<Longrightarrow> 2 ^ (j - 1) < n"
  shows "next_pow2_exp n k = j"
  using assms
proof (induction "j - k" arbitrary: k)
  case 0
  then show ?case by (subst next_pow2_exp.simps) simp
next
  case (Suc d)
  then have "(2 :: nat) ^ k \<le> 2 ^ (j - 1)" by (intro power_increasing) auto
  also have "\<dots> < n" using Suc by simp
  finally show ?case using Suc by (subst next_pow2_exp.simps) simp
qed

lemma next_pow2_exp_bounds:
  fixes n k
  defines "j \<equiv> next_pow2_exp n k"
  shows "n \<le> 2 ^ j" and "k \<le> j" and "k < j \<Longrightarrow> 2 ^ (j - 1) < n"
proof -
  show "n \<le> 2 ^ j" unfolding j_def by (rule next_pow2_exp_upper)
  have "k \<le> next_pow2_exp n k \<and> (k < next_pow2_exp n k \<longrightarrow> 2 ^ (next_pow2_exp n k - 1) < n)"
  proof (induction n k rule: next_pow2_exp.induct)
    case (1 n k)
    show ?case
    proof (cases "n \<le> 2 ^ k")
      case True
      then show ?thesis by (subst (1 2 3) next_pow2_exp.simps) simp
    next
      case False
      then have eq: "next_pow2_exp n k = next_pow2_exp n (Suc k)" by (subst next_pow2_exp.simps) simp
      show ?thesis
      proof (cases "Suc k < next_pow2_exp n (Suc k)")
        case True
        with 1 False show ?thesis unfolding eq by simp
      next
        case f: False
        with 1 [OF False] have "next_pow2_exp n (Suc k) = Suc k" by simp
        with False show ?thesis unfolding eq by simp
      qed
    qed
  qed
  then show "k \<le> j" "k < j \<Longrightarrow> 2 ^ (j - 1) < n" unfolding j_def by simp_all
qed

lemma of_nat_of_unat: "unat x = n \<Longrightarrow> x = of_nat n"
  by auto

lemma min_add_left: "min (min a c + b) c = min (a + b) (c :: nat)"
  by (simp add: min_def)

lemma unat_pow2: "j < 64 \<Longrightarrow> unat (2 ^ j :: u64) = 2 ^ j"
  using unat_power_no_wrap [of "2 :: u64" j] power_strict_increasing [of j 64 "2 :: nat"] by simp

lemma trailing_zeros_from_pow2:
  "j < k + fuel \<Longrightarrow> k \<le> j \<Longrightarrow> j < 64 \<Longrightarrow> trailing_zeros_from fuel k (2 ^ j) = j"
  by (induction fuel arbitrary: k) (auto simp: bit_exp_iff Suc_le_eq dest: order_le_imp_less_or_eq)

lemma unat_trailing_zeros_pow2: "j < 64 \<Longrightarrow> unat (trailing_zeros (2 ^ j)) = j"
  by (simp add: trailing_zeros_def trailing_zeros_from_pow2 unat_of_nat_fits)

lemma trailing_zeros_minimum: "unat (trailing_zeros MINIMUM_SLOTS_PER_EPOCH) = 5"
  using unat_trailing_zeros_pow2 [of 5] by (simp add: MINIMUM_SLOTS_PER_EPOCH_def)

section \<open>Well-formed schedules\<close>

text \<open>
  The shape both kinds of schedule have: for some \<open>m\<close>, the first normal epoch is \<open>m - 5\<close> and starts
  at slot \<open>2 ^ m - 32\<close>; without warmup \<open>m\<close> is 5.
\<close>

definition schedule_ok :: "epoch_schedule \<Rightarrow> nat \<Rightarrow> bool" where
  "schedule_ok es m \<longleftrightarrow> 5 \<le> m \<and> m \<le> 63 \<and> 32 \<le> unat (slots_per_epoch es)
     \<and> unat (first_normal_epoch es) = m - 5 \<and> unat (first_normal_slot es) = 2 ^ m - 32"

lemma custom_ok:
  assumes "custom spe offset wup = Some es" and "spe \<le> 2 ^ 63"
  obtains m where "schedule_ok es m" and "\<not> wup \<Longrightarrow> m = 5"
    and "slots_per_epoch es = spe" and "leader_schedule_slot_offset es = offset"
proof -
  have spe: "32 \<le> unat spe" "unat spe \<le> 2 ^ 63"
    using assms by (auto simp: custom_def MINIMUM_SLOTS_PER_EPOCH_def word_le_nat_alt split: if_splits)
  show ?thesis
  proof (cases wup)
    case True
    define m where "m = next_pow2_exp (unat spe) 0"
    have up: "unat spe \<le> 2 ^ m" and low: "0 < m \<Longrightarrow> 2 ^ (m - 1) < unat spe"
      unfolding m_def using next_pow2_exp_bounds [where n = "unat spe" and k = 0] by auto
    have "(2 :: nat) ^ 5 \<le> 2 ^ m" using spe(1) up by simp
    then have "5 \<le> m" by (rule power_le_imp_le_exp [rotated]) simp
    moreover have "(2 :: nat) ^ (m - 1) < 2 ^ 63" using calculation low spe(2) by simp
    then have "m - 1 < 63" by (rule power_less_imp_less_exp [rotated]) simp
    ultimately have m: "5 \<le> m" "m \<le> 63" by auto
    then have npot: "next_power_of_two spe = 2 ^ m" "unat (2 ^ m :: u64) = 2 ^ m"
      by (simp_all add: next_power_of_two_def m_def unat_pow2)
    have tz: "unat (saturating_sub (trailing_zeros (2 ^ m)) (trailing_zeros MINIMUM_SLOTS_PER_EPOCH)) = m - 5"
      using m by (simp add: unat_saturating_sub unat_trailing_zeros_pow2 trailing_zeros_minimum)
    have "schedule_ok es m"
      using assms(1) True m spe npot tz
      by (auto simp: custom_def schedule_ok_def unat_ucast_wider unat_saturating_sub Let_def
          MINIMUM_SLOTS_PER_EPOCH_def split: if_splits)
    then show ?thesis
      using that assms(1) True by (auto simp: custom_def Let_def split: if_splits)
  next
    case False
    have "schedule_ok es 5"
      using assms(1) False spe by (auto simp: custom_def schedule_ok_def split: if_splits)
    then show ?thesis
      using that assms(1) False by (auto simp: custom_def split: if_splits)
  qed
qed

text \<open>The slots of an epoch and its first slot, on the numbers.\<close>

lemma slots_in_epoch:
  assumes "schedule_ok es m"
  shows "unat (get_slots_in_epoch es e) =
    (if unat e < m - 5 then 2 ^ (unat e + 5) else unat (slots_per_epoch es))"
proof (cases "unat e < m - 5")
  case True
  with assms have e: "unat e + 5 < 63" by (auto simp: schedule_ok_def)
  then have "unat (ucast e :: u32) = unat e" by (intro unat_ucast_fits) simp
  moreover have "(2 :: nat) ^ (unat e + 5) \<le> 2 ^ 63" using e by (intro power_increasing) auto
  ultimately show ?thesis
    using assms True e
    by (simp add: get_slots_in_epoch_def schedule_ok_def word_less_nat_alt unat_saturating_pow
        unat_saturating_add trailing_zeros_minimum)
qed (use assms in \<open>simp add: get_slots_in_epoch_def schedule_ok_def word_less_nat_alt\<close>)

lemma first_slot_in_epoch:
  assumes "schedule_ok es m"
  shows "unat (get_first_slot_in_epoch es e) =
    (if unat e \<le> m - 5 then 2 ^ (unat e + 5) - 32
     else min ((unat e - (m - 5)) * unat (slots_per_epoch es) + (2 ^ m - 32)) (2 ^ 64 - 1))"
proof (cases "unat e \<le> m - 5")
  case True
  with assms have e: "unat e \<le> 58" by (auto simp: schedule_ok_def)
  then have "unat (ucast e :: u32) = unat e" by (intro unat_ucast_fits) simp
  moreover have "(2 :: nat) ^ unat e \<le> 2 ^ 58" using e by (intro power_increasing) auto
  ultimately show ?thesis
    using assms True e
    by (simp add: get_first_slot_in_epoch_def schedule_ok_def word_le_nat_alt unat_saturating_pow
        unat_saturating_sub unat_saturating_mul MINIMUM_SLOTS_PER_EPOCH_def power_add)
next
  case False
  then show ?thesis
    using assms
    by (simp add: get_first_slot_in_epoch_def schedule_ok_def word_le_nat_alt
        unat_saturating_sub unat_saturating_mul unat_saturating_add min_add_left)
qed

text \<open>A slot of the warmup, on the numbers.\<close>

lemma warmup_slot:
  assumes ok: "schedule_ok es m" and s: "unat slot < 2 ^ m - 32"
  obtains k where "k < m - 5" and "2 ^ (k + 5) - 32 \<le> unat slot" and "unat slot < 2 ^ (k + 6) - 32"
    and "get_epoch_and_slot_index es slot = (of_nat k, of_nat (unat slot - (2 ^ (k + 5) - 32)))"
proof -
  define j where "j = next_pow2_exp (unat slot + 33) 0"
  have m: "5 \<le> m" "m \<le> 63" using ok by (auto simp: schedule_ok_def)
  have up: "unat slot + 33 \<le> 2 ^ j" and low: "0 < j \<Longrightarrow> 2 ^ (j - 1) < unat slot + 33"
    unfolding j_def using next_pow2_exp_bounds [where n = "unat slot + 33" and k = 0] by auto
  have "(2 :: nat) ^ 5 < 2 ^ j" using up by simp
  then have j6: "6 \<le> j" using power_less_imp_less_exp [of "2 :: nat" 5 j] by simp
  define k where "k = j - 6"
  have j: "j = k + 6" using j6 by (simp add: k_def)
  have lo: "2 ^ (k + 5) \<le> unat slot + 32" using low by (simp add: j add.commute)
  also have "\<dots> < 2 ^ m" using s by simp
  finally have "k + 5 < m" by (rule power_less_imp_less_exp [rotated]) simp
  then have k: "k < m - 5" "k < 58" using m by auto
  have "unat (saturating_add (saturating_add slot MINIMUM_SLOTS_PER_EPOCH) 1) = unat slot + 33"
    using s power_increasing [OF m(2), of "2 :: nat"]
    by (simp add: unat_saturating_add MINIMUM_SLOTS_PER_EPOCH_def)
  then have "next_power_of_two (saturating_add (saturating_add slot MINIMUM_SLOTS_PER_EPOCH) 1) = 2 ^ j"
    by (simp add: next_power_of_two_def j_def)
  moreover define w where "w = saturating_sub (saturating_sub (trailing_zeros (2 ^ j))
    (trailing_zeros MINIMUM_SLOTS_PER_EPOCH)) 1"
  ultimately have eq: "get_epoch_and_slot_index es slot = (ucast w, saturating_sub slot
      (saturating_sub (saturating_pow 2 (saturating_add w (trailing_zeros MINIMUM_SLOTS_PER_EPOCH)))
        MINIMUM_SLOTS_PER_EPOCH))"
    using s ok by (simp add: get_epoch_and_slot_index_def Let_def schedule_ok_def word_less_nat_alt)
  have w: "unat w = k"
    using k(2) by (simp add: w_def unat_saturating_sub trailing_zeros_minimum unat_trailing_zeros_pow2 j)
  have "(2 :: nat) ^ (k + 5) < 2 ^ 64" using k by (intro power_strict_increasing) auto
  then have "unat (saturating_pow 2 (saturating_add w (trailing_zeros MINIMUM_SLOTS_PER_EPOCH)) :: u64) = 2 ^ (k + 5)"
    using k by (simp add: unat_saturating_pow unat_saturating_add trailing_zeros_minimum w)
  then have "unat (saturating_sub slot (saturating_sub (saturating_pow 2
      (saturating_add w (trailing_zeros MINIMUM_SLOTS_PER_EPOCH))) MINIMUM_SLOTS_PER_EPOCH))
      = unat slot - (2 ^ (k + 5) - 32)"
    by (simp add: unat_saturating_sub MINIMUM_SLOTS_PER_EPOCH_def)
  then have "get_epoch_and_slot_index es slot = (of_nat k, of_nat (unat slot - (2 ^ (k + 5) - 32)))"
    using w by (auto simp: eq unat_ucast_wider intro!: of_nat_of_unat)
  with k(1) lo up show ?thesis by (intro that [of k]) (auto simp: j)
qed

text \<open>A slot after it.\<close>

lemma normal_slot:
  assumes ok: "schedule_ok es m" and s: "2 ^ m - 32 \<le> unat slot"
  shows "unat (fst (get_epoch_and_slot_index es slot)) = m - 5 + (unat slot - (2 ^ m - 32)) div unat (slots_per_epoch es)"
    and "unat (snd (get_epoch_and_slot_index es slot)) = (unat slot - (2 ^ m - 32)) mod unat (slots_per_epoch es)"
proof -
  have spe: "32 \<le> unat (slots_per_epoch es)" "slots_per_epoch es \<noteq> 0" "m \<le> 63"
    using ok by (auto simp: schedule_ok_def)
  have "(unat slot - (2 ^ m - 32)) div unat (slots_per_epoch es) \<le> (unat slot - (2 ^ m - 32)) div 32"
    using spe(1) by (intro div_le_mono2) auto
  also have "\<dots> \<le> (2 ^ 64 - 1) div 32"
    using unat_less_exp [of slot] by (intro div_le_mono) simp
  finally show "unat (fst (get_epoch_and_slot_index es slot)) = m - 5 + (unat slot - (2 ^ m - 32)) div unat (slots_per_epoch es)"
    using ok s spe
    by (simp add: get_epoch_and_slot_index_def Let_def schedule_ok_def word_less_nat_alt checked_div_def
        unat_saturating_add unat_saturating_sub unat_div)
  show "unat (snd (get_epoch_and_slot_index es slot)) = (unat slot - (2 ^ m - 32)) mod unat (slots_per_epoch es)"
    using ok s spe
    by (simp add: get_epoch_and_slot_index_def Let_def schedule_ok_def word_less_nat_alt checked_rem_def
        unat_saturating_sub unat_mod)
qed

section \<open>Epochs partition the slots\<close>

text \<open>The first slot of an epoch and its number of slots, without the bound of 64 bits.\<close>

definition first_slot_nat :: "nat \<Rightarrow> nat \<Rightarrow> nat \<Rightarrow> nat" where
  "first_slot_nat m spe e = (if e \<le> m - 5 then 2 ^ (e + 5) - 32 else (e - (m - 5)) * spe + (2 ^ m - 32))"

definition slots_nat :: "nat \<Rightarrow> nat \<Rightarrow> nat \<Rightarrow> nat" where
  "slots_nat m spe e = (if e < m - 5 then 2 ^ (e + 5) else spe)"

lemma pow2_ge_32: "32 \<le> (2 :: nat) ^ (e + 5)"
  using power_increasing [of 5 "e + 5" "2 :: nat"] by simp

lemma first_slot_nat_Suc:
  assumes "5 \<le> m"
  shows "first_slot_nat m spe (Suc e) = first_slot_nat m spe e + slots_nat m spe e"
proof -
  consider "e < m - 5" | "e = m - 5" | "m - 5 < e" by linarith
  then show ?thesis
  proof cases
    case 1
    then show ?thesis using pow2_ge_32 [of e] by (simp add: first_slot_nat_def slots_nat_def power_add)
  next
    case 2
    then show ?thesis using assms by (simp add: first_slot_nat_def slots_nat_def)
  next
    case 3
    then show ?thesis by (simp add: first_slot_nat_def slots_nat_def Suc_diff_le)
  qed
qed

lemma first_slot_nat_mono:
  assumes "5 \<le> m" and "e < e'"
  shows "first_slot_nat m spe e + slots_nat m spe e \<le> first_slot_nat m spe e'"
  using assms(2)
proof (induction e')
  case (Suc e')
  then show ?case using first_slot_nat_Suc [OF assms(1)] by (cases "e = e'") auto
qed simp

lemma epoch_and_slot_nat:
  assumes ok: "schedule_ok es m" and r: "get_epoch_and_slot_index es slot = (e, i)"
  shows "first_slot_nat m (unat (slots_per_epoch es)) (unat e) + unat i = unat slot"
    and "unat i < slots_nat m (unat (slots_per_epoch es)) (unat e)"
proof -
  have m: "5 \<le> m" "m \<le> 63" and spe: "32 \<le> unat (slots_per_epoch es)" using ok by (auto simp: schedule_ok_def)
  have "first_slot_nat m (unat (slots_per_epoch es)) (unat e) + unat i = unat slot
    \<and> unat i < slots_nat m (unat (slots_per_epoch es)) (unat e)"
  proof (cases "unat slot < 2 ^ m - 32")
    case True
    from ok this obtain k where k: "k < m - 5" "2 ^ (k + 5) - 32 \<le> unat slot" "unat slot < 2 ^ (k + 6) - 32"
      and ei: "e = of_nat k" "i = of_nat (unat slot - (2 ^ (k + 5) - 32))"
      using r by (auto elim: warmup_slot)
    have "unat e = k" using ei k m by (simp add: unat_of_nat_fits)
    moreover have "unat i = unat slot - (2 ^ (k + 5) - 32)"
      using ei unat_less_exp [of slot] by (simp add: unat_of_nat_fits)
    ultimately show ?thesis
      using k pow2_ge_32 [of k] by (auto simp: first_slot_nat_def slots_nat_def power_add)
  next
    case False
    define spe' where "spe' = unat (slots_per_epoch es)"
    define x where "x = unat slot - (2 ^ m - 32)"
    have "unat e = m - 5 + x div spe'" "unat i = x mod spe'"
      using normal_slot [OF ok, of slot] False r by (simp_all add: x_def spe'_def)
    moreover have "first_slot_nat m spe' (m - 5 + q) = q * spe' + (2 ^ m - 32)" for q
      using m by (cases "q = 0") (auto simp: first_slot_nat_def)
    moreover have "x div spe' * spe' + x mod spe' = x" by simp
    moreover have "x mod spe' < spe'" using spe by (simp add: spe'_def)
    ultimately show ?thesis
      using False by (simp add: x_def slots_nat_def spe'_def [symmetric])
  qed
  then show "first_slot_nat m (unat (slots_per_epoch es)) (unat e) + unat i = unat slot"
    "unat i < slots_nat m (unat (slots_per_epoch es)) (unat e)" by simp_all
qed

lemma unat_first_slot:
  assumes "schedule_ok es m"
  shows "unat (get_first_slot_in_epoch es e)
    = min (first_slot_nat m (unat (slots_per_epoch es)) (unat e)) (2 ^ 64 - 1)"
proof (cases "unat e \<le> m - 5")
  case True
  with assms have "unat e + 5 \<le> 63" by (auto simp: schedule_ok_def)
  then have "(2 :: nat) ^ (unat e + 5) \<le> 2 ^ 63" by (intro power_increasing) auto
  with True show ?thesis by (simp add: first_slot_in_epoch [OF assms] first_slot_nat_def)
qed (simp add: first_slot_in_epoch [OF assms] first_slot_nat_def)

lemma unat_slots:
  "schedule_ok es m \<Longrightarrow> unat (get_slots_in_epoch es e) = slots_nat m (unat (slots_per_epoch es)) (unat e)"
  by (simp add: slots_in_epoch slots_nat_def)

lemma custom_spe: "custom spe offset wup = Some es \<Longrightarrow> slots_per_epoch es = spe"
  by (auto simp: custom_def split: if_splits prod.splits)

section \<open>Properties\<close>

text \<open>
  C39: for a schedule of at most 2^63 slots per epoch, with or without warmup, every slot lies in
  the epoch computed for it: it is the first slot of that epoch plus the computed index, and the
  index is less than the number of slots of the epoch.
\<close>

theorem slot_in_its_epoch:
  assumes "custom spe offset wup = Some es" and "spe \<le> 2 ^ 63"
    and "get_epoch_and_slot_index es slot = (e, i)"
  shows "unat (get_first_slot_in_epoch es e) + unat i = unat slot
    \<and> unat i < unat (get_slots_in_epoch es e)"
proof -
  obtain m where ok: "schedule_ok es m" using custom_ok [OF assms(1,2)] by metis
  note r = epoch_and_slot_nat [OF ok assms(3)]
  then show ?thesis
    using unat_less_exp [of slot] by (simp add: unat_first_slot [OF ok] unat_slots [OF ok])
qed

theorem slot_in_its_epoch_witness:
  "\<exists>es. custom 432000 432000 True = Some es \<and> unat (get_first_slot_in_epoch es (get_epoch es 1000))
     \<le> 1000"
proof -
  obtain es where es: "custom 432000 432000 True = Some es"
    by (auto simp: custom_def MINIMUM_SLOTS_PER_EPOCH_def Let_def)
  obtain e i where "get_epoch_and_slot_index es 1000 = (e, i)" by (cases "get_epoch_and_slot_index es 1000")
  from slot_in_its_epoch [OF es _ this] this have "unat (get_first_slot_in_epoch es (get_epoch es 1000)) + unat i = 1000"
    by (simp add: get_epoch_def)
  with es show ?thesis by auto
qed

text \<open>
  Conversely, an epoch whose slots all fit into 64 bits gets back every one of its slots: the
  epoch and index of its first slot plus an index below its length are that epoch and that index.
  So the epochs partition the slots.
\<close>

lemma epoch_of_its_slot:
  assumes "custom spe offset wup = Some es" and "spe \<le> 2 ^ 63"
    and "unat (get_first_slot_in_epoch es e) + unat (get_slots_in_epoch es e) < 2 ^ 64"
    and "i < get_slots_in_epoch es e"
  shows "get_epoch_and_slot_index es (get_first_slot_in_epoch es e + i) = (e, i)"
proof -
  obtain m where ok: "schedule_ok es m" using custom_ok [OF assms(1,2)] by metis
  define spe' where "spe' = unat (slots_per_epoch es)"
  have m: "5 \<le> m" using ok by (simp add: schedule_ok_def)
  have i: "unat i < slots_nat m spe' (unat e)"
    using assms(4) by (simp add: word_less_nat_alt unat_slots [OF ok] spe'_def)
  have first: "unat (get_first_slot_in_epoch es e) = first_slot_nat m spe' (unat e)"
    using assms(3) i unfolding unat_first_slot [OF ok] unat_slots [OF ok] spe'_def [symmetric]
    by (simp add: min_def split: if_splits)
  obtain e' i' where r: "get_epoch_and_slot_index es (get_first_slot_in_epoch es e + i) = (e', i')"
    by (cases "get_epoch_and_slot_index es (get_first_slot_in_epoch es e + i)")
  have "unat (get_first_slot_in_epoch es e + i) = unat (get_first_slot_in_epoch es e) + unat i"
    using assms(3,4) by (intro unat_add_no_wrap) (simp add: word_less_nat_alt)
  with epoch_and_slot_nat [OF ok r, folded spe'_def] first
  have eq: "first_slot_nat m spe' (unat e') + unat i' = first_slot_nat m spe' (unat e) + unat i"
    and i': "unat i' < slots_nat m spe' (unat e')" by simp_all
  have "unat e' = unat e"
    using first_slot_nat_mono [OF m, of "unat e" "unat e'" spe'] first_slot_nat_mono [OF m, of "unat e'" "unat e" spe']
      eq i i' by linarith
  with eq show ?thesis unfolding r by (simp add: word_unat_eq_iff)
qed

end
