(* ===== verification/Pre_Account.thy ===== *)
theory Pre_Account
  imports Invoke_Context
begin

text \<open>
  What the runtime checks of an account after an instruction, \<open>program-runtime/src/pre_account.rs\<close>:
  the account as it was before, compared with the account as the program left it.
\<close>

section \<open>Zeroed buffers\<close>

definition ZEROS_LEN :: nat where
  "ZEROS_LEN = 1024"

text \<open>\<open>PreAccount::is_zeroed\<close>: whole chunks against a static block of zeros, then the remainder.\<close>

function is_zeroed :: "u8 list \<Rightarrow> bool" where
  "is_zeroed buf =
     (if length buf \<ge> ZEROS_LEN
      then take ZEROS_LEN buf = replicate ZEROS_LEN 0 \<and> is_zeroed (drop ZEROS_LEN buf)
      else buf = replicate (length buf) 0)"
  by pat_completeness auto
termination is_zeroed
  by (relation "measure length") (auto simp: ZEROS_LEN_def)

declare is_zeroed.simps [simp del]

section \<open>Verification\<close>

text \<open>The counters of \<open>ExecuteDetailsTimings\<close> the check updates.\<close>

record details_timings =
  total_account_count :: u64
  total_data_size :: u64
  changed_account_count :: u64
  data_size_changed :: u64

record pre_account =
  pre_key :: pubkey
  pre :: account
  changed :: bool

definition pre_account_new :: "pubkey \<Rightarrow> account \<Rightarrow> pre_account" where
  "pre_account_new k a = \<lparr>pre_key = k, pre = a, changed = False\<rparr>"

definition verify ::
  "pre_account \<Rightarrow> pubkey \<Rightarrow> bool \<Rightarrow> rent \<Rightarrow> account \<Rightarrow> details_timings \<Rightarrow> bool \<Rightarrow> bool
     \<Rightarrow> details_timings ix_result" where
  "verify pa program_id writable r post timings outermost_call realloc =
     (let a = pre pa;
          owner_changed = (owner a \<noteq> owner post);
          lamports_changed = (lamports a \<noteq> lamports post);
          data_len_changed = (length (data a) \<noteq> length (data post));
          executable_changed = (executable a \<noteq> executable post);
          rent_epoch_changed = (rent_epoch a \<noteq> rent_epoch post)
      in
      bind_r (guard_r (\<not> (owner_changed
                \<and> (\<not> writable \<or> executable a \<or> program_id \<noteq> owner a \<or> \<not> is_zeroed (data post))))
                ModifiedProgramId) (\<lambda>_.
      bind_r (guard_r (\<not> (program_id \<noteq> owner a \<and> lamports a > lamports post))
                ExternalAccountLamportSpend) (\<lambda>_.
      bind_r (guard_r (\<not> (lamports_changed \<and> \<not> writable)) ReadonlyLamportChange) (\<lambda>_.
      bind_r (guard_r (\<not> (lamports_changed \<and> executable a)) ExecutableLamportChange) (\<lambda>_.
      bind_r
        (if realloc then
           bind_r (guard_r (\<not> length (data post) > unat MAX_PERMITTED_DATA_LENGTH) InvalidRealloc) (\<lambda>_.
             guard_r (\<not> (data_len_changed \<and> program_id \<noteq> owner a)) AccountDataSizeChanged)
         else
           guard_r (\<not> (data_len_changed
             \<and> (program_id \<noteq> system_program_id \<or> owner a \<noteq> system_program_id)))
             AccountDataSizeChanged) (\<lambda>_.
      bind_r (guard_r (\<not> (\<not> (program_id = owner a \<and> writable \<and> \<not> executable a) \<and> data a \<noteq> data post))
                (if executable a then ExecutableDataModified
                 else if writable then ExternalAccountDataModified
                 else ReadonlyDataModified)) (\<lambda>_.
      bind_r (guard_r (\<not> (executable_changed \<and> \<not> is_exempt r (lamports post) (length (data post))))
                ExecutableAccountNotRentExempt) (\<lambda>_.
      bind_r (guard_r (\<not> (executable_changed \<and> (\<not> writable \<or> executable a \<or> program_id \<noteq> owner post)))
                ExecutableModified) (\<lambda>_.
      bind_r (guard_r (\<not> rent_epoch_changed) RentEpochModified) (\<lambda>_.
      Inr
        (if outermost_call then
           (let t = timings
                 \<lparr>total_account_count := saturating_add (total_account_count timings) 1,
                  total_data_size := saturating_add (total_data_size timings) (of_nat (length (data post)))\<rparr>
            in if owner_changed \<or> lamports_changed \<or> data_len_changed \<or> executable_changed
                  \<or> rent_epoch_changed \<or> changed pa
               then t
                 \<lparr>changed_account_count := saturating_add (changed_account_count t) 1,
                  data_size_changed := saturating_add (data_size_changed t) (of_nat (length (data post)))\<rparr>
               else t)
         else timings)))))))))))"

definition pre_account_update :: "pre_account \<Rightarrow> account \<Rightarrow> pre_account" where
  "pre_account_update pa a = pa\<lparr>pre := a\<lparr>rent_epoch := rent_epoch (pre pa)\<rparr>, changed := True\<rparr>"

section \<open>The contract of an account\<close>

text \<open>
  What the verification promises of one account, whatever the program did: only its owner takes
  lamports from it, writes it, resizes it or gives it away (and then only zeroed); nothing about a
  read-only account changes; an executable account keeps its balance, data and flag; and the rent
  epoch never changes.
\<close>

definition account_contract :: "pubkey \<Rightarrow> bool \<Rightarrow> rent \<Rightarrow> account \<Rightarrow> account \<Rightarrow> bool" where
  "account_contract program_id writable r a b \<longleftrightarrow>
     rent_epoch b = rent_epoch a
     \<and> (\<not> writable \<longrightarrow> b = a)
     \<and> (owner a \<noteq> program_id \<longrightarrow> lamports a \<le> lamports b \<and> data b = data a \<and> owner b = owner a)
     \<and> (executable a \<longrightarrow> b = a)
     \<and> (owner b \<noteq> owner a \<longrightarrow> (\<forall>x \<in> set (data b). x = 0))
     \<and> (executable b \<noteq> executable a \<longrightarrow>
          owner b = program_id \<and> is_exempt r (lamports b) (length (data b)))"

lemma all_zero_replicate: "xs = replicate (length xs) 0 \<longleftrightarrow> (\<forall>x \<in> set xs. x = 0)"
  by (metis in_set_replicate replicate_length_same)

lemma is_zeroed_iff: "is_zeroed buf \<longleftrightarrow> (\<forall>b \<in> set buf. b = 0)"
proof (induction buf rule: is_zeroed.induct)
  case (1 buf)
  show ?case
  proof (cases "length buf \<ge> ZEROS_LEN")
    case True
    have "set buf = set (take ZEROS_LEN buf) \<union> set (drop ZEROS_LEN buf)"
      by (metis append_take_drop_id set_append)
    moreover have "take ZEROS_LEN buf = replicate ZEROS_LEN 0 \<longleftrightarrow> (\<forall>b \<in> set (take ZEROS_LEN buf). b = 0)"
      using True all_zero_replicate [of "take ZEROS_LEN buf"] by simp
    ultimately show ?thesis using 1 True by (subst is_zeroed.simps) auto
  next
    case False
    then show ?thesis using all_zero_replicate [of buf] by (subst is_zeroed.simps) simp
  qed
qed

lemma verify_guards:
  assumes "verify pa program_id writable r post timings outermost realloc = Inr t"
  shows "owner (pre pa) \<noteq> owner post \<Longrightarrow>
      writable \<and> \<not> executable (pre pa) \<and> program_id = owner (pre pa) \<and> is_zeroed (data post)"
    and "program_id \<noteq> owner (pre pa) \<Longrightarrow> lamports (pre pa) \<le> lamports post"
    and "lamports (pre pa) \<noteq> lamports post \<Longrightarrow> writable \<and> \<not> executable (pre pa)"
    and "data (pre pa) \<noteq> data post \<Longrightarrow> program_id = owner (pre pa) \<and> writable \<and> \<not> executable (pre pa)"
    and "executable (pre pa) \<noteq> executable post \<Longrightarrow>
      writable \<and> \<not> executable (pre pa) \<and> program_id = owner post
        \<and> is_exempt r (lamports post) (length (data post))"
    and "rent_epoch (pre pa) = rent_epoch post"
    and "realloc \<Longrightarrow> length (data post) \<le> unat MAX_PERMITTED_DATA_LENGTH"
  using assms unfolding verify_def Let_def bind_r_Inr guard_r_Inr
  by (auto simp only: not_less bind_r_Inr guard_r_Inr if_True)

lemma account_eqI:
  "lamports a = lamports b \<Longrightarrow> data a = data b \<Longrightarrow> owner a = owner b \<Longrightarrow> executable a = executable b \<Longrightarrow>
     rent_epoch a = rent_epoch b \<Longrightarrow> a = (b :: account)"
  by (cases a; cases b) simp

lemma verify_contract:
  assumes "verify pa program_id writable r post timings outermost realloc = Inr t"
  shows "account_contract program_id writable r (pre pa) post"
proof -
  note g = verify_guards [OF assms]
  have same: "post = pre pa" if "\<not> writable \<or> executable (pre pa)"
    by (rule account_eqI) (use g that in metis)+
  have foreign: "lamports (pre pa) \<le> lamports post \<and> data post = data (pre pa) \<and> owner post = owner (pre pa)"
    if "owner (pre pa) \<noteq> program_id"
    using g(1,2,4) that by metis
  show ?thesis
    unfolding account_contract_def
    by (intro conjI impI)
      (use g(1,5,6) same foreign in \<open>blast | metis is_zeroed_iff\<close>)+
qed

end
