(* ===== verification/Compute_Budget.thy ===== *)
theory Compute_Budget
  imports Accounts
begin

text \<open>
  The compute budget of a transaction, \<open>program-runtime/src/compute_budget.rs\<close>: the limits and prices
  a program runs under, and the instructions by which a transaction asks for others
  (\<open>sdk/src/compute_budget.rs\<close>). Their decoder (\<open>borsh\<close>) is a parameter.
\<close>

definition DEFAULT_UNITS :: u32 where
  "DEFAULT_UNITS = 200000"

definition MAX_UNITS :: u32 where
  "MAX_UNITS = 1400000"

definition MAX_HEAP_FRAME_BYTES :: u32 where
  "MAX_HEAP_FRAME_BYTES = 256 * 1024"

definition MIN_HEAP_FRAME_BYTES :: nat where
  "MIN_HEAP_FRAME_BYTES = 32 * 1024"

record compute_budget =
  max_units :: u64
  log_64_units :: u64
  create_program_address_units :: u64
  invoke_units :: u64
  max_invoke_depth :: nat
  sha256_base_cost :: u64
  sha256_byte_cost :: u64
  sha256_max_slices :: u64
  max_call_depth :: nat
  stack_frame_size :: nat
  log_pubkey_units :: u64
  max_cpi_instruction_size :: nat
  cpi_bytes_per_unit :: u64
  sysvar_base_cost :: u64
  secp256k1_recover_cost :: u64
  syscall_base_cost :: u64
  heap_size :: "nat option"
  heap_cost :: u64
  mem_op_base_cost :: u64

definition compute_budget_new :: "u32 \<Rightarrow> compute_budget" where
  "compute_budget_new units =
     \<lparr>max_units = ucast units, log_64_units = 100, create_program_address_units = 1500,
      invoke_units = 1000, max_invoke_depth = 4, sha256_base_cost = 85, sha256_byte_cost = 1,
      sha256_max_slices = 20000, max_call_depth = 64, stack_frame_size = 4096,
      log_pubkey_units = 100, max_cpi_instruction_size = 1280, cpi_bytes_per_unit = 250,
      sysvar_base_cost = 100, secp256k1_recover_cost = 25000, syscall_base_cost = 100,
      heap_size = None, heap_cost = 8, mem_op_base_cost = 10\<rparr>"

definition compute_budget_default :: compute_budget where
  "compute_budget_default = compute_budget_new MAX_UNITS"

datatype compute_budget_instruction =
    RequestUnits u32 u32
  | RequestHeapFrame u32

datatype transaction_error =
    AccountInUse | AccountLoadedTwice | AccountNotFound | ProgramAccountNotFound | InsufficientFundsForFee
  | InvalidAccountForFee | AlreadyProcessed | BlockhashNotFound | InstructionFailed u8 instruction_error
  | CallChainTooDeep | MissingSignatureForFee | InvalidAccountIndex | SignatureFailure
  | InvalidProgramForExecution | SanitizeFailure | ClusterMaintenance | TxAccountBorrowOutstanding
  | WouldExceedMaxBlockCostLimit | UnsupportedVersion | InvalidWritableAccount
  | WouldExceedMaxAccountCostLimit | WouldExceedMaxAccountDataCostLimit | TooManyAccountLocks
  | AddressLookupTableNotFound | InvalidAddressLookupTableOwner | InvalidAddressLookupTableData
  | InvalidAddressLookupTableIndex | InvalidRentPayingAccount | WouldExceedMaxVoteCostLimit

text \<open>
  The loop over the instructions of a message, each given by its program and its data; the state is
  the number of instructions that are not requests, the units and the additional fee requested so
  far, and the size of the heap.
\<close>

fun request_loop ::
  "(u8 list \<Rightarrow> compute_budget_instruction option) \<Rightarrow> bool \<Rightarrow> nat \<Rightarrow> (pubkey \<times> u8 list) list
     \<Rightarrow> nat \<times> u64 option \<times> u64 \<times> nat option
     \<Rightarrow> (transaction_error, nat \<times> u64 option \<times> u64 \<times> nat option) result" where
  "request_loop decode requestable i [] st = Inr st"
| "request_loop decode requestable i ((program_id, bytes) # ixs) (num_instructions, units, fee, heap) =
     (let error = InstructionFailed 0 InvalidInstructionData in
      if program_id = compute_budget_id then
        (let num_instructions = num_instructions - 1 in
         if i < 3 then
           (case decode bytes of
              Some (RequestUnits requested additional_fee) \<Rightarrow>
                request_loop decode requestable (i + 1) ixs
                  (num_instructions, Some (ucast requested), ucast additional_fee, heap)
            | Some (RequestHeapFrame requested) \<Rightarrow>
                (if \<not> requestable \<or> MAX_HEAP_FRAME_BYTES < requested
                    \<or> requested < of_nat MIN_HEAP_FRAME_BYTES \<or> requested mod 1024 \<noteq> 0
                 then Inl error
                 else request_loop decode requestable (i + 1) ixs
                   (num_instructions, units, fee, Some (unat requested)))
            | None \<Rightarrow> Inl error)
         else request_loop decode requestable (i + 1) ixs (num_instructions, units, fee, heap))
      else request_loop decode requestable (i + 1) ixs (num_instructions, units, fee, heap))"

text \<open>\<open>ComputeBudget::process_message\<close>: the additional fee and the budget afterwards.\<close>

definition compute_budget_process_message ::
  "(u8 list \<Rightarrow> compute_budget_instruction option) \<Rightarrow> bool \<Rightarrow> bool \<Rightarrow> (pubkey \<times> u8 list) list
     \<Rightarrow> compute_budget \<Rightarrow> (transaction_error, u64 \<times> compute_budget) result" where
  "compute_budget_process_message decode requestable default_units_per_instruction ixs budget =
     bind_r (request_loop decode requestable 0 ixs (length ixs, None, 0, heap_size budget))
       (\<lambda>(num_instructions, requested_units, fee, heap).
          let units =
            (case requested_units of
               Some u \<Rightarrow> u
             | None \<Rightarrow> if default_units_per_instruction
                       then of_nat (min (num_instructions * unat DEFAULT_UNITS) (2 ^ 64 - 1))
                       else ucast MAX_UNITS)
          in Inr (fee, budget\<lparr>max_units := min units (ucast MAX_UNITS), heap_size := heap\<rparr>))"

text \<open>
  \<open>ComputeMeter::consume\<close>: the remaining units after it, and whether there were enough.
\<close>

definition compute_meter_consume :: "u64 \<Rightarrow> u64 \<Rightarrow> u64 \<times> unit ix_result" where
  "compute_meter_consume amount remaining_units =
     (let exceeded = (remaining_units < amount)
      in (saturating_sub remaining_units amount,
          if exceeded then Inl ComputationalBudgetExceeded else Inr ()))"

section \<open>What a transaction can ask for\<close>

text \<open>The requests of a message are those among its first three instructions.\<close>

definition requests ::
  "(u8 list \<Rightarrow> compute_budget_instruction option) \<Rightarrow> nat \<Rightarrow> (pubkey \<times> u8 list) list
     \<Rightarrow> compute_budget_instruction option list" where
  "requests decode k ixs = map (decode \<circ> snd) (filter (\<lambda>ix. fst ix = compute_budget_id) (take k ixs))"

fun request_ok :: "bool \<Rightarrow> compute_budget_instruction option \<Rightarrow> bool" where
  "request_ok requestable None = False"
| "request_ok requestable (Some (RequestUnits u f)) = True"
| "request_ok requestable (Some (RequestHeapFrame b)) =
     (requestable \<and> 32 * 1024 \<le> unat b \<and> unat b \<le> 256 * 1024 \<and> unat b mod 1024 = 0)"

fun apply_request ::
  "compute_budget_instruction option \<Rightarrow> u64 option \<times> u64 \<times> nat option \<Rightarrow> u64 option \<times> u64 \<times> nat option" where
  "apply_request (Some (RequestUnits u f)) (units, fee, heap) = (Some (ucast u), ucast f, heap)"
| "apply_request (Some (RequestHeapFrame b)) (units, fee, heap) = (units, fee, Some (unat b))"
| "apply_request None st = st"

lemma heap_frame_guard:
  "request_ok requestable (Some (RequestHeapFrame b)) \<longleftrightarrow>
     \<not> (\<not> requestable \<or> MAX_HEAP_FRAME_BYTES < b \<or> b < of_nat MIN_HEAP_FRAME_BYTES \<or> b mod 1024 \<noteq> 0)"
  by (auto simp: MAX_HEAP_FRAME_BYTES_def MIN_HEAP_FRAME_BYTES_def word_less_nat_alt
    word_unat_eq_iff unat_mod)

lemma request_loop_run:
  "request_loop decode requestable i ixs (n, st) =
     (if list_all (request_ok requestable) (requests decode (3 - i) ixs)
      then Inr (n - length (filter (\<lambda>ix. fst ix = compute_budget_id) ixs),
                fold apply_request (requests decode (3 - i) ixs) st)
      else Inl (InstructionFailed 0 InvalidInstructionData))"
proof (induction ixs arbitrary: i n st)
  case Nil
  then show ?case by (simp add: requests_def)
next
  case (Cons ix ixs)
  obtain program_id bytes where ix: "ix = (program_id, bytes)" by (cases ix)
  obtain units fee heap where st: "st = (units, fee, heap)" by (cases st)
  have r: "requests decode (3 - i) ((program_id, bytes) # ixs) =
      (if i < 3 \<and> program_id = compute_budget_id then [decode bytes] else []) @ requests decode (3 - (i + 1)) ixs"
  proof (cases "i < 3")
    case True
    then have "3 - i = Suc (3 - (i + 1))" by simp
    then show ?thesis using True by (simp add: requests_def)
  qed (simp add: requests_def)
  show ?case
  proof (cases "i < 3 \<and> program_id = compute_budget_id")
    case False
    then show ?thesis using Cons.IH [of "i + 1"] unfolding ix r by (auto simp: st)
  next
    case True
    then show ?thesis
      using Cons.IH [of "i + 1"]
      unfolding ix r by (auto simp: st Let_def heap_frame_guard simp del: request_ok.simps(3)
        split: option.split compute_budget_instruction.split)
  qed
qed

lemma apply_requests_heap:
  "list_all (request_ok requestable) rs \<Longrightarrow> fold apply_request rs (u, f, h) = (u', f', h')
    \<Longrightarrow> h' = h \<or> (\<exists>b. h' = Some (unat b) \<and> request_ok requestable (Some (RequestHeapFrame b)))"
proof (induction rs arbitrary: u f h)
  case (Cons r rs)
  obtain u1 f1 h1 where r: "apply_request r (u, f, h) = (u1, f1, h1)" by (metis prod_cases3)
  then have "h1 = h \<or> (\<exists>b. r = Some (RequestHeapFrame b) \<and> h1 = Some (unat b))"
    by (cases r rule: option.exhaust) (auto split: compute_budget_instruction.splits elim: apply_request.elims)
  moreover have "h' = h1 \<or> (\<exists>b. h' = Some (unat b) \<and> request_ok requestable (Some (RequestHeapFrame b)))"
    using Cons.IH [of u1 f1 h1] Cons.prems r by (simp del: request_ok.simps)
  moreover have "request_ok requestable r" using Cons.prems(1) by simp
  ultimately show ?case by (auto simp del: request_ok.simps)
qed simp


end
