(* ===== verification/Invocation.thy ===== *)
theory Invocation
  imports Pre_Account Compute_Budget
begin

text \<open>
  Running the instructions of a message, \<open>program-runtime/src/invoke_context.rs\<close> and
  \<open>runtime/src/message_processor.rs\<close>: the invocation stack, the dispatch to a program, the checks
  of what it did, and the loop over a message. The meter of the accounts' data is
  \<open>program-runtime/src/accounts_data_meter.rs\<close>.

  The accounts of a transaction are held by index in the source; their keys are distinct, and the
  model keeps the list of keys and one store of accounts by key. A \<open>RefCell\<close> that is still borrowed
  when a program returns, return data and logs are not modelled.
\<close>

section \<open>Signed arithmetic\<close>

text \<open>An \<open>i64\<close> is an \<open>int\<close>; the two conversions and the saturating addition are written out.\<close>

definition as_i64 :: "u64 \<Rightarrow> int" where
  "as_i64 w = sint w"

definition as_u64 :: "int \<Rightarrow> u64" where
  "as_u64 i = word_of_int i"

definition i64_saturating :: "int \<Rightarrow> int" where
  "i64_saturating i = max (- (2 ^ 63)) (min (2 ^ 63 - 1) i)"

section \<open>The meter of the accounts' data\<close>

record accounts_data_meter =
  maximum :: u64
  initial :: u64
  delta :: int

definition MAX_ACCOUNTS_DATA_LEN :: u64 where
  "MAX_ACCOUNTS_DATA_LEN = 128000000000"

definition accounts_data_meter_new :: "u64 \<Rightarrow> accounts_data_meter" where
  "accounts_data_meter_new initial_len = \<lparr>maximum = MAX_ACCOUNTS_DATA_LEN, initial = initial_len, delta = 0\<rparr>"

definition saturating_add_signed :: "u64 \<Rightarrow> int \<Rightarrow> u64" where
  "saturating_add_signed lhs rhs =
     (let res = lhs + as_u64 rhs;
          overflow = (\<not> unat lhs + unat (as_u64 rhs) < 2 ^ 64)
      in if overflow = (rhs < 0) then res
         else if overflow then max_val
         else 0)"

definition current :: "accounts_data_meter \<Rightarrow> u64" where
  "current m = saturating_add_signed (initial m) (delta m)"

definition remaining :: "accounts_data_meter \<Rightarrow> u64" where
  "remaining m = saturating_sub (maximum m) (current m)"

definition consume_unchecked :: "int \<Rightarrow> accounts_data_meter \<Rightarrow> accounts_data_meter" where
  "consume_unchecked amount m = m\<lparr>delta := i64_saturating (delta m + amount)\<rparr>"

definition consume :: "int \<Rightarrow> accounts_data_meter \<Rightarrow> accounts_data_meter ix_result" where
  "consume amount m =
     (if amount > as_i64 (remaining m) then Inl MaxAccountsDataSizeExceeded
      else Inr (consume_unchecked amount m))"

section \<open>Compiled instructions\<close>

record compiled_instruction =
  program_id_index :: u8
  ix_accounts :: "u8 list"
  ix_data :: "u8 list"

text \<open>
  \<open>visit_each_account\<close>: the work is done on every account index that did not occur before, with a
  running count of them.
\<close>

fun visit_from ::
  "(nat \<Rightarrow> nat \<Rightarrow> 's \<Rightarrow> 's ix_result) \<Rightarrow> u8 list \<Rightarrow> nat \<Rightarrow> u8 list \<Rightarrow> 's \<Rightarrow> 's ix_result" where
  "visit_from work before unique_index [] st = Inr st"
| "visit_from work before unique_index (a # as) st =
     (if a \<in> set before then visit_from work (before @ [a]) unique_index as st
      else
        bind_r (work unique_index (unat a) st) (\<lambda>st'.
          visit_from work (before @ [a]) (unique_index + 1) as st'))"

definition visit_each_account ::
  "compiled_instruction \<Rightarrow> (nat \<Rightarrow> nat \<Rightarrow> 's \<Rightarrow> 's ix_result) \<Rightarrow> 's \<Rightarrow> 's ix_result" where
  "visit_each_account ix work st = visit_from work [] 0 (ix_accounts ix) st"

section \<open>The state of an invocation\<close>

record stack_frame =
  number_of_program_accounts :: nat
  frame_keyed_accounts :: "keyed_account list"

definition frame_program_id :: "stack_frame \<Rightarrow> pubkey option" where
  "frame_program_id fr =
     (let i = number_of_program_accounts fr - 1
      in if i < length (frame_keyed_accounts fr) then Some (key (frame_keyed_accounts fr ! i)) else None)"

record runtime_state =
  account_keys :: "pubkey list"
  cells :: store
  invoke_stack :: "stack_frame list"
  pre_accounts :: "pre_account list"
  data_meter :: accounts_data_meter
  details :: details_timings
  current_compute_budget :: compute_budget
  compute_meter :: u64

text \<open>
  A program, as the runtime calls it: the index of its first account, the instruction data, the frame
  of the invocation, the compute units that remain and the accounts.
\<close>

type_synonym program = "nat \<Rightarrow> u8 list \<Rightarrow> stack_frame \<Rightarrow> u64 \<Rightarrow> store \<Rightarrow> (u64 \<times> store) ix_result"

record runtime_config =
  config_rent :: rent
  config_features :: "feature set"
  config_compute_budget :: compute_budget
  builtin_programs :: "(pubkey \<times> program) list"
  native_loader_program :: program

record message =
  message_keys :: "pubkey list"
  message_is_signer :: "nat \<Rightarrow> bool"
  message_is_writable :: "nat \<Rightarrow> bool"

text \<open>Indexing a vector: out of bounds is a panic.\<close>

definition index_r :: "'a list \<Rightarrow> nat \<Rightarrow> 'a ix_result" where
  "index_r xs i = (if i < length xs then Inr (xs ! i) else Inl Panicked)"

fun map_r :: "('a \<Rightarrow> ('e, 'b) result) \<Rightarrow> 'a list \<Rightarrow> ('e, 'b list) result" where
  "map_r f [] = Inr []"
| "map_r f (x # xs) = bind_r (f x) (\<lambda>y. bind_r (map_r f xs) (\<lambda>ys. Inr (y # ys)))"

section \<open>The stack\<close>

definition take_pre_account :: "runtime_state \<Rightarrow> nat \<Rightarrow> nat \<Rightarrow> pre_account list \<Rightarrow> pre_account list ix_result" where
  "take_pre_account st unique_index account_index pas =
     (if account_index < length (account_keys st) then
        (let k = account_keys st ! account_index
         in Inr (pas @ [pre_account_new k (cells st k)]))
      else Inl MissingAccount)"

definition keyed_accounts_for ::
  "message \<Rightarrow> compiled_instruction \<Rightarrow> nat list \<Rightarrow> nat list \<Rightarrow> runtime_state \<Rightarrow> keyed_account list ix_result"
where
  "keyed_accounts_for msg ix program_indices account_indices st =
     bind_r (map_r (\<lambda>i. bind_r (index_r (account_keys st) i) (\<lambda>k.
         Inr \<lparr>is_signer = False, is_writable = False, key = k\<rparr>)) program_indices) (\<lambda>programs.
     bind_r (map_r (\<lambda>a.
         let i = unat a in
         bind_r (if account_indices = [] then Inr i else index_r account_indices i) (\<lambda>account_index.
         bind_r (index_r (account_keys st) account_index) (\<lambda>k.
         Inr \<lparr>is_signer = message_is_signer msg i, is_writable = message_is_writable msg i, key = k\<rparr>)))
       (ix_accounts ix)) (\<lambda>accounts.
     Inr (programs @ accounts)))"

text \<open>The budget of a top-level instruction, raised for one program while two features are pending.\<close>

definition instruction_compute_budget :: "runtime_config \<Rightarrow> pubkey option \<Rightarrow> compute_budget" where
  "instruction_compute_budget cfg program_id =
     (let features = config_features cfg;
          neon = (neon_evm_compute_budget \<in> features \<and> program_id = Some neon_evm_program_id);
          budget = config_compute_budget cfg;
          budget = (if tx_wide_compute_cap \<notin> features \<and> neon
                    then budget\<lparr>max_units := max (max_units budget) 500000\<rparr> else budget)
      in if requestable_heap_size \<notin> features \<and> neon
         then budget\<lparr>heap_size := Some (256 * 1024)\<rparr> else budget)"

definition push ::
  "runtime_config \<Rightarrow> message \<Rightarrow> compiled_instruction \<Rightarrow> nat list \<Rightarrow> nat list \<Rightarrow> runtime_state
     \<Rightarrow> runtime_state ix_result" where
  "push cfg msg ix program_indices account_indices st =
     (if length (invoke_stack st) > max_invoke_depth (config_compute_budget cfg) then Inl CallDepth
      else
        bind_r (if program_indices = [] then Inr None
                else bind_r (index_r (account_keys st) (last program_indices)) (\<lambda>k. Inr (Some k)))
          (\<lambda>program_id.
        if program_id = None \<and> reject_empty_instruction_without_program \<in> config_features cfg
        then Inl UnsupportedProgramId
        else
          bind_r
            (if invoke_stack st = [] then
               (let budget = instruction_compute_budget cfg program_id in
                bind_r (visit_each_account ix (take_pre_account st) []) (\<lambda>pas.
                  Inr (st\<lparr>current_compute_budget := budget,
                          compute_meter := (if tx_wide_compute_cap \<notin> config_features cfg
                                            then max_units budget else compute_meter st),
                          pre_accounts := pas\<rparr>)))
             else
               (let contains = (\<exists>fr \<in> set (invoke_stack st). frame_program_id fr = program_id);
                    is_last = (frame_program_id (last (invoke_stack st)) = program_id)
                in if contains \<and> \<not> is_last then Inl ReentrancyNotAllowed else Inr st))
            (\<lambda>st1.
          bind_r (keyed_accounts_for msg ix program_indices account_indices st1) (\<lambda>kas.
          Inr (st1\<lparr>invoke_stack := invoke_stack st1 @
            [\<lparr>number_of_program_accounts = length program_indices, frame_keyed_accounts = kas\<rparr>]\<rparr>)))))"

definition pop :: "runtime_state \<Rightarrow> runtime_state" where
  "pop st = st\<lparr>invoke_stack := butlast (invoke_stack st)\<rparr>"

section \<open>Verifying what a program did\<close>

text \<open>Metering the change of an account's size.\<close>

definition meter_data :: "runtime_config \<Rightarrow> account \<Rightarrow> account \<Rightarrow> accounts_data_meter \<Rightarrow> accounts_data_meter ix_result"
where
  "meter_data cfg before after m =
     (let d = i64_saturating (int (length (data after)) - int (length (data before)))
      in if cap_accounts_data_len \<in> config_features cfg then consume d m else Inr (consume_unchecked d m))"

text \<open>One account of \<open>InvokeContext::verify\<close>, with the sums of lamports before and after.\<close>

definition verify_one ::
  "runtime_config \<Rightarrow> pubkey \<Rightarrow> message \<Rightarrow> nat \<Rightarrow> nat \<Rightarrow> u128 \<times> u128 \<times> runtime_state
     \<Rightarrow> (u128 \<times> u128 \<times> runtime_state) ix_result" where
  "verify_one cfg program_id msg unique_index account_index acc =
     (case acc of (pre_sum, post_sum, st) \<Rightarrow>
        bind_r (index_r (account_keys st) account_index) (\<lambda>k.
        bind_r (index_r (pre_accounts st) unique_index) (\<lambda>pa.
        bind_r (verify pa program_id (message_is_writable msg account_index) (config_rent cfg) (cells st k)
                  (details st) True (do_support_realloc \<in> config_features cfg)) (\<lambda>t.
        bind_r (ok_or (checked_add pre_sum (ucast (lamports (pre pa)))) UnbalancedInstruction) (\<lambda>pre_sum'.
        bind_r (ok_or (checked_add post_sum (ucast (lamports (cells st k)))) UnbalancedInstruction) (\<lambda>post_sum'.
        bind_r (meter_data cfg (pre pa) (cells st k) (data_meter st)) (\<lambda>m.
          Inr (pre_sum', post_sum', st\<lparr>details := t, data_meter := m\<rparr>))))))))"

definition invoke_verify ::
  "runtime_config \<Rightarrow> message \<Rightarrow> compiled_instruction \<Rightarrow> nat list \<Rightarrow> runtime_state \<Rightarrow> runtime_state ix_result" where
  "invoke_verify cfg msg ix program_indices st =
     bind_r (index_r (message_keys msg) (unat (program_id_index ix))) (\<lambda>program_id.
     bind_r (map_r (index_r (account_keys st)) program_indices) (\<lambda>_.
     bind_r (visit_each_account ix (verify_one cfg program_id msg) (0, 0, st)) (\<lambda>(pre_sum, post_sum, st').
     if pre_sum \<noteq> post_sum then Inl UnbalancedInstruction else Inr st')))"

text \<open>The first entry of a list of pre-accounts with the key.\<close>

fun find_pre_account :: "pubkey \<Rightarrow> nat \<Rightarrow> pre_account list \<Rightarrow> nat option" where
  "find_pre_account k i [] = None"
| "find_pre_account k i (pa # pas) = (if pre_key pa = k then Some i else find_pre_account k (i + 1) pas)"

definition update_one ::
  "runtime_config \<Rightarrow> pubkey \<Rightarrow> nat list \<Rightarrow> bool list \<Rightarrow> nat \<Rightarrow> nat \<Rightarrow> u128 \<times> u128 \<times> runtime_state
     \<Rightarrow> (u128 \<times> u128 \<times> runtime_state) ix_result" where
  "update_one cfg program_id account_indices write_privileges unique_index index_in_instruction acc =
     (case acc of (pre_sum, post_sum, st) \<Rightarrow>
        if index_in_instruction < length write_privileges \<and> index_in_instruction < length account_indices then
          bind_r (index_r (account_keys st) (account_indices ! index_in_instruction)) (\<lambda>k.
          case find_pre_account k 0 (pre_accounts st) of
            None \<Rightarrow> Inl MissingAccount
          | Some i \<Rightarrow>
              (let pa = pre_accounts st ! i;
                   writable = write_privileges ! index_in_instruction;
                   a = cells st k
               in
               bind_r (verify pa program_id writable (config_rent cfg) a (details st) False
                         (do_support_realloc \<in> config_features cfg)) (\<lambda>t.
               bind_r (ok_or (checked_add pre_sum (ucast (lamports (pre pa)))) UnbalancedInstruction) (\<lambda>pre_sum'.
               bind_r (ok_or (checked_add post_sum (ucast (lamports a))) UnbalancedInstruction) (\<lambda>post_sum'.
               let pa' = (if writable \<and> \<not> executable (pre pa) then pre_account_update pa a else pa)
               in
               bind_r (meter_data cfg (pre pa') a (data_meter st)) (\<lambda>m.
                 Inr (pre_sum', post_sum',
                   st\<lparr>details := t, pre_accounts := (pre_accounts st)[i := pa'], data_meter := m\<rparr>)))))))
        else Inl MissingAccount)"

definition verify_and_update ::
  "runtime_config \<Rightarrow> compiled_instruction \<Rightarrow> nat list \<Rightarrow> bool list \<Rightarrow> runtime_state \<Rightarrow> runtime_state ix_result" where
  "verify_and_update cfg ix account_indices write_privileges st =
     bind_r (if invoke_stack st = [] then Inl CallDepth
             else ok_or (frame_program_id (last (invoke_stack st))) CallDepth) (\<lambda>program_id.
     bind_r (visit_each_account ix (update_one cfg program_id account_indices write_privileges) (0, 0, st))
       (\<lambda>(pre_sum, post_sum, st').
     if pre_sum \<noteq> post_sum then Inl UnbalancedInstruction else Inr st'))"

section \<open>Calling the program\<close>

text \<open>A program reaches only the accounts of its frame.\<close>

definition run_program :: "program \<Rightarrow> nat \<Rightarrow> u8 list \<Rightarrow> stack_frame \<Rightarrow> runtime_state \<Rightarrow> runtime_state ix_result" where
  "run_program p first bytes fr st =
     bind_r (p first bytes fr (compute_meter st) (cells st)) (\<lambda>(units, s').
       Inr (st\<lparr>compute_meter := units,
               cells := (\<lambda>k. if k \<in> key ` set (frame_keyed_accounts fr) then s' k else cells st k)\<rparr>))"

definition process_executable_chain :: "runtime_config \<Rightarrow> u8 list \<Rightarrow> runtime_state \<Rightarrow> runtime_state ix_result" where
  "process_executable_chain cfg bytes st =
     (if invoke_stack st = [] then Inl CallDepth
      else
        let fr = last (invoke_stack st) in
        bind_r (map_err (\<lambda>_. UnsupportedProgramId) (keyed_account_at_index (frame_keyed_accounts fr) 0))
          (\<lambda>root.
        let owner_id = owner (cells st (key root)) in
        if owner_id = native_loader_id then
          (case map_of (builtin_programs cfg) (key root) of
             Some p \<Rightarrow> run_program p 1 bytes fr st
           | None \<Rightarrow>
               if remove_native_loader \<notin> config_features cfg
               then run_program (native_loader_program cfg) 0 bytes fr st
               else Inl UnsupportedProgramId)
        else
          (case map_of (builtin_programs cfg) owner_id of
             Some p \<Rightarrow> run_program p 0 bytes fr st
           | None \<Rightarrow> Inl UnsupportedProgramId)))"

text \<open>The result is the compute units consumed and the state, when the instruction succeeds.\<close>

definition invoke_process_instruction ::
  "runtime_config \<Rightarrow> message \<Rightarrow> compiled_instruction \<Rightarrow> nat list \<Rightarrow> nat list \<Rightarrow> bool list \<Rightarrow> runtime_state
     \<Rightarrow> (u64 \<times> runtime_state) ix_result" where
  "invoke_process_instruction cfg msg ix program_indices account_indices caller_write_privileges st =
     (let is_lowest_invocation_level = (invoke_stack st = []) in
      bind_r (if is_lowest_invocation_level then Inr st
              else verify_and_update cfg ix account_indices caller_write_privileges st) (\<lambda>st0.
      bind_r (push cfg msg ix program_indices account_indices st0) (\<lambda>st1.
      bind_r (index_r (message_keys msg) (unat (program_id_index ix))) (\<lambda>_.
      bind_r (process_executable_chain cfg (ix_data ix) st1) (\<lambda>st2.
      bind_r
        (if is_lowest_invocation_level then invoke_verify cfg msg ix program_indices st2
         else verify_and_update cfg ix account_indices
           (map (message_is_writable msg) [0..<length (message_keys msg)]) st2) (\<lambda>st3.
      Inr (saturating_sub (compute_meter st1) (compute_meter st2), pop st3)))))))"

section \<open>Messages\<close>

definition is_precompile :: "feature set \<Rightarrow> pubkey \<Rightarrow> bool" where
  "is_precompile features program_id =
     (\<exists>(p, f) \<in> set [(secp256k1_program_id, prevent_calling_precompiles_as_programs),
                      (ed25519_program_id, prevent_calling_precompiles_as_programs)].
        f \<in> features \<and> p = program_id)"

record account_meta =
  meta_pubkey :: pubkey
  meta_is_signer :: bool
  meta_is_writable :: bool

record instruction =
  instruction_program_id :: pubkey
  instruction_accounts :: "account_meta list"
  instruction_data :: "u8 list"

definition decompile :: "message \<Rightarrow> compiled_instruction \<Rightarrow> instruction ix_result" where
  "decompile msg ix =
     (let get_account_key = (\<lambda>i. if i < length (message_keys msg) then Some (message_keys msg ! i) else None) in
      bind_r (ok_or (get_account_key (unat (program_id_index ix))) MissingAccount) (\<lambda>program_id.
      bind_r (map_r (\<lambda>a.
          bind_r (ok_or (get_account_key (unat a)) MissingAccount) (\<lambda>k.
          Inr \<lparr>meta_pubkey = k, meta_is_signer = message_is_signer msg (unat a),
               meta_is_writable = message_is_writable msg (unat a)\<rparr>)) (ix_accounts ix)) (\<lambda>metas.
      Inr \<lparr>instruction_program_id = program_id, instruction_accounts = metas,
           instruction_data = ix_data ix\<rparr>)))"

text \<open>The last two bytes of the instructions sysvar are the index of the current instruction.\<close>

definition store_current_index :: "u8 list \<Rightarrow> u16 \<Rightarrow> u8 list ix_result" where
  "store_current_index bytes i =
     (if length bytes < 2 then Inl Panicked
      else Inr (take (length bytes - 2) bytes @ [ucast i, ucast (drop_bit 8 i)]))"

definition fixup_instructions_sysvar :: "message \<Rightarrow> u16 \<Rightarrow> runtime_state \<Rightarrow> runtime_state ix_result" where
  "fixup_instructions_sysvar msg i st =
     (if instructions_sysvar_id \<in> set (take (length (message_keys msg)) (account_keys st)) then
        (let a = cells st instructions_sysvar_id in
         bind_r (store_current_index (data a) i) (\<lambda>bytes.
           Inr (st\<lparr>cells := (cells st)(instructions_sysvar_id := a\<lparr>data := bytes\<rparr>)\<rparr>)))
      else Inr st)"

definition details_default :: details_timings where
  "details_default = \<lparr>total_account_count = 0, total_data_size = 0, changed_account_count = 0,
     data_size_changed = 0\<rparr>"

definition message_step ::
  "runtime_config \<Rightarrow> message \<Rightarrow> nat \<Rightarrow> compiled_instruction \<Rightarrow> nat list \<Rightarrow> u64 \<times> runtime_state
     \<Rightarrow> (u64 \<times> runtime_state) ix_result"
where
  "message_step cfg msg instruction_index ix program_indices acc =
     (case acc of (consumed, st) \<Rightarrow>
     bind_r (index_r (message_keys msg) (unat (program_id_index ix))) (\<lambda>program_id.
     bind_r (decompile msg ix) (\<lambda>_.
     if prevent_calling_precompiles_as_programs \<in> config_features cfg
        \<and> is_precompile (config_features cfg) program_id
     then Inr acc
     else
       bind_r (fixup_instructions_sysvar msg (of_nat instruction_index) st) (\<lambda>st1.
       bind_r (invoke_process_instruction cfg msg ix program_indices [] [] st1) (\<lambda>(units, st2).
         Inr (saturating_add consumed units, st2\<lparr>details := details_default\<rparr>))))))"

fun process_message_from ::
  "runtime_config \<Rightarrow> message \<Rightarrow> nat \<Rightarrow> (compiled_instruction \<times> nat list) list \<Rightarrow> u64 \<times> runtime_state
     \<Rightarrow> (transaction_error, u64 \<times> runtime_state) result" where
  "process_message_from cfg msg i [] acc = Inr acc"
| "process_message_from cfg msg i ((ix, program_indices) # ixs) acc =
     bind_r (map_err (InstructionFailed (of_nat i)) (message_step cfg msg i ix program_indices acc))
       (process_message_from cfg msg (i + 1) ixs)"

text \<open>
  The result is the accounts, the change of the size of their data and the compute units consumed,
  added to those consumed before.
\<close>

definition process_message ::
  "runtime_config \<Rightarrow> message \<Rightarrow> (compiled_instruction \<times> nat list) list \<Rightarrow> pubkey list \<Rightarrow> u64 \<Rightarrow> u64 \<Rightarrow> store
     \<Rightarrow> (transaction_error, store \<times> int \<times> u64) result" where
  "process_message cfg msg ixs keys current_accounts_data_len accumulated_consumed_units s =
     bind_r (process_message_from cfg msg 0 ixs (accumulated_consumed_units,
       \<lparr>account_keys = keys, cells = s, invoke_stack = [], pre_accounts = [],
        data_meter = accounts_data_meter_new current_accounts_data_len, details = details_default,
        current_compute_budget = config_compute_budget cfg,
        compute_meter = max_units (config_compute_budget cfg)\<rparr>))
       (\<lambda>(consumed, st). Inr (cells st, delta (data_meter st), consumed))"

end
