(* ===== verification/Invocation_Safety.thy ===== *)
theory Invocation_Safety
  imports Invocation
begin

text \<open>
  What the runtime guarantees whatever the programs do: the contract of every account of an
  instruction, conservation of lamports over an instruction and over a message, and the bounds of the
  meter of the accounts' data.
\<close>

section \<open>Visiting the accounts of an instruction\<close>

text \<open>The first occurrences, in order.\<close>

fun first_occurrences :: "u8 list \<Rightarrow> u8 list \<Rightarrow> u8 list" where
  "first_occurrences before [] = []"
| "first_occurrences before (a # as) =
     (if a \<in> set before then first_occurrences (before @ [a]) as
      else a # first_occurrences (before @ [a]) as)"

fun visit_list :: "(nat \<Rightarrow> nat \<Rightarrow> 's \<Rightarrow> 's ix_result) \<Rightarrow> nat \<Rightarrow> u8 list \<Rightarrow> 's \<Rightarrow> 's ix_result" where
  "visit_list work u [] st = Inr st"
| "visit_list work u (a # as) st = bind_r (work u (unat a) st) (visit_list work (u + 1) as)"

lemma visit_from_list: "visit_from work before u as st = visit_list work u (first_occurrences before as) st"
  by (induction work before u as st rule: visit_from.induct) (auto simp: bind_r_def split: sum.split)

definition instruction_indices :: "compiled_instruction \<Rightarrow> u8 list" where
  "instruction_indices ix = first_occurrences [] (ix_accounts ix)"

lemma visit_each_account_list: "visit_each_account ix work st = visit_list work 0 (instruction_indices ix) st"
  by (simp add: visit_each_account_def visit_from_list instruction_indices_def)

lemma first_occurrences_set: "set (first_occurrences before as) = set as - set before"
  by (induction before as rule: first_occurrences.induct) auto

lemma first_occurrences_distinct: "distinct (first_occurrences before as)"
  by (induction before as rule: first_occurrences.induct) (auto simp: first_occurrences_set)

lemma instruction_indices [simp]:
  "set (instruction_indices ix) = set (ix_accounts ix)" "distinct (instruction_indices ix)"
  by (simp_all add: instruction_indices_def first_occurrences_set first_occurrences_distinct)

text \<open>The keys of the accounts an instruction names.\<close>

definition instruction_keys :: "pubkey list \<Rightarrow> compiled_instruction \<Rightarrow> pubkey list" where
  "instruction_keys keys ix = map (\<lambda>a. keys ! unat a) (instruction_indices ix)"

section \<open>What one instruction does\<close>

lemma take_pre_account_Inr:
  "take_pre_account st u i pas = Inr pas' \<longleftrightarrow> i < length (account_keys st)
     \<and> pas' = pas @ [pre_account_new (account_keys st ! i) (cells st (account_keys st ! i))]"
  by (auto simp: take_pre_account_def Let_def)

lemma take_pre_accounts:
  assumes "visit_list (take_pre_account st) u as pas = Inr pas'"
  shows "(\<forall>a \<in> set as. unat a < length (account_keys st))
    \<and> pas' = pas @ map (\<lambda>a. pre_account_new (account_keys st ! unat a) (cells st (account_keys st ! unat a))) as"
  using assms
proof (induction as arbitrary: u pas)
  case Nil
  then show ?case by simp
next
  case (Cons x as)
  from Cons.prems have x: "unat x < length (account_keys st)"
    and rest: "visit_list (take_pre_account st) (u + 1) as
      (pas @ [pre_account_new (account_keys st ! unat x) (cells st (account_keys st ! unat x))]) = Inr pas'"
    by (auto simp: bind_r_Inr take_pre_account_Inr)
  from x Cons.IH [OF rest] show ?case by simp
qed

lemma verify_one_Inr:
  assumes "verify_one cfg program_id msg u i (a, b, st) = Inr (a', b', st')"
  defines "k \<equiv> account_keys st ! i"
  shows "i < length (account_keys st)" and "u < length (pre_accounts st)"
    and "account_contract program_id (message_is_writable msg i) (config_rent cfg)
      (pre (pre_accounts st ! u)) (cells st k)"
    and "unat a' = unat a + unat (lamports (pre (pre_accounts st ! u)))"
    and "unat b' = unat b + unat (lamports (cells st k))"
    and "cells st' = cells st" and "account_keys st' = account_keys st"
    and "pre_accounts st' = pre_accounts st" and "invoke_stack st' = invoke_stack st"
  using assms verify_contract
  by (auto simp: verify_one_def index_r_def result_simps unat_checked_add unat_ucast_wider split: if_splits)

text \<open>The loop of the verification, from any unique index on.\<close>

lemma verify_list:
  assumes "visit_list (verify_one cfg program_id msg) u as (a, b, st) = Inr (a', b', st')"
  shows "cells st' = cells st \<and> account_keys st' = account_keys st \<and> invoke_stack st' = invoke_stack st
    \<and> (\<forall>j < length as. account_contract program_id (message_is_writable msg (unat (as ! j))) (config_rent cfg)
          (pre (pre_accounts st ! (u + j))) (cells st (account_keys st ! unat (as ! j))))
    \<and> unat a' = unat a + (\<Sum>j < length as. unat (lamports (pre (pre_accounts st ! (u + j)))))
    \<and> unat b' = unat b + (\<Sum>j < length as. unat (lamports (cells st (account_keys st ! unat (as ! j)))))"
  using assms
proof (induction as arbitrary: u a b st)
  case Nil
  then show ?case by simp
next
  case (Cons x as)
  then obtain a1 b1 st1 where one: "verify_one cfg program_id msg u (unat x) (a, b, st) = Inr (a1, b1, st1)"
    and rest: "visit_list (verify_one cfg program_id msg) (u + 1) as (a1, b1, st1) = Inr (a', b', st')"
    by (auto simp: bind_r_Inr)
  note o = verify_one_Inr [OF one]
  note IH = Cons.IH [OF rest, unfolded o(6-9)]
  have all: "(\<forall>j < length (x # as). P j) \<longleftrightarrow> P 0 \<and> (\<forall>j < length as. P (Suc j))" for P
    by (auto simp: less_Suc_eq_0_disj)
  have sum: "(\<Sum>j < length (x # as). f j) = f 0 + (\<Sum>j < length as. f (Suc j))" for f :: "nat \<Rightarrow> nat"
    by (simp only: length_Cons sum.lessThan_Suc_shift)
  show ?case
    unfolding all sum using IH o by simp
qed

lemma instruction_keys_set: "set (instruction_keys keys ix) = (\<lambda>a. keys ! unat a) ` set (ix_accounts ix)"
  by (simp add: instruction_keys_def)

lemma instruction_keys_distinct:
  assumes "distinct keys" and "\<forall>a \<in> set (ix_accounts ix). unat a < length keys"
  shows "distinct (instruction_keys keys ix)"
proof -
  have "inj_on (\<lambda>a. keys ! unat a) (set (instruction_indices ix))"
    using assms by (intro inj_onI) (metis instruction_indices(1) nth_eq_iff_index_eq word_unat_eq_iff)
  then show ?thesis by (simp add: instruction_keys_def distinct_map)
qed

lemma sum_instruction_keys:
  assumes "distinct keys" and "\<forall>a \<in> set (ix_accounts ix). unat a < length keys"
  shows "(\<Sum>j < length (instruction_indices ix). unat (lamports (s (keys ! unat (instruction_indices ix ! j)))))
    = total_lamports (set (instruction_keys keys ix)) s"
proof -
  have "total_lamports (set (instruction_keys keys ix)) s
      = sum_list (map (\<lambda>k. unat (lamports (s k))) (instruction_keys keys ix))"
    using instruction_keys_distinct [OF assms] by (simp add: total_lamports_def sum_list_distinct_conv_sum_set)
  also have "\<dots> = (\<Sum>j < length (instruction_indices ix). unat (lamports (s (keys ! unat (instruction_indices ix ! j)))))"
    by (simp add: instruction_keys_def comp_def sum_list_sum_nth atLeast0LessThan)
  finally show ?thesis ..
qed

text \<open>The frame the program runs in.\<close>

lemma map_r_length: "map_r f xs = Inr ys \<Longrightarrow> length ys = length xs"
  by (induction xs arbitrary: ys) (auto simp: bind_r_Inr)

lemma map_r_index:
  "map_r (\<lambda>a. bind_r (index_r ks (f a)) (\<lambda>k. Inr (g a k))) as = Inr bs
     \<longleftrightarrow> (\<forall>a \<in> set as. f a < length ks) \<and> bs = map (\<lambda>a. g a (ks ! f a)) as"
  by (induction as arbitrary: bs) (auto simp: bind_r_Inr index_r_def)

lemma keyed_accounts_for_keys:
  assumes "keyed_accounts_for msg ix program_indices [] st = Inr kas"
  shows "key ` set (drop (length program_indices) kas) = set (instruction_keys (account_keys st) ix)"
    and "key ` set kas \<subseteq> set (account_keys st)"
proof -
  obtain ps as where kas: "kas = ps @ as"
    and ps: "(\<forall>i \<in> set program_indices. i < length (account_keys st)) \<and>
      ps = map (\<lambda>i. \<lparr>is_signer = False, is_writable = False, key = account_keys st ! i\<rparr>) program_indices"
    and as: "(\<forall>a \<in> set (ix_accounts ix). unat a < length (account_keys st)) \<and>
      as = map (\<lambda>a. \<lparr>is_signer = message_is_signer msg (unat a), is_writable = message_is_writable msg (unat a),
        key = account_keys st ! unat a\<rparr>) (ix_accounts ix)"
    using assms unfolding keyed_accounts_for_def Let_def if_True simp_thms bind_r_simps
    by (elim bind_r_InrE) (simp add: map_r_index)
  show "key ` set (drop (length program_indices) kas) = set (instruction_keys (account_keys st) ix)"
    using ps as by (simp add: kas instruction_keys_set image_image)
  show "key ` set kas \<subseteq> set (account_keys st)"
    using ps as by (auto simp: kas)
qed

lemma push_lowest:
  assumes r: "push cfg msg ix program_indices [] st = Inr st'" and st: "invoke_stack st = []"
  obtains kas where "keyed_accounts_for msg ix program_indices [] st = Inr kas"
    and "\<forall>a \<in> set (ix_accounts ix). unat a < length (account_keys st)"
    and "cells st' = cells st" and "account_keys st' = account_keys st"
    and "pre_accounts st' = map (\<lambda>k. pre_account_new k (cells st k)) (instruction_keys (account_keys st) ix)"
    and "invoke_stack st' = [\<lparr>number_of_program_accounts = length program_indices, frame_keyed_accounts = kas\<rparr>]"
proof -
  have kf: "keyed_accounts_for msg ix pis [] (st\<lparr>pre_accounts := p\<rparr>) = keyed_accounts_for msg ix pis [] st"
    "keyed_accounts_for msg ix pis [] (st\<lparr>current_compute_budget := b\<rparr>) = keyed_accounts_for msg ix pis [] st"
    "keyed_accounts_for msg ix pis [] (st\<lparr>compute_meter := u\<rparr>) = keyed_accounts_for msg ix pis [] st"
    for p pis b u and st :: runtime_state
    by (simp_all add: keyed_accounts_for_def)
  from r st obtain pas kas
    where pas: "visit_each_account ix (take_pre_account st) [] = Inr pas"
    and kas: "keyed_accounts_for msg ix program_indices [] st = Inr kas"
    and st': "cells st' = cells st" "account_keys st' = account_keys st" "pre_accounts st' = pas"
      "invoke_stack st' = [\<lparr>number_of_program_accounts = length program_indices, frame_keyed_accounts = kas\<rparr>]"
    unfolding push_def Let_def by (auto simp: kf bind_r_Inr split: if_splits)
  from take_pre_accounts [OF pas [unfolded visit_each_account_list]]
  have "\<forall>a \<in> set (ix_accounts ix). unat a < length (account_keys st)"
    and "pas = map (\<lambda>k. pre_account_new k (cells st k)) (instruction_keys (account_keys st) ix)"
    by (simp_all add: instruction_keys_def comp_def)
  with that kas st' show ?thesis by blast
qed

definition programs :: "runtime_config \<Rightarrow> program set" where
  "programs cfg = insert (native_loader_program cfg) (snd ` set (builtin_programs cfg))"

lemma chain_Inr:
  assumes "process_executable_chain cfg bytes st = Inr st'"
  obtains p first units s' where "p \<in> programs cfg"
    and "p first bytes (last (invoke_stack st)) (compute_meter st) (cells st) = Inr (units, s')"
    and "st' = st\<lparr>compute_meter := units,
      cells := (\<lambda>k. if k \<in> key ` set (frame_keyed_accounts (last (invoke_stack st))) then s' k else cells st k)\<rparr>"
proof -
  have "\<exists>p \<in> programs cfg. \<exists>first. run_program p first bytes (last (invoke_stack st)) st = Inr st'"
    using assms unfolding process_executable_chain_def Let_def programs_def
    by (auto elim!: bind_r_InrE split: if_splits option.splits dest!: map_of_SomeD) (force+)
  then show ?thesis using that by (auto simp: run_program_def bind_r_Inr)
qed

lemma invoke_verify_Inr:
  assumes r: "invoke_verify cfg msg ix program_indices st = Inr st'"
    and pas: "pre_accounts st = map (\<lambda>k. pre_account_new k (s k)) (instruction_keys (account_keys st) ix)"
    and bnd: "\<forall>a \<in> set (ix_accounts ix). unat a < length (account_keys st)" "distinct (account_keys st)"
  shows "cells st' = cells st" and "account_keys st' = account_keys st" and "invoke_stack st' = invoke_stack st"
    and "unat (program_id_index ix) < length (message_keys msg)"
    and "\<forall>a \<in> set (ix_accounts ix).
      account_contract (message_keys msg ! unat (program_id_index ix)) (message_is_writable msg (unat a))
        (config_rent cfg) (s (account_keys st ! unat a)) (cells st (account_keys st ! unat a))"
    and "total_lamports (set (instruction_keys (account_keys st) ix)) (cells st)
      = total_lamports (set (instruction_keys (account_keys st) ix)) s"
proof -
  let ?pid = "message_keys msg ! unat (program_id_index ix)" and ?is = "instruction_indices ix"
  from r obtain a b st1 where pid: "unat (program_id_index ix) < length (message_keys msg)"
    and v: "visit_list (verify_one cfg ?pid msg) 0 ?is (0, 0, st) = Inr (a, b, st1)" and "a = b" "st' = st1"
    unfolding invoke_verify_def visit_each_account_list
    by (elim bind_r_InrE) (auto simp: index_r_def split: if_splits)
  note v = verify_list [OF v]
  have pre: "pre (pre_accounts st ! j) = s (account_keys st ! unat (?is ! j))" if "j < length ?is" for j
    using that by (simp add: pas instruction_keys_def pre_account_new_def)
  show "cells st' = cells st" "account_keys st' = account_keys st" "invoke_stack st' = invoke_stack st"
    "unat (program_id_index ix) < length (message_keys msg)"
    using v pid \<open>st' = st1\<close> by simp_all
  show "\<forall>a \<in> set (ix_accounts ix). account_contract ?pid (message_is_writable msg (unat a))
        (config_rent cfg) (s (account_keys st ! unat a)) (cells st (account_keys st ! unat a))"
  proof
    fix a
    assume "a \<in> set (ix_accounts ix)"
    then obtain j where "j < length ?is" "?is ! j = a" by (metis instruction_indices(1) in_set_conv_nth)
    with v pre [of j] show "account_contract ?pid (message_is_writable msg (unat a))
        (config_rent cfg) (s (account_keys st ! unat a)) (cells st (account_keys st ! unat a))" by auto
  qed
  have "(\<Sum>j < length ?is. unat (lamports (s (account_keys st ! unat (?is ! j))))) =
    (\<Sum>j < length ?is. unat (lamports (cells st (account_keys st ! unat (?is ! j)))))"
    using v pre \<open>a = b\<close> by simp
  then show "total_lamports (set (instruction_keys (account_keys st) ix)) (cells st)
      = total_lamports (set (instruction_keys (account_keys st) ix)) s"
    unfolding sum_instruction_keys [OF bnd(2,1)] by simp
qed

lemma lowest_level_Inr:
  assumes r: "invoke_process_instruction cfg msg ix program_indices [] [] st = Inr (consumed, st')"
    and st: "invoke_stack st = []" "distinct (account_keys st)"
  obtains p first fr u u' s' where "p \<in> programs cfg" and "p first (ix_data ix) fr u (cells st) = Inr (u', s')"
    and "number_of_program_accounts fr = length program_indices"
    and "key ` set (drop (length program_indices) (frame_keyed_accounts fr)) = set (instruction_keys (account_keys st) ix)"
    and "key ` set (frame_keyed_accounts fr) \<subseteq> set (account_keys st)"
    and "cells st' = (\<lambda>k. if k \<in> key ` set (frame_keyed_accounts fr) then s' k else cells st k)"
    and "account_keys st' = account_keys st" and "invoke_stack st' = []"
    and "unat (program_id_index ix) < length (message_keys msg)"
    and "\<forall>a \<in> set (ix_accounts ix). unat a < length (account_keys st)
      \<and> account_contract (message_keys msg ! unat (program_id_index ix)) (message_is_writable msg (unat a))
          (config_rent cfg) (cells st (account_keys st ! unat a)) (cells st' (account_keys st ! unat a))"
    and "total_lamports (set (instruction_keys (account_keys st) ix)) (cells st')
      = total_lamports (set (instruction_keys (account_keys st) ix)) (cells st)"
proof -
  from r st(1) obtain st1 st2 st3 where push: "push cfg msg ix program_indices [] st = Inr st1"
    and chain: "process_executable_chain cfg (ix_data ix) st1 = Inr st2"
    and ver: "invoke_verify cfg msg ix program_indices st2 = Inr st3" and st': "st' = pop st3"
    unfolding invoke_process_instruction_def Let_def by (auto elim!: bind_r_InrE)
  from push st(1) obtain kas where kas: "keyed_accounts_for msg ix program_indices [] st = Inr kas"
    and bnd: "\<forall>a \<in> set (ix_accounts ix). unat a < length (account_keys st)"
    and st1: "cells st1 = cells st" "account_keys st1 = account_keys st"
      "pre_accounts st1 = map (\<lambda>k. pre_account_new k (cells st k)) (instruction_keys (account_keys st) ix)"
      "invoke_stack st1 = [\<lparr>number_of_program_accounts = length program_indices, frame_keyed_accounts = kas\<rparr>]"
    by (rule push_lowest)
  have top: "last (invoke_stack st1)
      = \<lparr>number_of_program_accounts = length program_indices, frame_keyed_accounts = kas\<rparr>"
    by (simp add: st1)
  obtain p first units s' where p: "p \<in> programs cfg"
    and run: "p first (ix_data ix) \<lparr>number_of_program_accounts = length program_indices, frame_keyed_accounts = kas\<rparr>
      (compute_meter st1) (cells st) = Inr (units, s')"
    and st2: "st2 = st1\<lparr>compute_meter := units, cells := (\<lambda>k. if k \<in> key ` set kas then s' k else cells st k)\<rparr>"
    by (rule chain_Inr [OF chain, unfolded top st1(1)]) simp
  have keys: "account_keys st2 = account_keys st" by (simp add: st2 st1)
  note v = invoke_verify_Inr [OF ver, where s = "cells st", unfolded keys]
  have v: "cells st3 = cells st2" "account_keys st3 = account_keys st" "invoke_stack st3 = invoke_stack st2"
    "unat (program_id_index ix) < length (message_keys msg)"
    "\<forall>a \<in> set (ix_accounts ix).
      account_contract (message_keys msg ! unat (program_id_index ix)) (message_is_writable msg (unat a))
        (config_rent cfg) (cells st (account_keys st ! unat a)) (cells st2 (account_keys st ! unat a))"
    "total_lamports (set (instruction_keys (account_keys st) ix)) (cells st2)
      = total_lamports (set (instruction_keys (account_keys st) ix)) (cells st)"
    using v bnd st(2) by (simp_all add: st2 st1)
  note k = keyed_accounts_for_keys [OF kas]
  show ?thesis
    by (rule that [OF p run]) (use v bnd k in \<open>simp_all add: st' pop_def st2 st1\<close>)
qed

section \<open>What a message does\<close>

text \<open>
  What is relied on of the programs, none of which is part of the runtime: a program writes only the
  accounts of its instruction, not the accounts that hold the program itself.
\<close>

definition program_frame :: "program \<Rightarrow> bool" where
  "program_frame p \<longleftrightarrow> (\<forall>first bytes fr u u' s s'. p first bytes fr u s = Inr (u', s') \<longrightarrow>
     (\<forall>k. k \<notin> key ` set (drop (number_of_program_accounts fr) (frame_keyed_accounts fr)) \<longrightarrow> s' k = s k))"

text \<open>What a message keeps: the total of the lamports, the accounts it does not name, rent epochs.\<close>

definition message_keeps :: "pubkey list \<Rightarrow> store \<Rightarrow> store \<Rightarrow> bool" where
  "message_keeps keys s s' \<longleftrightarrow> total_lamports (set keys) s' = total_lamports (set keys) s
     \<and> (\<forall>k. (k \<notin> set keys \<longrightarrow> s' k = s k) \<and> rent_epoch (s' k) = rent_epoch (s k))"

lemma total_lamports_part:
  assumes "finite K" and "L \<subseteq> K" and "total_lamports L s' = total_lamports L s"
    and "\<And>k. k \<in> K - L \<Longrightarrow> s' k = s k"
  shows "total_lamports K s' = total_lamports K s"
proof -
  have "total_lamports K t = total_lamports L t + total_lamports (K - L) t" for t
    unfolding total_lamports_def using assms(1,2) by (metis add.commute sum.subset_diff)
  moreover have "total_lamports (K - L) s' = total_lamports (K - L) s"
    unfolding total_lamports_def using assms(4) by simp
  ultimately show ?thesis using assms(3) by simp
qed

lemma contract_rent_epoch: "account_contract pid w r a b \<Longrightarrow> rent_epoch b = rent_epoch a"
  unfolding account_contract_def by blast

lemma message_keeps_instruction:
  assumes r: "invoke_process_instruction cfg msg ix program_indices [] [] st = Inr (consumed, st')"
    and st: "invoke_stack st = []" "distinct (account_keys st)"
    and fr: "\<forall>p \<in> programs cfg. program_frame p"
  shows "message_keeps (account_keys st) (cells st) (cells st') \<and> account_keys st' = account_keys st
    \<and> invoke_stack st' = []"
proof (rule lowest_level_Inr [OF r st])
  fix p first f u u' s'
  assume p: "p \<in> programs cfg" and run: "p first (ix_data ix) f u (cells st) = Inr (u', s')"
    and n: "number_of_program_accounts f = length program_indices"
    and ks: "key ` set (drop (length program_indices) (frame_keyed_accounts f)) = set (instruction_keys (account_keys st) ix)"
    and cells: "cells st' = (\<lambda>k. if k \<in> key ` set (frame_keyed_accounts f) then s' k else cells st k)"
    and keys: "account_keys st' = account_keys st" "invoke_stack st' = []"
    and con: "\<forall>a \<in> set (ix_accounts ix). unat a < length (account_keys st)
      \<and> account_contract (message_keys msg ! unat (program_id_index ix)) (message_is_writable msg (unat a))
          (config_rent cfg) (cells st (account_keys st ! unat a)) (cells st' (account_keys st ! unat a))"
    and tot: "total_lamports (set (instruction_keys (account_keys st) ix)) (cells st')
      = total_lamports (set (instruction_keys (account_keys st) ix)) (cells st)"
  let ?L = "set (instruction_keys (account_keys st) ix)"
  have out: "cells st' k = cells st k" if "k \<notin> ?L" for k
  proof -
    have "s' k = cells st k"
      using fr [unfolded program_frame_def, rule_format, OF p run] that by (simp add: ks n)
    then show ?thesis by (simp add: cells)
  qed
  have sub: "?L \<subseteq> set (account_keys st)" using con by (auto simp: instruction_keys_set)
  have "total_lamports (set (account_keys st)) (cells st') = total_lamports (set (account_keys st)) (cells st)"
    by (rule total_lamports_part [OF _ sub tot]) (simp_all add: out)
  moreover have "rent_epoch (cells st' k) = rent_epoch (cells st k)" for k
  proof (cases "k \<in> ?L")
    case True
    then obtain a where "a \<in> set (ix_accounts ix)" "k = account_keys st ! unat a"
      by (auto simp: instruction_keys_set)
    then show ?thesis using con contract_rent_epoch by blast
  qed (simp add: out)
  ultimately have "message_keeps (account_keys st) (cells st) (cells st')"
    unfolding message_keeps_def using sub out by blast
  with keys show ?thesis by simp
qed

lemma message_keeps_refl: "message_keeps keys s s"
  by (simp add: message_keeps_def)

lemma message_keeps_trans: "message_keeps keys s t \<Longrightarrow> message_keeps keys t u \<Longrightarrow> message_keeps keys s u"
  by (simp add: message_keeps_def)

lemma fixup_keeps:
  assumes "fixup_instructions_sysvar msg i st = Inr st'"
  shows "message_keeps (account_keys st) (cells st) (cells st') \<and> account_keys st' = account_keys st
    \<and> invoke_stack st' = invoke_stack st"
proof (cases "instructions_sysvar_id \<in> set (take (length (message_keys msg)) (account_keys st))")
  case True
  with assms obtain bytes where st': "st' = st\<lparr>cells := (cells st)(instructions_sysvar_id :=
      (cells st instructions_sysvar_id)\<lparr>data := bytes\<rparr>)\<rparr>"
    by (auto simp: fixup_instructions_sysvar_def bind_r_Inr Let_def)
  have "total_lamports K (cells st') = total_lamports K (cells st)" for K
    unfolding total_lamports_def by (rule sum.cong) (simp_all add: st')
  then show ?thesis using in_set_takeD [OF True] by (auto simp: message_keeps_def st')
next
  case False
  with assms show ?thesis by (simp add: fixup_instructions_sysvar_def message_keeps_refl)
qed

lemma message_step_keeps:
  assumes "message_step cfg msg i ix program_indices (c, st) = Inr (c', st')"
    and "invoke_stack st = []" "distinct (account_keys st)" and "\<forall>p \<in> programs cfg. program_frame p"
  shows "message_keeps (account_keys st) (cells st) (cells st') \<and> account_keys st' = account_keys st
    \<and> invoke_stack st' = []"
proof -
  from assms(1) consider "st' = st"
    | st1 units st2 where "fixup_instructions_sysvar msg (of_nat i) st = Inr st1"
      "invoke_process_instruction cfg msg ix program_indices [] [] st1 = Inr (units, st2)"
      "st' = st2\<lparr>details := details_default\<rparr>"
    unfolding message_step_def by (auto elim!: bind_r_InrE split: if_splits)
  then show ?thesis
  proof cases
    case 1
    with assms(2) show ?thesis by (simp add: message_keeps_refl)
  next
    case 2
    note f = fixup_keeps [OF 2(1)]
    with assms(2,3) have "invoke_stack st1 = []" "distinct (account_keys st1)" by simp_all
    note k = message_keeps_instruction [OF 2(2) this assms(4)]
    with f 2(3) show ?thesis by (auto intro: message_keeps_trans)
  qed
qed

lemma process_message_from_keeps:
  assumes "process_message_from cfg msg i ixs (c, st) = Inr (c', st')"
    and "invoke_stack st = []" "distinct (account_keys st)" and "\<forall>p \<in> programs cfg. program_frame p"
  shows "message_keeps (account_keys st) (cells st) (cells st')"
  using assms(1-3)
proof (induction ixs arbitrary: i c st)
  case Nil
  then show ?case by (simp add: message_keeps_refl)
next
  case (Cons x ixs)
  obtain ix pis where x: "x = (ix, pis)" by (cases x)
  with Cons.prems obtain c1 st1 where step: "message_step cfg msg i ix pis (c, st) = Inr (c1, st1)"
    and rest: "process_message_from cfg msg (i + 1) ixs (c1, st1) = Inr (c', st')"
    by (auto simp: result_simps)
  note k = message_step_keeps [OF step Cons.prems(2,3) assms(4)]
  with Cons.IH [OF rest] Cons.prems(3) show ?case by (auto intro: message_keeps_trans)
qed

section \<open>The meter of the accounts' data\<close>

text \<open>An \<open>i64\<close> within its range.\<close>

definition i64_ok :: "int \<Rightarrow> bool" where
  "i64_ok i \<longleftrightarrow> - (2 ^ 63) \<le> i \<and> i < 2 ^ 63"

lemma uint_less: "unat w < 2 ^ n \<Longrightarrow> uint w < 2 ^ n"
  by (metis of_nat_less_iff of_nat_numeral of_nat_power uint_nat)

lemma unat_as_u64:
  assumes "i64_ok d"
  shows "uint (as_u64 d) = (if d < 0 then d + 2 ^ 64 else d)"
proof -
  have "uint (as_u64 d) = d mod 2 ^ 64"
    by (simp add: as_u64_def unsigned_of_int take_bit_eq_mod)
  also have "\<dots> = (if d < 0 then d + 2 ^ 64 else d)"
    using assms mod_pos_pos_trivial [of "d + 2 ^ 64" "2 ^ 64"] by (simp add: i64_ok_def)
  finally show ?thesis .
qed

lemma unat_saturating_add_signed:
  assumes "i64_ok d"
  shows "uint (saturating_add_signed a d) = max 0 (min (2 ^ 64 - 1) (uint a + d))"
proof -
  have a: "uint a < 2 ^ 64" by (rule uint_less) (use unat_less_exp [of a] in simp)
  have plus: "uint (a + as_u64 d) = (uint a + uint (as_u64 d)) mod 2 ^ 64"
    by (simp add: uint_word_ariths)
  have ov: "(\<not> unat a + unat (as_u64 d) < 2 ^ 64) \<longleftrightarrow> 2 ^ 64 \<le> uint a + uint (as_u64 d)"
    using of_nat_le_iff [where 'a = int, of "2 ^ 64" "unat a + unat (as_u64 d)"] by (simp add: not_less)
  show ?thesis
  proof (cases "d < 0")
    case True
    then have u: "uint (as_u64 d) = d + 2 ^ 64" by (simp add: unat_as_u64 [OF assms])
    show ?thesis
    proof (cases "0 \<le> uint a + d")
      case True
      have "(uint a + (d + 2 ^ 64)) mod 2 ^ 64 = (uint a + d) mod 2 ^ 64"
        using mod_add_self2 [of "uint a + d" "2 ^ 64"] by (simp add: add.assoc)
      also have "\<dots> = uint a + d" using True \<open>d < 0\<close> a by (intro mod_pos_pos_trivial) simp_all
      finally show ?thesis
        using True \<open>d < 0\<close> a plus unfolding saturating_add_signed_def Let_def ov u by simp
    next
      case False
      then show ?thesis using \<open>d < 0\<close> unfolding saturating_add_signed_def Let_def ov u by simp
    qed
  next
    case False
    then have u: "uint (as_u64 d) = d" by (simp add: unat_as_u64 [OF assms])
    show ?thesis
    proof (cases "uint a + d < 2 ^ 64")
      case True
      then have "(uint a + d) mod 2 ^ 64 = uint a + d"
        using False by (intro mod_pos_pos_trivial) simp_all
      then show ?thesis
        using True False plus unfolding saturating_add_signed_def Let_def ov u by simp
    next
      case ge: False
      have "uint (max_val :: u64) = 2 ^ 64 - 1" by (simp add: unsigned_minus_1_eq_mask mask_eq_exp_minus_1)
      then show ?thesis using ge False unfolding saturating_add_signed_def Let_def ov u by simp
    qed
  qed
qed

lemma as_i64_small:
  assumes "unat w < 2 ^ 63"
  shows "as_i64 w = uint w"
proof -
  have "uint w < 2 ^ 63" using assms by (rule uint_less)
  then have "- (2 ^ 63) \<le> uint w" "uint w < 2 ^ 63" using uint_ge_0 [of w] by linarith+
  then show ?thesis unfolding as_i64_def sint_uint by (simp add: signed_take_bit_int_eq_self)
qed

lemma current_int:
  "i64_ok (delta m) \<Longrightarrow> uint (current m) = max 0 (min (2 ^ 64 - 1) (uint (initial m) + delta m))"
  by (simp add: current_def unat_saturating_add_signed)

lemma i64_ok_saturating: "i64_ok (i64_saturating i)"
  by (simp add: i64_ok_def i64_saturating_def)

text \<open>The test of \<open>consume\<close>, on the numbers.\<close>

lemma consume_cases:
  assumes ok: "i64_ok (delta m)" "current m \<le> maximum m" "unat (maximum m) < 2 ^ 63"
  shows "consume amount m = (if uint (current m) + amount > uint (maximum m)
    then Inl MaxAccountsDataSizeExceeded else Inr (consume_unchecked amount m))"
proof -
  have le: "unat (current m) \<le> unat (maximum m)" using ok(2) by (simp add: word_le_nat_alt)
  have r: "unat (remaining m) = unat (maximum m) - unat (current m)" by (simp add: remaining_def unat_saturating_sub)
  then have "as_i64 (remaining m) = uint (remaining m)"
    using ok(3) by (intro as_i64_small) linarith
  also have "\<dots> = uint (maximum m) - uint (current m)"
    unfolding uint_nat r using le by (rule of_nat_diff)
  finally have "as_i64 (remaining m) = uint (maximum m) - uint (current m)" .
  then show ?thesis by (simp add: consume_def less_diff_eq add.commute)
qed

lemma consume_bounds:
  assumes "i64_ok (delta m)" "initial m \<le> maximum m" "current m \<le> maximum m" "unat (maximum m) < 2 ^ 63"
    and "consume amount m = Inr m'"
  shows "current m' \<le> maximum m'"
proof -
  have m': "m' = consume_unchecked amount m" and le: "uint (current m) + amount \<le> uint (maximum m)"
    using assms(5) consume_cases [OF assms(1,3,4), of amount] by (auto split: if_splits)
  define x where "x = uint (initial m) + delta m"
  define y where "y = uint (initial m) + i64_saturating (delta m + amount)"
  have ini: "uint (initial m) \<le> uint (maximum m)" using assms(2) by (simp add: word_le_def)
  have mx: "uint (maximum m) < 2 ^ 63" using assms(4) by (rule uint_less)
  have "x + amount \<le> uint (maximum m)"
    using le current_int [OF assms(1)] assms(3) mx unfolding x_def [symmetric] word_le_def
    by (simp add: max_def min_def split: if_splits)
  then have "y \<le> uint (maximum m)" using ini mx by (auto simp: y_def x_def i64_saturating_def)
  then have "max 0 (min (2 ^ 64 - 1) y) \<le> uint (maximum m)" by simp
  moreover have "uint (current m') = max 0 (min (2 ^ 64 - 1) y)"
    using current_int [of m'] by (simp add: m' consume_unchecked_def i64_ok_saturating y_def)
  ultimately have "uint (current m') \<le> uint (maximum m)" by simp
  then show ?thesis by (simp add: m' consume_unchecked_def word_le_def)
qed

text \<open>
  The check between invocations computes the change of an account's size after it has replaced the
  recorded account, so the change it meters is always zero.
\<close>

lemma update_one_meter:
  assumes "update_one cfg program_id ais wps u i (a, b, st) = Inr (a', b', st')"
    and "i64_ok (delta (data_meter st))"
  shows "data_meter st' = data_meter st"
proof -
  from assms(1) obtain pa k t m where v: "verify pa program_id (wps ! i) (config_rent cfg) (cells st k)
      (details st) False (do_support_realloc \<in> config_features cfg) = Inr t"
    and m: "meter_data cfg (pre (if wps ! i \<and> \<not> executable (pre pa) then pre_account_update pa (cells st k) else pa))
      (cells st k) (data_meter st) = Inr m" and "data_meter st' = m"
    unfolding update_one_def Let_def by (auto elim!: bind_r_InrE split: if_splits option.splits)
  have "\<not> (wps ! i \<and> \<not> executable (pre pa)) \<Longrightarrow> cells st k = pre pa"
    using verify_contract [OF v] unfolding account_contract_def by blast
  then have "length (data (pre (if wps ! i \<and> \<not> executable (pre pa) then pre_account_update pa (cells st k) else pa)))
      = length (data (cells st k))"
    by (simp add: pre_account_update_def)
  then have "m = consume_unchecked 0 (data_meter st)"
    using m by (auto simp: meter_data_def consume_def i64_saturating_def split: if_splits)
  then show ?thesis
    using assms(2) \<open>data_meter st' = m\<close>
    by (simp add: consume_unchecked_def i64_saturating_def i64_ok_def)
qed

lemma cpi_never_meters:
  assumes "verify_and_update cfg ix ais wps st = Inr st'" and "i64_ok (delta (data_meter st))"
  shows "data_meter st' = data_meter st"
proof -
  have "data_meter st2 = data_meter st1"
    if "visit_list (update_one cfg pid ais wps) u is (a, b, st1) = Inr (a', b', st2)"
      "i64_ok (delta (data_meter st1))" for pid u "is" a b st1 a' b' st2
    using that
  proof (induction "is" arbitrary: u a b st1)
    case (Cons x xs)
    then obtain a1 b1 st3 where one: "update_one cfg pid ais wps u (unat x) (a, b, st1) = Inr (a1, b1, st3)"
      and rest: "visit_list (update_one cfg pid ais wps) (u + 1) xs (a1, b1, st3) = Inr (a', b', st2)"
      by (auto simp: bind_r_Inr)
    from update_one_meter [OF one Cons.prems(2)] Cons.IH [OF rest] Cons.prems(2) show ?case by simp
  qed simp
  then show ?thesis
    using assms unfolding verify_and_update_def visit_each_account_list
    by (auto elim!: bind_r_InrE split: if_splits)
qed

section \<open>A concrete message\<close>

text \<open>
  A builtin program at key 8 that moves four lamports between the first two accounts of its
  instruction, called on the accounts 5 (which it owns) and 6.
\<close>

definition mover :: program where
  "mover first bytes fr units s =
     (case drop (number_of_program_accounts fr) (frame_keyed_accounts fr) of
        a # b # _ \<Rightarrow> bind_r (move_lamports (key a) (key b) 4 s) (\<lambda>s'. Inr (units - 100, s'))
      | _ \<Rightarrow> Inl NotEnoughAccountKeys)"

definition mover_config :: runtime_config where
  "mover_config = \<lparr>config_rent = rent_default, config_features = {},
     config_compute_budget = compute_budget_new DEFAULT_UNITS,
     builtin_programs = [(8, mover)], native_loader_program = (\<lambda>_ _ _ _ _. Inl UnsupportedProgramId)\<rparr>"

definition mover_message :: message where
  "mover_message = \<lparr>message_keys = [5, 6, 8], message_is_signer = (\<lambda>i. i = 0),
     message_is_writable = (\<lambda>i. i < 2)\<rparr>"

definition mover_instruction :: compiled_instruction where
  "mover_instruction = \<lparr>program_id_index = 2, ix_accounts = [0, 1], ix_data = []\<rparr>"

definition mover_store :: store where
  "mover_store = (\<lambda>_. account_default)
     (5 := account_default\<lparr>lamports := 10, owner := 8\<rparr>,
      8 := account_default\<lparr>lamports := 1, owner := native_loader_id, executable := True\<rparr>)"

definition moved_store :: store where
  "moved_store = mover_store
     (5 := account_default\<lparr>lamports := 6, owner := 8\<rparr>, 6 := account_default\<lparr>lamports := 4\<rparr>)"

definition mover_state :: runtime_state where
  "mover_state = \<lparr>account_keys = [5, 6, 8], cells = mover_store, invoke_stack = [], pre_accounts = [],
     data_meter = accounts_data_meter_new 0, details = details_default,
     current_compute_budget = config_compute_budget mover_config, compute_meter = 200000\<rparr>"

lemma mover_frame: "p \<in> programs mover_config \<Longrightarrow> program_frame p"
proof -
  have "program_frame mover"
    unfolding program_frame_def mover_def
    by (auto simp: bind_r_Inr split: list.splits dest!: move_lamports_frame(1))
  then show "p \<in> programs mover_config \<Longrightarrow> program_frame p"
    by (auto simp: programs_def mover_config_def program_frame_def)
qed

lemmas mover_defs = compute_budget_new_def DEFAULT_UNITS_def mover_config_def mover_message_def mover_instruction_def mover_state_def

definition mover_frame_of :: stack_frame where
  "mover_frame_of = \<lparr>number_of_program_accounts = 1, frame_keyed_accounts =
     [\<lparr>is_signer = False, is_writable = False, key = 8\<rparr>, \<lparr>is_signer = True, is_writable = True, key = 5\<rparr>,
      \<lparr>is_signer = False, is_writable = True, key = 6\<rparr>]\<rparr>"

definition mover_pushed :: runtime_state where
  "mover_pushed = mover_state\<lparr>invoke_stack := [mover_frame_of],
     pre_accounts := [pre_account_new 5 (mover_store 5), pre_account_new 6 (mover_store 6)]\<rparr>"

lemma mover_push: "push mover_config mover_message mover_instruction [2] [] mover_state = Inr mover_pushed"
  by (simp add: push_def mover_defs mover_pushed_def mover_frame_of_def visit_each_account_def
      take_pre_account_def keyed_accounts_for_def index_r_def Let_def instruction_compute_budget_def)

lemma mover_chain:
  "process_executable_chain mover_config [] mover_pushed
     = Inr (mover_pushed\<lparr>compute_meter := 199900, cells := moved_store\<rparr>)"
proof -
  have "mover 1 [] mover_frame_of 200000 mover_store = Inr (199900, moved_store)"
    by (simp add: mover_def mover_frame_of_def move_lamports_distinct moved_store_def mover_store_def
        account_default_def)
  moreover have "(\<lambda>k. if k \<in> {8, 5, 6} then moved_store k else mover_store k) = moved_store"
    by (auto simp: fun_eq_iff moved_store_def)
  moreover have "owner (mover_store 8) = native_loader_id" by (simp add: mover_store_def)
  moreover have "frame_keyed_accounts mover_frame_of = [\<lparr>is_signer = False, is_writable = False, key = 8\<rparr>,
      \<lparr>is_signer = True, is_writable = True, key = 5\<rparr>, \<lparr>is_signer = False, is_writable = True, key = 6\<rparr>]"
    by (simp add: mover_frame_of_def)
  ultimately show ?thesis
    by (simp add: process_executable_chain_def mover_pushed_def mover_config_def mover_state_def
        keyed_account_at_index_def run_program_def cong: if_cong)
qed

lemma mover_verify:
  "\<exists>st'. invoke_verify mover_config mover_message mover_instruction [2] (mover_pushed\<lparr>compute_meter := 199900, cells := moved_store\<rparr>) = Inr st'
     \<and> cells st' = moved_store"
proof -
  have v5: "\<exists>t. verify (pre_account_new 5 (mover_store 5)) 8 True rent_default (moved_store 5) d True False = Inr t" for d
    by (simp add: verify_def Let_def pre_account_new_def mover_store_def moved_store_def account_default_def)
  have v6: "\<exists>t. verify (pre_account_new 6 (mover_store 6)) 8 True rent_default (moved_store 6) d True False = Inr t" for d
    by (simp add: verify_def Let_def pre_account_new_def mover_store_def moved_store_def account_default_def)
  from v5 v6 obtain f g where f: "verify (pre_account_new 5 (mover_store 5)) 8 True rent_default (moved_store 5) d True False = Inr (f d)"
    and g: "verify (pre_account_new 6 (mover_store 6)) 8 True rent_default (moved_store 6) d True False = Inr (g d)" for d
    by metis
  have l: "lamports (mover_store 5) = 10" "lamports (mover_store 6) = 0" "lamports (moved_store 5) = 6"
    "lamports (moved_store 6) = 4"
    by (simp_all add: mover_store_def moved_store_def account_default_def)
  have pre_new: "pre (pre_account_new k a) = a" for k a by (simp add: pre_account_new_def)
  show ?thesis
    by (simp add: invoke_verify_def mover_pushed_def mover_defs visit_each_account_def index_r_def
        verify_one_def f g meter_data_def checked_add_def l pre_new)
qed

lemma mover_run:
  "\<exists>st'. invoke_process_instruction mover_config mover_message mover_instruction [2] [] [] mover_state = Inr (100, st')
     \<and> cells st' = moved_store"
proof -
  obtain st' where "invoke_verify mover_config mover_message mover_instruction [2]
      (mover_pushed\<lparr>compute_meter := 199900, cells := moved_store\<rparr>) = Inr st'" "cells st' = moved_store"
    using mover_verify by blast
  moreover have "invoke_stack mover_state = []" "ix_data mover_instruction = []"
    "index_r (message_keys mover_message) (unat (program_id_index mover_instruction)) = Inr 8"
    "compute_meter mover_pushed = 200000"
    by (simp_all add: mover_defs index_r_def mover_pushed_def)
  ultimately show ?thesis
    by (simp add: invoke_process_instruction_def mover_push mover_chain pop_def saturating_sub_def)
qed

section \<open>Properties\<close>





text \<open>
  The meter of the accounts' data never passes its maximum: it accepts a change exactly when the
  size after it is within the maximum, and then stays within it.
\<close>

lemma consume_within_maximum:
  assumes "i64_ok (delta m)" and "initial m \<le> maximum m" and "current m \<le> maximum m"
    and "unat (maximum m) < 2 ^ 63"
  shows "consume amount m = (if uint (maximum m) < uint (current m) + amount
      then Inl MaxAccountsDataSizeExceeded else Inr (consume_unchecked amount m))
    \<and> (\<forall>m'. consume amount m = Inr m' \<longrightarrow> current m' \<le> maximum m' \<and> i64_ok (delta m'))"
proof -
  have "i64_ok (delta m')" if "consume amount m = Inr m'" for m'
    using that by (auto simp: consume_def consume_unchecked_def i64_ok_saturating split: if_splits)
  then show ?thesis using consume_cases [OF assms(1,3,4)] consume_bounds [OF assms] by blast
qed

end
