(* ===== verification/Hash_Map.thy ===== *)
theory Hash_Map
  imports Prelude "HOL-Library.AList"
begin

text \<open>
  \<open>HashMap\<close>: an association list with distinct keys, in the order the map happens to iterate; no
  property depends on that order. Caches built on maps keep totals of their values, and the locale
  \<open>summed_map\<close> is what they rely on: how a total moves when an entry is inserted or removed.
\<close>

type_synonym ('k, 'v) hash_map = "('k \<times> 'v) list"

definition hm_insert :: "'k \<Rightarrow> 'v \<Rightarrow> ('k, 'v) hash_map \<Rightarrow> ('k, 'v) hash_map" where
  "hm_insert = AList.update"

definition hm_remove :: "'k \<Rightarrow> ('k, 'v) hash_map \<Rightarrow> ('k, 'v) hash_map" where
  "hm_remove = AList.delete"

definition hm_ok :: "('k, 'v) hash_map \<Rightarrow> bool" where
  "hm_ok m \<longleftrightarrow> distinct (map fst m)"

definition hm_total :: "('k \<Rightarrow> 'v \<Rightarrow> nat) \<Rightarrow> ('k, 'v) hash_map \<Rightarrow> nat" where
  "hm_total f m = (\<Sum>(k, v)\<leftarrow>m. f k v)"

locale summed_map =
  fixes lookup :: "'m \<Rightarrow> 'k \<Rightarrow> 'v option"
    and insert :: "'k \<Rightarrow> 'v \<Rightarrow> 'm \<Rightarrow> 'm"
    and remove :: "'k \<Rightarrow> 'm \<Rightarrow> 'm"
    and total :: "('k \<Rightarrow> 'v \<Rightarrow> nat) \<Rightarrow> 'm \<Rightarrow> nat"
    and invar :: "'m \<Rightarrow> bool"
  assumes lookup_insert: "lookup (insert k v m) = (lookup m)(k \<mapsto> v)"
    and lookup_remove: "lookup (remove k m) = (lookup m)(k := None)"
    and invar_insert: "invar m \<Longrightarrow> invar (insert k v m)"
    and invar_remove: "invar m \<Longrightarrow> invar (remove k m)"
    and total_insert: "invar m \<Longrightarrow> lookup m k = None \<Longrightarrow> total f (insert k v m) = total f m + f k v"
    and total_remove: "invar m \<Longrightarrow> lookup m k = Some v \<Longrightarrow> total f m = total f (remove k m) + f k v"
    and total_replace: "invar m \<Longrightarrow> total f (insert k v m) = total f (insert k v (remove k m))"
    and total_mono: "(\<And>k v. lookup m k = Some v \<Longrightarrow> f k v \<le> g k v) \<Longrightarrow> invar m \<Longrightarrow> total f m \<le> total g m"
begin

text \<open>Inserting, whether or not the key has a value already.\<close>

lemma total_update:
  assumes "invar m"
  shows "total f (insert k v m) + (case lookup m k of Some w \<Rightarrow> f k w | None \<Rightarrow> 0) = total f m + f k v"
proof (cases "lookup m k")
  case None
  then show ?thesis by (simp add: total_insert assms)
next
  case (Some w)
  have "total f (insert k v m) = total f (remove k m) + f k v"
    using total_replace [OF assms, of f k v] total_insert [OF invar_remove [OF assms]] by (simp add: lookup_remove)
  with Some total_remove [OF assms Some] show ?thesis by simp
qed

lemma total_member: "invar m \<Longrightarrow> lookup m k = Some v \<Longrightarrow> f k v \<le> total f m"
  using total_remove by fastforce

lemma total_cong: "invar m \<Longrightarrow> (\<And>k v. lookup m k = Some v \<Longrightarrow> f k v = g k v) \<Longrightarrow> total f m = total g m"
  by (intro antisym total_mono) simp_all

lemma total_remove_le: "invar m \<Longrightarrow> total f (remove k m) \<le> total f m + f k v"
  using total_update [of "remove k m" f k v] total_replace [of m f k v] total_update [of m f k v]
  by (cases "lookup m k") (auto simp: lookup_remove invar_remove)

end

lemma hm_total_simps [simp]:
  "hm_total f [] = 0" "hm_total f ((k, v) # m) = f k v + hm_total f m" "hm_total f (m @ m') = hm_total f m + hm_total f m'"
  by (simp_all add: hm_total_def)

lemma hm_remove_notin: "k \<notin> fst ` set m \<Longrightarrow> hm_remove k m = m"
  by (simp add: hm_remove_def delete_idem)

lemma hm_total_remove:
  "hm_ok m \<Longrightarrow> map_of m k = Some v \<Longrightarrow> hm_total f m = hm_total f (hm_remove k m) + f k v"
  by (induction m) (auto simp: hm_ok_def hm_remove_def delete_idem split: if_splits)

lemma hm_total_insert_new: "map_of m k = None \<Longrightarrow> hm_total f (hm_insert k v m) = hm_total f m + f k v"
  by (induction m) (auto simp: hm_insert_def split: if_splits)

lemma hm_total_replace: "hm_ok m \<Longrightarrow> hm_total f (hm_insert k v m) = hm_total f (hm_insert k v (hm_remove k m))"
proof (induction m)
  case (Cons e m)
  obtain k' w where e: "e = (k', w)" by (cases e)
  have ok: "hm_ok m" and k': "k' \<notin> fst ` set m" using Cons.prems e by (auto simp: hm_ok_def)
  show ?case
  proof (cases "k' = k")
    case True
    with k' have "hm_remove k (e # m) = m" "map_of m k = None"
      using hm_remove_notin [of k m] by (simp_all add: e hm_remove_def map_of_eq_None_iff)
    then show ?thesis using True by (simp add: e hm_total_insert_new) (simp add: hm_insert_def)
  next
    case False
    then have "hm_remove k (e # m) = e # hm_remove k m" by (simp add: e hm_remove_def)
    then show ?thesis using False Cons.IH [OF ok] by (simp add: e hm_insert_def)
  qed
qed (simp add: hm_remove_def)

lemma hm_total_mono:
  "(\<And>k v. map_of m k = Some v \<Longrightarrow> f k v \<le> g k v) \<Longrightarrow> hm_ok m \<Longrightarrow> hm_total f m \<le> hm_total g m"
proof (induction m)
  case (Cons e m)
  obtain k v where e: "e = (k, v)" by (cases e)
  have "hm_ok m" and k: "k \<notin> fst ` set m" using Cons.prems(2) e by (auto simp: hm_ok_def)
  moreover have "f k' v' \<le> g k' v'" if "map_of m k' = Some v'" for k' v'
  proof (rule Cons.prems(1))
    have "k' \<noteq> k" using k map_of_SomeD [OF that] by force
    with that show "map_of (e # m) k' = Some v'" by (simp add: e)
  qed
  ultimately show ?case using Cons.IH Cons.prems(1) [of k v] by (simp add: e add_mono)
qed simp

interpretation hm: summed_map map_of hm_insert hm_remove hm_total hm_ok
  by unfold_locales
    (auto simp: hm_insert_def hm_remove_def update_conv' delete_conv' hm_ok_def distinct_update distinct_delete
      intro: hm_total_mono [unfolded hm_ok_def] hm_total_insert_new [unfolded hm_insert_def]
        hm_total_remove [unfolded hm_ok_def hm_remove_def]
        hm_total_replace [unfolded hm_ok_def hm_remove_def hm_insert_def])

lemma hm_ok_Nil [simp]: "hm_ok []"
  by (simp add: hm_ok_def)

end
