(* ===== verification/Vote_Accounts.thy ===== *)
theory Vote_Accounts
  imports Hash_Map Vote_Program
begin

text \<open>
  The cache of vote accounts (\<open>runtime/src/vote_account.rs\<close>): each vote account with the stake
  delegated to it, and, once somebody has asked for it, the stake of each node. The map of nodes is
  computed on the first request and from then on kept up to date by every change of an account.
\<close>

section \<open>The operations\<close>

text \<open>\<open>vote_state\<close> is deserialised on the first access; what it returns is a function of the account.\<close>

definition vote_account_node_pubkey :: "vote_codecs \<Rightarrow> account \<Rightarrow> pubkey option" where
  "vote_account_node_pubkey vcs a =
     (case vote_state_deserialize vcs (data a) of Inr vs \<Rightarrow> Some (node_pubkey vs) | Inl _ \<Rightarrow> None)"

text \<open>\<open>staked_nodes\<close> is \<open>None\<close> until \<open>staked_nodes_once\<close> is completed.\<close>

record vote_accounts =
  va_accounts :: "(pubkey, u64 \<times> account) hash_map"
  va_staked_nodes :: "(pubkey, u64) hash_map option"

definition vote_accounts_default :: vote_accounts where
  "vote_accounts_default = \<lparr>va_accounts = [], va_staked_nodes = None\<rparr>"

definition vote_accounts_from :: "(pubkey, u64 \<times> account) hash_map \<Rightarrow> vote_accounts" where
  "vote_accounts_from m = \<lparr>va_accounts = m, va_staked_nodes = None\<rparr>"

definition group_node_stakes :: "vote_codecs \<Rightarrow> (pubkey, u64 \<times> account) hash_map \<Rightarrow> (pubkey, u64) hash_map" where
  "group_node_stakes vcs m =
     fold (\<lambda>(_, stake, a) nodes.
         if stake \<noteq> 0 then
           (case vote_account_node_pubkey vcs a of
              Some n \<Rightarrow> hm_insert n (unwrap_or (map_of nodes n) 0 + stake) nodes
            | None \<Rightarrow> nodes)
         else nodes) m []"

definition staked_nodes :: "vote_codecs \<Rightarrow> vote_accounts \<Rightarrow> (pubkey, u64) hash_map \<times> vote_accounts" where
  "staked_nodes vcs va =
     (case va_staked_nodes va of
        Some nodes \<Rightarrow> (nodes, va)
      | None \<Rightarrow>
          (let nodes = group_node_stakes vcs (va_accounts va) in (nodes, va\<lparr>va_staked_nodes := Some nodes\<rparr>)))"

definition add_node_stake :: "vote_codecs \<Rightarrow> u64 \<Rightarrow> account \<Rightarrow> vote_accounts \<Rightarrow> vote_accounts" where
  "add_node_stake vcs stake a va =
     (case (va_staked_nodes va, vote_account_node_pubkey vcs a) of
        (Some nodes, Some n) \<Rightarrow>
          if stake \<noteq> 0 then
            va\<lparr>va_staked_nodes := Some
              (hm_insert n (case map_of nodes n of Some s \<Rightarrow> s + stake | None \<Rightarrow> stake) nodes)\<rparr>
          else va
      | _ \<Rightarrow> va)"

definition sub_node_stake :: "vote_codecs \<Rightarrow> u64 \<Rightarrow> account \<Rightarrow> vote_accounts \<Rightarrow> vote_accounts ix_result" where
  "sub_node_stake vcs stake a va =
     (case (va_staked_nodes va, vote_account_node_pubkey vcs a) of
        (Some nodes, Some n) \<Rightarrow>
          if stake \<noteq> 0 then
            (case map_of nodes n of
               None \<Rightarrow> Inl Panicked
             | Some s \<Rightarrow>
                 if s < stake then Inl Panicked
                 else if s = stake then Inr (va\<lparr>va_staked_nodes := Some (hm_remove n nodes)\<rparr>)
                 else Inr (va\<lparr>va_staked_nodes := Some (hm_insert n (s - stake) nodes)\<rparr>))
          else Inr va
      | _ \<Rightarrow> Inr va)"

definition vote_accounts_insert ::
  "vote_codecs \<Rightarrow> pubkey \<Rightarrow> u64 \<times> account \<Rightarrow> vote_accounts \<Rightarrow> vote_accounts ix_result" where
  "vote_accounts_insert vcs k entry va =
     (let va1 = add_node_stake vcs (fst entry) (snd entry) va;
          old = map_of (va_accounts va1) k;
          va2 = va1\<lparr>va_accounts := hm_insert k entry (va_accounts va1)\<rparr>
      in case old of Some (stake, a) \<Rightarrow> sub_node_stake vcs stake a va2 | None \<Rightarrow> Inr va2)"

definition vote_accounts_remove ::
  "vote_codecs \<Rightarrow> pubkey \<Rightarrow> vote_accounts \<Rightarrow> ((u64 \<times> account) option \<times> vote_accounts) ix_result" where
  "vote_accounts_remove vcs k va =
     (let entry = map_of (va_accounts va) k;
          va1 = va\<lparr>va_accounts := hm_remove k (va_accounts va)\<rparr>
      in case entry of
           Some (stake, a) \<Rightarrow> bind_r (sub_node_stake vcs stake a va1) (\<lambda>va2. Inr (entry, va2))
         | None \<Rightarrow> Inr (None, va1))"

definition add_stake :: "vote_codecs \<Rightarrow> pubkey \<Rightarrow> u64 \<Rightarrow> vote_accounts \<Rightarrow> vote_accounts" where
  "add_stake vcs k delta va =
     (case map_of (va_accounts va) k of
        Some (stake, a) \<Rightarrow>
          add_node_stake vcs delta a (va\<lparr>va_accounts := hm_insert k (stake + delta, a) (va_accounts va)\<rparr>)
      | None \<Rightarrow> va)"

definition sub_stake :: "vote_codecs \<Rightarrow> pubkey \<Rightarrow> u64 \<Rightarrow> vote_accounts \<Rightarrow> vote_accounts ix_result" where
  "sub_stake vcs k delta va =
     (case map_of (va_accounts va) k of
        Some (stake, a) \<Rightarrow>
          bind_r (ok_or (checked_sub stake delta) Panicked) (\<lambda>stake'.
            sub_node_stake vcs delta a (va\<lparr>va_accounts := hm_insert k (stake', a) (va_accounts va)\<rparr>))
      | None \<Rightarrow> Inr va)"

section \<open>The map of nodes counts the stake of each node\<close>

text \<open>The stake of a node: that of every vote account that names it.\<close>

definition node_stake :: "vote_codecs \<Rightarrow> (pubkey, u64 \<times> account) hash_map \<Rightarrow> pubkey \<Rightarrow> nat" where
  "node_stake vcs m n = hm_total (\<lambda>_ (stake, a). if vote_account_node_pubkey vcs a = Some n then unat stake else 0) m"

definition staked :: "(pubkey, u64 \<times> account) hash_map \<Rightarrow> nat" where
  "staked m = hm_total (\<lambda>_ (stake, _). unat stake) m"

text \<open>\<open>counts nodes g\<close>: the map has exactly the nodes with stake, each with its stake.\<close>

definition counts :: "(pubkey, u64) hash_map \<Rightarrow> (pubkey \<Rightarrow> nat) \<Rightarrow> bool" where
  "counts nodes g \<longleftrightarrow> hm_ok nodes \<and> (\<forall>n. map_of nodes n = (if g n = 0 then None else Some (of_nat (g n))))"

definition va_ok :: "vote_codecs \<Rightarrow> vote_accounts \<Rightarrow> bool" where
  "va_ok vcs va \<longleftrightarrow> hm_ok (va_accounts va) \<and> staked (va_accounts va) < 2 ^ 64
     \<and> (\<forall>nodes. va_staked_nodes va = Some nodes \<longrightarrow> counts nodes (node_stake vcs (va_accounts va)))"

lemma node_stake_le: "hm_ok m \<Longrightarrow> node_stake vcs m n \<le> staked m"
  unfolding node_stake_def staked_def by (rule hm.total_mono) auto

text \<open>How the two totals move with one entry.\<close>

lemma node_stake_insert:
  "hm_ok m \<Longrightarrow> node_stake vcs (hm_insert k (s, a) m) n
      + (case map_of m k of Some (t, b) \<Rightarrow> if vote_account_node_pubkey vcs b = Some n then unat t else 0 | None \<Rightarrow> 0)
    = node_stake vcs m n + (if vote_account_node_pubkey vcs a = Some n then unat s else 0)"
  using hm.total_update [of m "\<lambda>_ (stake, a). if vote_account_node_pubkey vcs a = Some n then unat stake else 0" k "(s, a)"]
  by (auto simp: node_stake_def split: option.splits)

lemma staked_insert:
  "hm_ok m \<Longrightarrow> staked (hm_insert k (s, a) m) + (case map_of m k of Some (t, b) \<Rightarrow> unat t | None \<Rightarrow> 0) = staked m + unat s"
  using hm.total_update [of m "\<lambda>_ (stake, _). unat stake" k "(s, a)"]
  by (auto simp: staked_def split: option.splits)

lemma node_stake_remove:
  "hm_ok m \<Longrightarrow> map_of m k = Some (s, a) \<Longrightarrow>
     node_stake vcs m n = node_stake vcs (hm_remove k m) n + (if vote_account_node_pubkey vcs a = Some n then unat s else 0)"
  using hm.total_remove [of m k "(s, a)"] by (simp add: node_stake_def)

lemma staked_remove: "hm_ok m \<Longrightarrow> map_of m k = Some (s, a) \<Longrightarrow> staked m = staked (hm_remove k m) + unat s"
  using hm.total_remove [of m k "(s, a)"] by (simp add: staked_def)

text \<open>Adding to and taking from the stake of one node.\<close>

lemma counts_add:
  assumes c: "counts nodes g" and s: "s \<noteq> 0" and fits: "g n + unat s < 2 ^ 64"
    and g': "\<And>m. g' m = g m + (if m = n then unat s else 0)"
  shows "counts (hm_insert n (case map_of nodes n of Some t \<Rightarrow> t + s | None \<Rightarrow> s) nodes) g'"
proof -
  have "unat s \<noteq> 0" using s by (simp add: unat_eq_0)
  moreover have "(of_nat (g n) :: u64) + s = of_nat (g n + unat s)" by simp
  ultimately show ?thesis
    using c unfolding counts_def g' by (auto simp: hm.lookup_insert hm.invar_insert)
qed

lemma counts_sub:
  assumes c: "counts nodes g" and s: "s \<noteq> 0" and le: "unat s \<le> g n" and fits: "g n < 2 ^ 64"
    and g': "\<And>m. g m = g' m + (if m = n then unat s else 0)"
  obtains t where "map_of nodes n = Some t" and "s \<le> t" and "t = s \<longrightarrow> counts (hm_remove n nodes) g'"
    and "t \<noteq> s \<longrightarrow> counts (hm_insert n (t - s) nodes) g'"
proof
  have s0: "unat s \<noteq> 0" using s by (simp add: unat_eq_0)
  have gn: "g n = g' n + unat s" and other: "m \<noteq> n \<Longrightarrow> g m = g' m" for m by (simp_all add: g')
  have w: "of_nat (g n) = of_nat (g' n) + s" by (simp add: gn)
  have "g' n < 2 ^ 64" using fits gn by linarith
  then have u: "unat (of_nat (g n) :: u64) = g n" "unat (of_nat (g' n) :: u64) = g' n"
    using fits by (simp_all add: unat_of_nat_fits)
  have eq: "of_nat (g n) = s \<longleftrightarrow> g' n = 0" using u w by auto
  have ok: "hm_ok nodes" and look: "map_of nodes m = (if g m = 0 then None else Some (of_nat (g m)))" for m
    using c by (simp_all add: counts_def)
  show "map_of nodes n = Some (of_nat (g n))" using look [of n] le s0 by simp
  show "s \<le> of_nat (g n)" using le u by (simp add: word_le_nat_alt)
  show "of_nat (g n) = s \<longrightarrow> counts (hm_remove n nodes) g'"
    unfolding counts_def using ok eq look other by (simp add: hm.lookup_remove hm.invar_remove)
  have "of_nat (g n) - s = (of_nat (g' n) :: u64)" using w by simp
  then show "of_nat (g n) \<noteq> s \<longrightarrow> counts (hm_insert n (of_nat (g n) - s) nodes) g'"
    unfolding counts_def using ok eq look other by (simp add: hm.lookup_insert hm.invar_insert)
qed

definition nodes_count :: "vote_accounts \<Rightarrow> (pubkey \<Rightarrow> nat) \<Rightarrow> bool" where
  "nodes_count va g \<longleftrightarrow> (\<forall>nodes. va_staked_nodes va = Some nodes \<longrightarrow> counts nodes g)"

lemma add_node_stake_counts:
  assumes "nodes_count va g" and "\<And>n. g n + unat s < 2 ^ 64"
    and "\<And>n. g' n = g n + (if vote_account_node_pubkey vcs a = Some n then unat s else 0)"
  shows "nodes_count (add_node_stake vcs s a va) g'"
    and "va_accounts (add_node_stake vcs s a va) = va_accounts va"
proof -
  have same: "g' = g" if "vote_account_node_pubkey vcs a = None \<or> s = 0" using assms(3) that by auto
  show "nodes_count (add_node_stake vcs s a va) g'"
  proof (cases "va_staked_nodes va = None \<or> vote_account_node_pubkey vcs a = None \<or> s = 0")
    case True
    then show ?thesis
      using assms(1) same by (auto simp: nodes_count_def add_node_stake_def split: option.splits)
  next
    case False
    then obtain nodes n where nn: "va_staked_nodes va = Some nodes" "vote_account_node_pubkey vcs a = Some n" "s \<noteq> 0"
      by auto
    then have "counts (hm_insert n (case map_of nodes n of Some t \<Rightarrow> t + s | None \<Rightarrow> s) nodes) g'"
      using assms by (intro counts_add) (auto simp: nodes_count_def)
    with nn show ?thesis by (simp add: nodes_count_def add_node_stake_def)
  qed
qed (auto simp: add_node_stake_def split: option.splits)

lemma sub_node_stake_counts:
  assumes "nodes_count va g" and "\<And>n. g n < 2 ^ 64"
    and "\<And>n. g n = g' n + (if vote_account_node_pubkey vcs a = Some n then unat s else 0)"
  obtains va' where "sub_node_stake vcs s a va = Inr va'" and "nodes_count va' g'"
    and "va_accounts va' = va_accounts va"
proof (cases "va_staked_nodes va = None \<or> vote_account_node_pubkey vcs a = None \<or> s = 0")
  case True
  moreover have "g' = g" if "vote_account_node_pubkey vcs a = None \<or> s = 0" using assms(3) that by auto
  ultimately show ?thesis
    using assms(1) by (intro that [of va]) (auto simp: nodes_count_def sub_node_stake_def split: option.splits)
next
  case False
  then obtain nodes n where nn: "va_staked_nodes va = Some nodes" "vote_account_node_pubkey vcs a = Some n" "s \<noteq> 0"
    by auto
  have c: "counts nodes g" using assms(1) nn by (simp add: nodes_count_def)
  have le: "unat s \<le> g n" using assms(3) [of n] nn by simp
  have "g m = g' m + (if m = n then unat s else 0)" for m using assms(3) [of m] nn(2) by auto
  then obtain t where t: "map_of nodes n = Some t" "s \<le> t" "t = s \<longrightarrow> counts (hm_remove n nodes) g'"
    "t \<noteq> s \<longrightarrow> counts (hm_insert n (t - s) nodes) g'"
    by (rule counts_sub [OF c nn(3) le assms(2)])
  show ?thesis
  proof (cases "t = s")
    case True
    with t nn show ?thesis
      by (intro that [of "va\<lparr>va_staked_nodes := Some (hm_remove n nodes)\<rparr>"])
        (simp_all add: sub_node_stake_def nodes_count_def)
  next
    case False
    with t nn show ?thesis
      by (intro that [of "va\<lparr>va_staked_nodes := Some (hm_insert n (t - s) nodes)\<rparr>"])
        (simp_all add: sub_node_stake_def nodes_count_def not_less)
  qed
qed

section \<open>Every operation keeps the cache\<close>

lemma va_okI:
  "hm_ok (va_accounts va) \<Longrightarrow> staked (va_accounts va) < 2 ^ 64 \<Longrightarrow> nodes_count va (node_stake vcs (va_accounts va)) \<Longrightarrow>
     va_ok vcs va"
  by (simp add: va_ok_def nodes_count_def)

lemma va_okD:
  assumes "va_ok vcs va"
  shows "hm_ok (va_accounts va)" and "staked (va_accounts va) < 2 ^ 64"
    and "nodes_count va (node_stake vcs (va_accounts va))" and "node_stake vcs (va_accounts va) n < 2 ^ 64"
  using assms node_stake_le [of "va_accounts va" vcs n] by (auto simp: va_ok_def nodes_count_def)

lemma nodes_count_accounts [simp]: "nodes_count (va\<lparr>va_accounts := m\<rparr>) g = nodes_count va g"
  by (simp add: nodes_count_def)

lemma vote_accounts_insert_ok:
  assumes ok: "va_ok vcs va" and new: "map_of (va_accounts va) k = None"
    and fits: "staked (va_accounts va) + unat s < 2 ^ 64"
  obtains va' where "vote_accounts_insert vcs k (s, a) va = Inr va'" and "va_ok vcs va'"
    and "va_accounts va' = hm_insert k (s, a) (va_accounts va)"
proof -
  note d = va_okD [OF ok]
  let ?m = "hm_insert k (s, a) (va_accounts va)"
  let ?va1 = "add_node_stake vcs s a va"
  have small: "node_stake vcs (va_accounts va) n + unat s < 2 ^ 64" for n
    using fits node_stake_le [OF d(1), of vcs n] by linarith
  note a = add_node_stake_counts [OF d(3) small, of "node_stake vcs ?m" vcs a]
  have g: "node_stake vcs ?m n = node_stake vcs (va_accounts va) n + (if vote_account_node_pubkey vcs a = Some n then unat s else 0)" for n
    using node_stake_insert [OF d(1), of vcs k s a n] new by simp
  have "staked ?m < 2 ^ 64" using staked_insert [OF d(1), of k s a] new fits by simp
  then have "va_ok vcs (?va1\<lparr>va_accounts := ?m\<rparr>)"
    using a(1) [OF g] d(1) by (intro va_okI) (simp_all add: hm.invar_insert)
  then show ?thesis
    using a(2) [OF g] new
    by (intro that [of "?va1\<lparr>va_accounts := ?m\<rparr>"]) (simp_all add: vote_accounts_insert_def Let_def)
qed

lemma vote_accounts_remove_ok:
  assumes ok: "va_ok vcs va"
  obtains va' where "vote_accounts_remove vcs k va = Inr (map_of (va_accounts va) k, va')"
    and "va_ok vcs va'" and "va_accounts va' = hm_remove k (va_accounts va)"
proof (cases "map_of (va_accounts va) k")
  case None
  then have "hm_remove k (va_accounts va) = va_accounts va" by (simp add: hm_remove_notin map_of_eq_None_iff)
  with None ok show ?thesis by (intro that [of va]) (simp_all add: vote_accounts_remove_def)
next
  case (Some entry)
  obtain s a where e: "map_of (va_accounts va) k = Some (s, a)" using Some by (cases entry) auto
  note d = va_okD [OF ok]
  let ?m = "hm_remove k (va_accounts va)"
  have "nodes_count (va\<lparr>va_accounts := ?m\<rparr>) (node_stake vcs (va_accounts va))" using d(3) by simp
  then obtain va' where va': "sub_node_stake vcs s a (va\<lparr>va_accounts := ?m\<rparr>) = Inr va'"
    "nodes_count va' (node_stake vcs ?m)" "va_accounts va' = ?m"
    using node_stake_remove [OF d(1) e]
    by (rule sub_node_stake_counts [where g' = "node_stake vcs ?m", OF _ d(4)]) simp_all
  moreover have "staked ?m < 2 ^ 64" using staked_remove [OF d(1) e] d(2) by simp
  ultimately have "va_ok vcs va'" using d(1) by (intro va_okI) (simp_all add: hm.invar_remove)
  with va' e show ?thesis by (intro that [of va']) (simp_all add: vote_accounts_remove_def)
qed

lemma add_stake_ok:
  assumes ok: "va_ok vcs va" and fits: "staked (va_accounts va) + unat delta < 2 ^ 64"
  shows "va_ok vcs (add_stake vcs k delta va)"
    and "va_accounts (add_stake vcs k delta va) = (case map_of (va_accounts va) k of
      Some (s, a) \<Rightarrow> hm_insert k (s + delta, a) (va_accounts va) | None \<Rightarrow> va_accounts va)"
proof -
  note d = va_okD [OF ok]
  have "va_ok vcs (add_stake vcs k delta va) \<and> va_accounts (add_stake vcs k delta va) = hm_insert k (s + delta, a) (va_accounts va)"
    if e: "map_of (va_accounts va) k = Some (s, a)" for s a
  proof -
    let ?m = "hm_insert k (s + delta, a) (va_accounts va)"
    have "unat s \<le> staked (va_accounts va)" using staked_remove [OF d(1) e] by simp
    then have u: "unat (s + delta) = unat s + unat delta" using fits by (intro unat_add_no_wrap) simp
    have small: "node_stake vcs (va_accounts va) n + unat delta < 2 ^ 64" for n
      using fits node_stake_le [OF d(1), of vcs n] by linarith
    have g: "node_stake vcs ?m n = node_stake vcs (va_accounts va) n
        + (if vote_account_node_pubkey vcs a = Some n then unat delta else 0)" for n
      using node_stake_insert [OF d(1), of vcs k "s + delta" a n] e u by (simp split: if_splits)
    have "nodes_count (va\<lparr>va_accounts := ?m\<rparr>) (node_stake vcs (va_accounts va))" using d(3) by simp
    note c = add_node_stake_counts [OF this small g]
    have "staked ?m < 2 ^ 64" using staked_insert [OF d(1), of k "s + delta" a] e u fits by simp
    then show ?thesis
      using c d(1) e by (auto intro!: va_okI simp: add_stake_def hm.invar_insert)
  qed
  then show "va_ok vcs (add_stake vcs k delta va)"
    "va_accounts (add_stake vcs k delta va) = (case map_of (va_accounts va) k of
      Some (s, a) \<Rightarrow> hm_insert k (s + delta, a) (va_accounts va) | None \<Rightarrow> va_accounts va)"
    using ok by (auto simp: add_stake_def split: option.splits)
qed

lemma sub_stake_ok:
  assumes ok: "va_ok vcs va" and le: "\<And>s a. map_of (va_accounts va) k = Some (s, a) \<Longrightarrow> delta \<le> s"
  obtains va' where "sub_stake vcs k delta va = Inr va'" and "va_ok vcs va'"
    and "va_accounts va' = (case map_of (va_accounts va) k of
      Some (s, a) \<Rightarrow> hm_insert k (s - delta, a) (va_accounts va) | None \<Rightarrow> va_accounts va)"
proof (cases "map_of (va_accounts va) k")
  case None
  with ok show ?thesis by (intro that [of va]) (simp_all add: sub_stake_def)
next
  case (Some entry)
  obtain s a where e: "map_of (va_accounts va) k = Some (s, a)" using Some by (cases entry) auto
  note d = va_okD [OF ok]
  let ?m = "hm_insert k (s - delta, a) (va_accounts va)"
  have u: "unat (s - delta) + unat delta = unat s" using le [OF e] by (simp add: unat_sub_no_wrap word_le_nat_alt)
  have g: "node_stake vcs (va_accounts va) n = node_stake vcs ?m n
      + (if vote_account_node_pubkey vcs a = Some n then unat delta else 0)" for n
    using node_stake_insert [OF d(1), of vcs k "s - delta" a n] e u by (auto split: if_splits)
  have "nodes_count (va\<lparr>va_accounts := ?m\<rparr>) (node_stake vcs (va_accounts va))" using d(3) by simp
  from sub_node_stake_counts [where g' = "node_stake vcs ?m", OF this d(4) g]
  obtain va' where va': "sub_node_stake vcs delta a (va\<lparr>va_accounts := ?m\<rparr>) = Inr va'"
    "nodes_count va' (node_stake vcs ?m)" "va_accounts va' = ?m" by auto
  have "staked ?m < 2 ^ 64" using staked_insert [OF d(1), of k "s - delta" a] e u d(2) by simp
  then have "va_ok vcs va'" using va' d(1) by (intro va_okI) (simp_all add: hm.invar_insert)
  with va' e le [OF e] show ?thesis
    by (intro that [of va']) (simp_all add: sub_stake_def checked_sub_def ok_or_def)
qed

lemma group_node_stakes_counts:
  assumes "hm_ok m" and "staked m < 2 ^ 64"
  shows "counts (group_node_stakes vcs m) (node_stake vcs m)"
proof -
  let ?step = "\<lambda>(_, stake, a) nodes. if stake \<noteq> 0 then
      (case vote_account_node_pubkey vcs a of
         Some n \<Rightarrow> hm_insert n (unwrap_or (map_of nodes n) 0 + stake) nodes | None \<Rightarrow> nodes) else nodes"
  have "counts (fold ?step m nodes) (\<lambda>n. g n + node_stake vcs m n)"
    if "counts nodes g" and "\<And>n. g n + staked m < 2 ^ 64" for nodes g
    using that
  proof (induction m arbitrary: nodes g)
    case (Cons e m)
    obtain k s a where e: "e = (k, s, a)" by (cases e) auto
    let ?g = "\<lambda>n. g n + (if vote_account_node_pubkey vcs a = Some n then unat s else 0)"
    have fits: "g n + unat s + staked m < 2 ^ 64" for n using Cons.prems(2) [of n] by (simp add: e staked_def)
    have upd: "unwrap_or (map_of nodes n) 0 + s = (case map_of nodes n of Some t \<Rightarrow> t + s | None \<Rightarrow> s)" for n
      by (simp split: option.split)
    have "counts (?step e nodes) ?g"
    proof (cases "s = 0 \<or> vote_account_node_pubkey vcs a = None")
      case True
      then have "?g = g" by auto
      with True Cons.prems(1) show ?thesis by (auto simp: e)
    next
      case False
      then obtain n where n: "vote_account_node_pubkey vcs a = Some n" "s \<noteq> 0" by auto
      have "g n + unat s < 2 ^ 64" using fits [of n] by simp
      with n Cons.prems(1) show ?thesis by (simp add: e upd) (intro counts_add, auto)
    qed
    moreover have "?g n + staked m < 2 ^ 64" for n using fits [of n] by simp
    ultimately have "counts (fold ?step m (?step e nodes)) (\<lambda>n. ?g n + node_stake vcs m n)" by (rule Cons.IH)
    moreover have "(\<lambda>n. ?g n + node_stake vcs m n) = (\<lambda>n. g n + node_stake vcs (e # m) n)"
      by (auto simp: e node_stake_def)
    ultimately show ?case by simp
  qed (simp add: node_stake_def)
  from this [of "[]" "\<lambda>_. 0"] assms(2) show ?thesis by (simp add: group_node_stakes_def counts_def)
qed

lemma staked_nodes_ok:
  assumes "va_ok vcs va" and "staked_nodes vcs va = (nodes, va')"
  shows "counts nodes (node_stake vcs (va_accounts va))" and "va_ok vcs va'"
    and "va_accounts va' = va_accounts va"
  using assms group_node_stakes_counts [of "va_accounts va" vcs]
  by (auto simp: staked_nodes_def va_ok_def Let_def split: option.splits)

end
