(* ===== verification/Histories.thy ===== *)
theory Histories
  imports Invoke_Context
begin

text \<open>
  The two sysvars that keep a bounded window of history, newest first: the stake history of the
  cluster by epoch (\<open>sdk/program/src/stake_history.rs\<close>) and the bank hashes by slot
  (\<open>sdk/program/src/slot_hashes.rs\<close>). Both search by bisection; the locale \<open>bounded_history\<close> is what
  they promise, and both are instances of it.
\<close>

section \<open>Bisection\<close>

datatype ordering = Less | Equal | Greater

definition cmp :: "'a::linorder \<Rightarrow> 'a \<Rightarrow> ordering" where
  "cmp a b = (if a < b then Less else if a = b then Equal else Greater)"

lemma cmp_simps [simp]:
  "cmp a b = Less \<longleftrightarrow> a < b"
  "cmp a b = Equal \<longleftrightarrow> a = b"
  "cmp a b = Greater \<longleftrightarrow> b < a"
  by (auto simp: cmp_def)

text \<open>
  \<open>slice::binary_search_by\<close>: the index of an element the comparison calls equal, or the index at
  which one would be inserted.
\<close>

function bisect :: "('a \<Rightarrow> ordering) \<Rightarrow> 'a list \<Rightarrow> nat \<Rightarrow> nat \<Rightarrow> (nat, nat) result" where
  "bisect f xs left right =
     (if left < right then
        (let mid = left + (right - left) div 2 in
         case f (xs ! mid) of
           Less \<Rightarrow> bisect f xs (mid + 1) right
         | Greater \<Rightarrow> bisect f xs left mid
         | Equal \<Rightarrow> Inr mid)
      else Inl left)"
  by pat_completeness auto

termination
  by (relation "measure (\<lambda>(f, xs, left, right). right - left)") auto

declare bisect.simps [simp del]

definition binary_search_by :: "('a \<Rightarrow> ordering) \<Rightarrow> 'a list \<Rightarrow> (nat, nat) result" where
  "binary_search_by f xs = bisect f xs 0 (length xs)"

text \<open>The comparison is consistent with the order of the list.\<close>

definition bisectable :: "('a \<Rightarrow> ordering) \<Rightarrow> 'a list \<Rightarrow> bool" where
  "bisectable f xs \<longleftrightarrow>
     (\<forall>i j. i < j \<longrightarrow> j < length xs \<longrightarrow>
        (f (xs ! j) \<noteq> Greater \<longrightarrow> f (xs ! i) = Less) \<and> (f (xs ! i) \<noteq> Less \<longrightarrow> f (xs ! j) = Greater))"

definition search_post :: "('a \<Rightarrow> ordering) \<Rightarrow> 'a list \<Rightarrow> (nat, nat) result \<Rightarrow> bool" where
  "search_post f xs r \<longleftrightarrow>
     (case r of
        Inr i \<Rightarrow> i < length xs \<and> f (xs ! i) = Equal
      | Inl i \<Rightarrow> i \<le> length xs \<and> (\<forall>j < i. f (xs ! j) = Less) \<and> (\<forall>j. i \<le> j \<and> j < length xs \<longrightarrow> f (xs ! j) = Greater))"

lemma bisect_post:
  assumes "bisectable f xs" and "right \<le> length xs" and "left \<le> right"
    and "\<forall>j < left. f (xs ! j) = Less" and "\<forall>j. right \<le> j \<and> j < length xs \<longrightarrow> f (xs ! j) = Greater"
  shows "search_post f xs (bisect f xs left right)"
  using assms
proof (induction f xs left right rule: bisect.induct)
  case (1 f xs left right)
  define mid where "mid = left + (right - left) div 2"
  show ?case
  proof (cases "left < right")
    case False
    then have "bisect f xs left right = Inl left" by (subst bisect.simps) simp
    with False 1(4-7) show ?thesis by (simp add: search_post_def)
  next
    case True
    then have mid: "left \<le> mid" "mid < right" by (auto simp: mid_def)
    have b: "bisect f xs left right = (case f (xs ! mid) of
        Less \<Rightarrow> bisect f xs (mid + 1) right | Greater \<Rightarrow> bisect f xs left mid | Equal \<Rightarrow> Inr mid)"
      by (subst bisect.simps) (simp only: True if_True mid_def Let_def)
    show ?thesis
    proof (cases "f (xs ! mid)")
      case Less
      have "f (xs ! j) = Less" if "j < mid + 1" for j
      proof (cases "j = mid")
        case False
        with that have "j < mid" by simp
        with mid 1(3,4) Less show ?thesis unfolding bisectable_def
          by (metis order_less_le_trans ordering.distinct(3))
      qed (simp add: Less)
      then have "search_post f xs (bisect f xs (mid + 1) right)"
        using 1(1) [OF True mid_def Less 1(3,4)] mid 1(7) by simp
      with b Less show ?thesis by simp
    next
      case Equal
      with mid 1(4) b show ?thesis by (simp add: search_post_def)
    next
      case Greater
      have "f (xs ! j) = Greater" if "mid \<le> j" "j < length xs" for j
      proof (cases "j = mid")
        case False
        with that have "mid < j" by simp
        with that 1(3) Greater show ?thesis unfolding bisectable_def
          by (metis ordering.distinct(3))
      qed (simp add: Greater)
      then have "search_post f xs (bisect f xs left mid)"
        using 1(2) [OF True mid_def Greater 1(3)] mid 1(4,6) by simp
      with b Greater show ?thesis by simp
    qed
  qed
qed

lemma binary_search_post: "bisectable f xs \<Longrightarrow> search_post f xs (binary_search_by f xs)"
  unfolding binary_search_by_def by (rule bisect_post) auto

section \<open>The stake history and the slot hashes\<close>

definition STAKE_HISTORY_MAX_ENTRIES :: nat where
  "STAKE_HISTORY_MAX_ENTRIES = 512"

record stake_history_entry =
  effective :: u64
  activating :: u64
  deactivating :: u64

definition stake_history_entry_default :: stake_history_entry where
  "stake_history_entry_default = \<lparr>effective = 0, activating = 0, deactivating = 0\<rparr>"

definition with_effective :: "u64 \<Rightarrow> stake_history_entry" where
  "with_effective e = stake_history_entry_default\<lparr>effective := e\<rparr>"

definition with_effective_and_activating :: "u64 \<Rightarrow> u64 \<Rightarrow> stake_history_entry" where
  "with_effective_and_activating e a = stake_history_entry_default\<lparr>effective := e, activating := a\<rparr>"

definition with_deactivating :: "u64 \<Rightarrow> stake_history_entry" where
  "with_deactivating d = stake_history_entry_default\<lparr>effective := d, deactivating := d\<rparr>"

definition stake_history_entry_add :: "stake_history_entry \<Rightarrow> stake_history_entry \<Rightarrow> stake_history_entry" where
  "stake_history_entry_add a b =
     \<lparr>effective = saturating_add (effective a) (effective b),
      activating = saturating_add (activating a) (activating b),
      deactivating = saturating_add (deactivating a) (deactivating b)\<rparr>"

type_synonym stake_history = "(u64 \<times> stake_history_entry) list"

definition stake_history_get :: "stake_history \<Rightarrow> u64 \<Rightarrow> stake_history_entry option" where
  "stake_history_get h epoch =
     (case binary_search_by (\<lambda>probe. cmp epoch (fst probe)) h of
        Inr i \<Rightarrow> Some (snd (h ! i))
      | Inl _ \<Rightarrow> None)"

definition stake_history_add :: "u64 \<Rightarrow> stake_history_entry \<Rightarrow> stake_history \<Rightarrow> stake_history" where
  "stake_history_add epoch entry h =
     take STAKE_HISTORY_MAX_ENTRIES
       (case binary_search_by (\<lambda>probe. cmp epoch (fst probe)) h of
          Inr i \<Rightarrow> h[i := (epoch, entry)]
        | Inl i \<Rightarrow> take i h @ (epoch, entry) # drop i h)"

definition SLOT_HASHES_MAX_ENTRIES :: nat where
  "SLOT_HASHES_MAX_ENTRIES = 512"

definition slot_hashes_add :: "u64 \<Rightarrow> hash \<Rightarrow> slot_hashes \<Rightarrow> slot_hashes" where
  "slot_hashes_add slot h shs =
     take SLOT_HASHES_MAX_ENTRIES
       (case binary_search_by (\<lambda>(probe, _). cmp slot probe) shs of
          Inr i \<Rightarrow> shs[i := (slot, h)]
        | Inl i \<Rightarrow> take i shs @ (slot, h) # drop i shs)"

definition slot_hashes_position :: "slot_hashes \<Rightarrow> u64 \<Rightarrow> nat option" where
  "slot_hashes_position shs slot =
     (case binary_search_by (\<lambda>(probe, _). cmp slot probe) shs of Inr i \<Rightarrow> Some i | Inl _ \<Rightarrow> None)"

definition slot_hashes_get :: "slot_hashes \<Rightarrow> u64 \<Rightarrow> hash option" where
  "slot_hashes_get shs slot =
     (case binary_search_by (\<lambda>(probe, _). cmp slot probe) shs of
        Inr i \<Rightarrow> Some (snd (shs ! i))
      | Inl _ \<Rightarrow> None)"

definition slot_hashes_new :: "(u64 \<times> hash) list \<Rightarrow> slot_hashes" where
  "slot_hashes_new shs = rev (sort_key fst (rev shs))"

section \<open>Descending association lists\<close>

definition descending :: "('k::linorder \<times> 'v) list \<Rightarrow> bool" where
  "descending xs \<longleftrightarrow> sorted_wrt (\<lambda>a b. b < a) (map fst xs)"

fun desc_insert :: "'k::linorder \<Rightarrow> 'v \<Rightarrow> ('k \<times> 'v) list \<Rightarrow> ('k \<times> 'v) list" where
  "desc_insert k v [] = [(k, v)]"
| "desc_insert k v ((k', v') # xs) =
     (if k' < k then (k, v) # (k', v') # xs
      else if k' = k then (k, v) # xs
      else (k', v') # desc_insert k v xs)"

lemma descending_Cons [simp]: "descending (x # xs) \<longleftrightarrow> (\<forall>y \<in> set xs. fst y < fst x) \<and> descending xs"
  by (simp add: descending_def)

lemma descending_Nil [simp]: "descending []"
  by (simp add: descending_def)

lemma set_desc_insert: "set (desc_insert k v xs) \<subseteq> insert (k, v) (set xs)"
  by (induction k v xs rule: desc_insert.induct) auto

lemma keys_desc_insert: "fst ` set (desc_insert k v xs) = insert k (fst ` set xs)"
  by (induction k v xs rule: desc_insert.induct) auto

lemma descending_desc_insert: "descending xs \<Longrightarrow> descending (desc_insert k v xs)"
proof (induction k v xs rule: desc_insert.induct)
  case (2 k v k' v' xs)
  then have "k < k' \<Longrightarrow> \<forall>y \<in> set (desc_insert k v xs). fst y < k'"
    using set_desc_insert [of k v xs] by auto
  with 2 show ?case by (auto intro: less_trans)
qed simp

lemma map_of_desc_insert: "descending xs \<Longrightarrow> map_of (desc_insert k v xs) = (map_of xs)(k \<mapsto> v)"
proof (induction k v xs rule: desc_insert.induct)
  case (2 k v k' v' xs)
  then show ?case by (auto simp: fun_eq_iff)
qed (simp add: fun_eq_iff)

lemma descending_take: "descending xs \<Longrightarrow> descending (take n xs)"
  using sorted_wrt_take [of _ "map fst xs" n] by (simp add: descending_def take_map)

lemma take_desc_insert: "take n (desc_insert k v (take n xs)) = take n (desc_insert k v xs)"
proof (induction k v xs arbitrary: n rule: desc_insert.induct)
  case (2 k v k' v' xs)
  then show ?case by (cases n) (simp_all add: take_Cons')
qed simp

lemma map_of_take:
  "descending xs \<Longrightarrow>
     map_of (take n xs) k = (if card {k' \<in> fst ` set xs. k < k'} < n then map_of xs k else None)"
proof (induction xs arbitrary: n)
  case (Cons x xs)
  obtain k' v' where x: "x = (k', v')" by (cases x)
  with Cons.prems have below: "\<forall>y \<in> fst ` set xs. y < k'" and d: "descending xs" by auto
  show ?case
  proof (cases "k < k'")
    case True
    then have "{j \<in> fst ` set (x # xs). k < j} = insert k' {j \<in> fst ` set xs. k < j}" by (auto simp: x)
    moreover have "k' \<notin> {j \<in> fst ` set xs. k < j}" using below by auto
    ultimately have "card {j \<in> fst ` set (x # xs). k < j} = Suc (card {j \<in> fst ` set xs. k < j})" by simp
    moreover have "k \<noteq> k'" using True by simp
    ultimately show ?thesis using Cons.IH [OF d, of "n - 1"] by (cases n) (simp_all add: x)
  next
    case False
    then have "{j \<in> fst ` set (x # xs). k < j} = {}" using below by (auto simp: x)
    then have c: "card {j \<in> fst ` set (x # xs). k < j} = 0" by simp
    have "map_of xs k = None \<and> map_of (take m xs) k = None" if "k' \<noteq> k" for m
    proof -
      have "k \<notin> fst ` set xs" using False below that by auto
      moreover have "fst ` set (take m xs) \<subseteq> fst ` set xs" by (intro image_mono set_take_subset)
      ultimately show ?thesis by (auto simp: map_of_eq_None_iff simp del: image_iff)
    qed
    then show ?thesis unfolding c by (cases n; cases "k' = k") (simp_all add: x)
  qed
qed simp

text \<open>Searching and inserting by bisection, on a descending list.\<close>

lemma bisectable_descending:
  assumes "descending xs"
  shows "bisectable (\<lambda>x. cmp k (fst x)) xs"
proof -
  have "fst (xs ! j) < fst (xs ! i)" if "i < j" "j < length xs" for i j
    using assms that by (auto simp: descending_def sorted_wrt_iff_nth_less)
  then have "(cmp k (fst (xs ! j)) \<noteq> Greater \<longrightarrow> cmp k (fst (xs ! i)) = Less)
      \<and> (cmp k (fst (xs ! i)) \<noteq> Less \<longrightarrow> cmp k (fst (xs ! j)) = Greater)"
    if "i < j" "j < length xs" for i j
    using that by (metis cmp_simps(1,3) not_less order_less_le_trans)
  then show ?thesis by (simp only: bisectable_def) blast
qed

lemma search_descending:
  assumes "descending xs"
  shows "search_post (\<lambda>x. cmp k (fst x)) xs (binary_search_by (\<lambda>x. cmp k (fst x)) xs)"
  using assms by (intro binary_search_post bisectable_descending)

lemma search_found:
  assumes "descending xs" and "binary_search_by (\<lambda>x. cmp k (fst x)) xs = Inr i"
  shows "i < length xs" and "fst (xs ! i) = k"
  using search_descending [OF assms(1), of k] assms(2) by (auto simp: search_post_def)

lemma desc_insert_at:
  "(\<forall>x \<in> set xs. k < fst x) \<Longrightarrow> (\<forall>y \<in> set ys. fst y < k) \<Longrightarrow>
     desc_insert k v (xs @ ys) = xs @ (k, v) # ys
     \<and> desc_insert k v (xs @ (k, w) # ys) = xs @ (k, v) # ys"
proof (induction xs)
  case Nil
  then show ?case by (cases ys) auto
next
  case (Cons x xs)
  then show ?case by (cases x) auto
qed

lemma search_insert:
  assumes "descending xs"
  shows "(case binary_search_by (\<lambda>x. cmp k (fst x)) xs of
      Inr i \<Rightarrow> xs[i := (k, v)] | Inl i \<Rightarrow> take i xs @ (k, v) # drop i xs) = desc_insert k v xs"
proof (cases "binary_search_by (\<lambda>x. cmp k (fst x)) xs")
  case (Inl i)
  with search_descending [OF assms, of k] have i: "i \<le> length xs" "\<forall>j < i. k < fst (xs ! j)"
    "\<forall>j. i \<le> j \<and> j < length xs \<longrightarrow> fst (xs ! j) < k"
    by (auto simp: search_post_def)
  then have "\<forall>x \<in> set (take i xs). k < fst x" "\<forall>y \<in> set (drop i xs). fst y < k"
    by (simp_all add: all_set_conv_all_nth)
  from desc_insert_at [OF this] show ?thesis by (simp add: Inl)
next
  case (Inr i)
  note f = search_found [OF assms Inr]
  have e: "xs = take i xs @ (k, snd (xs ! i)) # drop (Suc i) xs"
    using f by (metis id_take_nth_drop prod.collapse)
  have "\<forall>x \<in> set (take i xs). k < fst x" "\<forall>y \<in> set (drop (Suc i) xs). fst y < k"
    using assms f by (auto simp: all_set_conv_all_nth descending_def sorted_wrt_iff_nth_less)
  from desc_insert_at [OF this] have "desc_insert k v xs = take i xs @ (k, v) # drop (Suc i) xs"
    by (subst e) blast
  then show ?thesis using f by (simp add: Inr upd_conv_take_nth_drop)
qed

lemma search_lookup:
  assumes "descending xs"
  shows "(case binary_search_by (\<lambda>x. cmp k (fst x)) xs of Inr i \<Rightarrow> Some (snd (xs ! i)) | Inl _ \<Rightarrow> None)
    = map_of xs k"
proof (cases "binary_search_by (\<lambda>x. cmp k (fst x)) xs")
  case (Inl i)
  with search_descending [OF assms, of k] have "\<forall>j < i. k \<noteq> fst (xs ! j)"
    "\<forall>j. i \<le> j \<and> j < length xs \<longrightarrow> k \<noteq> fst (xs ! j)"
    by (auto simp: search_post_def)
  then have "\<forall>j < length xs. k \<noteq> fst (xs ! j)" 
    by (metis linorder_le_less_linear)
  then have "\<forall>x \<in> set xs. k \<noteq> fst x" by (simp add: all_set_conv_all_nth)
  then have "map_of xs k = None" by (auto simp: map_of_eq_None_iff)
  then show ?thesis by (simp add: Inl)
next
  case (Inr i)
  have "distinct (map fst xs)"
    using assms strict_sorted_iff [of "rev (map fst xs)"] by (simp add: descending_def sorted_wrt_rev)
  then have "map_of xs (fst (xs ! i)) = Some (snd (xs ! i))"
    using search_found(1) [OF assms Inr] by (simp add: map_of_eq_Some_iff)
  then show ?thesis using search_found(2) [OF assms Inr] by (simp add: Inr)
qed

section \<open>What a bounded history promises\<close>

text \<open>
  A client adds values under keys in any order and reads them back. The history answers from the
  values with the greatest keys it was ever given, as many of them as its capacity.
\<close>

locale bounded_history =
  fixes capacity :: nat
    and get :: "'h \<Rightarrow> 'k::linorder \<Rightarrow> 'v option"
    and add :: "'k \<Rightarrow> 'v \<Rightarrow> 'h \<Rightarrow> 'h"
    and entries :: "'h \<Rightarrow> ('k \<times> 'v) list"
  assumes get_entries: "descending (entries h) \<Longrightarrow> get h k = map_of (entries h) k"
    and add_entries: "descending (entries h) \<Longrightarrow>
      entries (add k v h) = take capacity (desc_insert k v (entries h))"
begin

definition record_all :: "('k \<times> 'v) list \<Rightarrow> 'h \<Rightarrow> 'h" where
  "record_all kvs h = fold (\<lambda>(k, v). add k v) kvs h"

lemma add_descending: "descending (entries h) \<Longrightarrow> descending (entries (add k v h))"
  by (simp add: add_entries descending_take descending_desc_insert)

lemma entries_record_all:
  assumes "descending full" and "entries h = take capacity full"
  shows "\<exists>full'. descending full' \<and> entries (record_all kvs h) = take capacity full'
    \<and> map_of full' = map_of full ++ map_of (rev kvs) \<and> fst ` set full' = fst ` set full \<union> fst ` set kvs"
  using assms
proof (induction kvs arbitrary: full h)
  case Nil
  then show ?case by (auto simp: record_all_def)
next
  case (Cons kv kvs)
  obtain k v where kv: "kv = (k, v)" by (cases kv)
  have d: "descending (entries h)" using Cons.prems by (simp add: descending_take)
  have "entries (add k v h) = take capacity (desc_insert k v full)"
    using add_entries [OF d] Cons.prems(2) by (simp add: take_desc_insert)
  from Cons.IH [OF descending_desc_insert [OF Cons.prems(1), of k v] this]
  show ?case using Cons.prems(1) by (simp add: record_all_def kv map_of_desc_insert keys_desc_insert del: fun_upd_apply)
qed

theorem window:
  assumes "entries h = []"
  shows "get (record_all kvs h) k
    = (if card {k' \<in> fst ` set kvs. k < k'} < capacity then map_of (rev kvs) k else None)"
proof -
  from assms have "entries h = take capacity []" by simp
  then obtain full where full: "descending full" "entries (record_all kvs h) = take capacity full"
    "map_of full = map_of (rev kvs)" "fst ` set full = fst ` set kvs"
    using entries_record_all [of "[]" h kvs] by auto
  then show ?thesis by (simp add: get_entries descending_take map_of_take)
qed

end

interpretation stake_hist: bounded_history STAKE_HISTORY_MAX_ENTRIES stake_history_get stake_history_add "\<lambda>h. h"
  by unfold_locales (simp_all add: stake_history_get_def stake_history_add_def search_lookup search_insert)

lemma probe_fst: "(\<lambda>(probe, _). cmp k probe) = (\<lambda>x. cmp k (fst x))"
  by (simp add: fun_eq_iff split_beta)

interpretation slot_hist: bounded_history SLOT_HASHES_MAX_ENTRIES slot_hashes_get slot_hashes_add "\<lambda>h. h"
  by unfold_locales (simp_all add: slot_hashes_get_def slot_hashes_add_def search_lookup search_insert probe_fst)

text \<open>
  C30: Whatever is added to the stake history or to the slot hashes, in any order and any number of
  times, a lookup answers with the value last given for its key if fewer than 512 greater keys were
  given, and with nothing otherwise: the bisection finds exactly the window of the newest 512 keys.
\<close>

theorem histories_window:
  "stake_history_get (fold (\<lambda>(k, v). stake_history_add k v) kvs []) epoch
     = (if card {k \<in> fst ` set kvs. epoch < k} < 512 then map_of (rev kvs) epoch else None)
   \<and> slot_hashes_get (fold (\<lambda>(k, v). slot_hashes_add k v) shs []) slot
     = (if card {k \<in> fst ` set shs. slot < k} < 512 then map_of (rev shs) slot else None)"
  using stake_hist.window [of "[]" kvs epoch] slot_hist.window [of "[]" shs slot]
  by (simp add: stake_hist.record_all_def slot_hist.record_all_def
    STAKE_HISTORY_MAX_ENTRIES_def SLOT_HASHES_MAX_ENTRIES_def)

end
