(* ===== verification/Stake_State.thy ===== *)
theory Stake_State
  imports Histories
begin

text \<open>
  \<open>sdk/program/src/stake/state.rs\<close>: what a stake account stores, its authorities and lockup, and the
  warm-up and cool-down of a delegation, which moves stake in and out over epochs in proportion to
  what the whole cluster moves (the stake history). The errors and instructions are those of
  \<open>sdk/program/src/stake/instruction.rs\<close>, the configuration that of \<open>stake/config.rs\<close>.
\<close>

section \<open>Data\<close>

datatype stake_error =
    NoCreditsToRedeem | LockupInForce | AlreadyDeactivated | TooSoonToRedelegate | InsufficientStake
  | MergeTransientStake | MergeMismatch | CustodianMissing | CustodianSignatureMissing

fun stake_error_into :: "stake_error \<Rightarrow> instruction_error" where
  "stake_error_into NoCreditsToRedeem = instruction_error_from 0"
| "stake_error_into LockupInForce = instruction_error_from 1"
| "stake_error_into AlreadyDeactivated = instruction_error_from 2"
| "stake_error_into TooSoonToRedelegate = instruction_error_from 3"
| "stake_error_into InsufficientStake = instruction_error_from 4"
| "stake_error_into MergeTransientStake = instruction_error_from 5"
| "stake_error_into MergeMismatch = instruction_error_from 6"
| "stake_error_into CustodianMissing = instruction_error_from 7"
| "stake_error_into CustodianSignatureMissing = instruction_error_from 8"

definition DEFAULT_WARMUP_COOLDOWN_RATE :: f64 where
  "DEFAULT_WARMUP_COOLDOWN_RATE = Finite 1 (- 2)"

definition DEFAULT_SLASH_PENALTY :: u8 where
  "DEFAULT_SLASH_PENALTY = of_nat (5 * 255 div 100)"

record stake_config =
  config_warmup_cooldown_rate :: f64
  config_slash_penalty :: u8

definition stake_config_default :: stake_config where
  "stake_config_default = \<lparr>config_warmup_cooldown_rate = DEFAULT_WARMUP_COOLDOWN_RATE,
     config_slash_penalty = DEFAULT_SLASH_PENALTY\<rparr>"

datatype stake_authorize = Staker | Withdrawer

record lockup =
  lockup_unix_timestamp :: int
  lockup_epoch :: u64
  lockup_custodian :: pubkey

definition lockup_default :: lockup where
  "lockup_default = \<lparr>lockup_unix_timestamp = 0, lockup_epoch = 0, lockup_custodian = pubkey_default\<rparr>"

definition is_in_force :: "lockup \<Rightarrow> clock \<Rightarrow> pubkey option \<Rightarrow> bool" where
  "is_in_force l clk custodian =
     (if custodian = Some (lockup_custodian l) then False
      else lockup_unix_timestamp l > clock_unix_timestamp clk \<or> lockup_epoch l > clock_epoch clk)"

record authorized =
  staker :: pubkey
  withdrawer :: pubkey

definition authorized_auto :: "pubkey \<Rightarrow> authorized" where
  "authorized_auto k = \<lparr>staker = k, withdrawer = k\<rparr>"

definition authorized_check :: "authorized \<Rightarrow> pubkey set \<Rightarrow> stake_authorize \<Rightarrow> unit ix_result" where
  "authorized_check auth signers what =
     (case what of
        Staker \<Rightarrow> if staker auth \<in> signers then Inr () else Inl MissingRequiredSignature
      | Withdrawer \<Rightarrow> if withdrawer auth \<in> signers then Inr () else Inl MissingRequiredSignature)"

text \<open>The check of the lockup that a change of the withdrawer must pass.\<close>

definition check_lockup_custodian ::
  "pubkey set \<Rightarrow> (lockup \<times> clock \<times> pubkey option) option \<Rightarrow> unit ix_result" where
  "check_lockup_custodian signers lockup_custodian_args =
     (case lockup_custodian_args of
        None \<Rightarrow> Inr ()
      | Some (l, clk, custodian) \<Rightarrow>
          if is_in_force l clk None then
            (case custodian of
               None \<Rightarrow> Inl (stake_error_into CustodianMissing)
             | Some c \<Rightarrow>
                 if c \<notin> signers then Inl (stake_error_into CustodianSignatureMissing)
                 else if is_in_force l clk (Some c) then Inl (stake_error_into LockupInForce)
                 else Inr ())
          else Inr ())"

definition authorized_authorize ::
  "pubkey set \<Rightarrow> pubkey \<Rightarrow> stake_authorize \<Rightarrow> (lockup \<times> clock \<times> pubkey option) option \<Rightarrow> authorized
     \<Rightarrow> authorized ix_result" where
  "authorized_authorize signers new_authorized what lockup_custodian_args auth =
     (case what of
        Staker \<Rightarrow>
          if staker auth \<notin> signers \<and> withdrawer auth \<notin> signers then Inl MissingRequiredSignature
          else Inr (auth\<lparr>staker := new_authorized\<rparr>)
      | Withdrawer \<Rightarrow>
          bind_r (check_lockup_custodian signers lockup_custodian_args) (\<lambda>_.
          bind_r (authorized_check auth signers what) (\<lambda>_.
            Inr (auth\<lparr>withdrawer := new_authorized\<rparr>))))"

record lockup_args =
  args_unix_timestamp :: "int option"
  args_epoch :: "u64 option"
  args_custodian :: "pubkey option"

record meta =
  rent_exempt_reserve :: u64
  meta_authorized :: authorized
  meta_lockup :: lockup

definition meta_auto :: "pubkey \<Rightarrow> meta" where
  "meta_auto k = \<lparr>rent_exempt_reserve = 0, meta_authorized = authorized_auto k,
     meta_lockup = lockup_default\<rparr>"

definition apply_lockup_args :: "lockup_args \<Rightarrow> lockup \<Rightarrow> lockup" where
  "apply_lockup_args args l =
     \<lparr>lockup_unix_timestamp = unwrap_or (args_unix_timestamp args) (lockup_unix_timestamp l),
      lockup_epoch = unwrap_or (args_epoch args) (lockup_epoch l),
      lockup_custodian = unwrap_or (args_custodian args) (lockup_custodian l)\<rparr>"

definition meta_set_lockup :: "lockup_args \<Rightarrow> pubkey set \<Rightarrow> clock option \<Rightarrow> meta \<Rightarrow> meta ix_result" where
  "meta_set_lockup args signers clk m =
     bind_r
       (case clk of
          None \<Rightarrow> guard_r (lockup_custodian (meta_lockup m) \<in> signers) MissingRequiredSignature
        | Some c \<Rightarrow>
            if is_in_force (meta_lockup m) c None
            then guard_r (lockup_custodian (meta_lockup m) \<in> signers) MissingRequiredSignature
            else guard_r (withdrawer (meta_authorized m) \<in> signers) MissingRequiredSignature)
       (\<lambda>_. Inr (m\<lparr>meta_lockup := apply_lockup_args args (meta_lockup m)\<rparr>))"

definition rewrite_rent_exempt_reserve :: "rent \<Rightarrow> nat \<Rightarrow> meta \<Rightarrow> (u64 \<times> u64) option \<times> meta" where
  "rewrite_rent_exempt_reserve r data_len m =
     (let corrected = minimum_balance r data_len in
      if corrected \<noteq> rent_exempt_reserve m
      then (Some (rent_exempt_reserve m, corrected), m\<lparr>rent_exempt_reserve := corrected\<rparr>)
      else (None, m))"

record delegation =
  voter_pubkey :: pubkey
  delegated :: u64
  activation_epoch :: u64
  deactivation_epoch :: u64
  warmup_cooldown_rate :: f64

definition delegation_default :: delegation where
  "delegation_default = \<lparr>voter_pubkey = pubkey_default, delegated = 0, activation_epoch = 0,
     deactivation_epoch = max_val, warmup_cooldown_rate = config_warmup_cooldown_rate stake_config_default\<rparr>"

definition delegation_new :: "pubkey \<Rightarrow> u64 \<Rightarrow> u64 \<Rightarrow> f64 \<Rightarrow> delegation" where
  "delegation_new voter amount epoch rate =
     delegation_default\<lparr>voter_pubkey := voter, delegated := amount, activation_epoch := epoch,
       warmup_cooldown_rate := rate\<rparr>"

definition is_bootstrap :: "delegation \<Rightarrow> bool" where
  "is_bootstrap d \<longleftrightarrow> activation_epoch d = max_val"

record stake =
  stake_delegation :: delegation
  credits_observed :: u64

datatype stake_state =
    Uninitialized
  | Initialized meta
  | Stake meta stake
  | RewardsPool

definition STAKE_STATE_SIZE :: nat where
  "STAKE_STATE_SIZE = 200"

definition stake_rent_exempt_reserve :: "rent \<Rightarrow> u64" where
  "stake_rent_exempt_reserve r = minimum_balance r STAKE_STATE_SIZE"

fun state_stake :: "stake_state \<Rightarrow> stake option" where
  "state_stake (Stake m st) = Some st"
| "state_stake _ = None"

fun state_delegation :: "stake_state \<Rightarrow> delegation option" where
  "state_delegation (Stake m st) = Some (stake_delegation st)"
| "state_delegation _ = None"

fun state_authorized :: "stake_state \<Rightarrow> authorized option" where
  "state_authorized (Stake m st) = Some (meta_authorized m)"
| "state_authorized (Initialized m) = Some (meta_authorized m)"
| "state_authorized _ = None"

fun state_meta :: "stake_state \<Rightarrow> meta option" where
  "state_meta (Stake m st) = Some m"
| "state_meta (Initialized m) = Some m"
| "state_meta _ = None"

definition state_lockup :: "stake_state \<Rightarrow> lockup option" where
  "state_lockup st = map_option meta_lockup (state_meta st)"

section \<open>Warm-up and cool-down\<close>

text \<open>
  One epoch's share: the account's part of what the cluster moves (\<open>whole\<close>), times what the cluster
  may move, a rate of its effective stake; at least one lamport.
\<close>

definition newly_moved :: "u64 \<Rightarrow> u64 \<Rightarrow> u64 \<Rightarrow> f64 \<Rightarrow> u64" where
  "newly_moved part whole cluster_effective rate =
     (let weight = f64_div (f64_of_u64 part) (f64_of_u64 whole);
          newly_cluster = f64_mul (f64_of_u64 cluster_effective) rate
      in max (f64_to_u64 (f64_mul weight newly_cluster)) 1)"

lemma epoch_measure:
  fixes prev target :: u64
  assumes "prev + 1 < target"
  shows "unat target - unat (2 + prev) < unat target - unat (prev + 1)"
    and "unat (prev + 1 + 1) = unat (prev + 1) + 1"
proof -
  have lt: "unat (prev + 1) < unat target" using assms by (simp add: word_less_nat_alt)
  moreover have "unat target < 2 ^ 64" using unat_less_exp [of target] by simp
  ultimately show e: "unat (prev + 1 + 1) = unat (prev + 1) + 1"
    using unat_add_no_wrap [of "prev + 1" 1] by simp
  have "prev + 1 + 1 = 2 + prev" by simp
  with lt e show "unat target - unat (2 + prev) < unat target - unat (prev + 1)" by simp
qed

function activation_loop ::
  "delegation \<Rightarrow> stake_history \<Rightarrow> u64 \<Rightarrow> u64 \<Rightarrow> stake_history_entry \<Rightarrow> u64 \<Rightarrow> u64" where
  "activation_loop d history target_epoch prev_epoch prev_cluster_stake current_effective_stake =
     (let current_epoch = prev_epoch + 1 in
      if activating prev_cluster_stake = 0 then current_effective_stake
      else
        (let remaining_activating_stake = delegated d - current_effective_stake;
             newly_effective_stake = newly_moved remaining_activating_stake (activating prev_cluster_stake)
               (effective prev_cluster_stake) (warmup_cooldown_rate d);
             current_effective_stake = current_effective_stake + newly_effective_stake
         in if delegated d \<le> current_effective_stake then delegated d
            else if target_epoch \<le> current_epoch \<or> deactivation_epoch d \<le> current_epoch
            then current_effective_stake
            else
              (case stake_history_get history current_epoch of
                 Some current_cluster_stake \<Rightarrow>
                   activation_loop d history target_epoch current_epoch current_cluster_stake
                     current_effective_stake
               | None \<Rightarrow> current_effective_stake)))"
  by pat_completeness auto

termination
  by (relation "measure (\<lambda>(d, h, target, prev, c, e). unat target - unat (prev + 1))")
    (auto simp: epoch_measure not_le)

declare activation_loop.simps [simp del]

function deactivation_loop ::
  "delegation \<Rightarrow> stake_history \<Rightarrow> u64 \<Rightarrow> u64 \<Rightarrow> stake_history_entry \<Rightarrow> u64 \<Rightarrow> u64" where
  "deactivation_loop d history target_epoch prev_epoch prev_cluster_stake current_effective_stake =
     (let current_epoch = prev_epoch + 1 in
      if deactivating prev_cluster_stake = 0 then current_effective_stake
      else
        (let newly_not_effective_stake = newly_moved current_effective_stake
               (deactivating prev_cluster_stake) (effective prev_cluster_stake) (warmup_cooldown_rate d);
             current_effective_stake = saturating_sub current_effective_stake newly_not_effective_stake
         in if current_effective_stake = 0 then current_effective_stake
            else if target_epoch \<le> current_epoch then current_effective_stake
            else
              (case stake_history_get history current_epoch of
                 Some current_cluster_stake \<Rightarrow>
                   deactivation_loop d history target_epoch current_epoch current_cluster_stake
                     current_effective_stake
               | None \<Rightarrow> current_effective_stake)))"
  by pat_completeness auto

termination
  by (relation "measure (\<lambda>(d, h, target, prev, c, e). unat target - unat (prev + 1))")
    (auto simp: epoch_measure not_le)

declare deactivation_loop.simps [simp del]

definition history_at :: "stake_history option \<Rightarrow> u64 \<Rightarrow> (stake_history \<times> stake_history_entry) option" where
  "history_at history epoch =
     Option.bind history (\<lambda>h. map_option (Pair h) (stake_history_get h epoch))"

text \<open>\<open>stake_and_activating\<close>: the effective and the activating stake.\<close>

definition stake_and_activating :: "delegation \<Rightarrow> u64 \<Rightarrow> stake_history option \<Rightarrow> u64 \<times> u64" where
  "stake_and_activating d target_epoch history =
     (if is_bootstrap d then (delegated d, 0)
      else if activation_epoch d = deactivation_epoch d then (0, 0)
      else if target_epoch = activation_epoch d then (0, delegated d)
      else if target_epoch < activation_epoch d then (0, 0)
      else
        (case history_at history (activation_epoch d) of
           Some (h, cluster_stake) \<Rightarrow>
             (let current = activation_loop d h target_epoch (activation_epoch d) cluster_stake 0
              in (current, delegated d - current))
         | None \<Rightarrow> (delegated d, 0)))"

definition stake_activating_and_deactivating ::
  "delegation \<Rightarrow> u64 \<Rightarrow> stake_history option \<Rightarrow> stake_history_entry" where
  "stake_activating_and_deactivating d target_epoch history =
     (let (effective_stake, activating_stake) = stake_and_activating d target_epoch history in
      if target_epoch < deactivation_epoch d then
        (if activating_stake = 0 then with_effective effective_stake
         else with_effective_and_activating effective_stake activating_stake)
      else if target_epoch = deactivation_epoch d then with_deactivating effective_stake
      else
        (case history_at history (deactivation_epoch d) of
           Some (h, cluster_stake) \<Rightarrow>
             with_deactivating
               (deactivation_loop d h target_epoch (deactivation_epoch d) cluster_stake effective_stake)
         | None \<Rightarrow> stake_history_entry_default))"

definition delegation_stake :: "delegation \<Rightarrow> u64 \<Rightarrow> stake_history option \<Rightarrow> u64" where
  "delegation_stake d epoch history = effective (stake_activating_and_deactivating d epoch history)"

section \<open>Operations on a stake\<close>

definition stake_split :: "u64 \<Rightarrow> u64 \<Rightarrow> stake \<Rightarrow> (stake_error, stake \<times> stake) result" where
  "stake_split remaining_stake_delta split_stake_amount st =
     (let d = stake_delegation st in
      if delegated d < remaining_stake_delta then Inl InsufficientStake
      else
        (let st' = st\<lparr>stake_delegation := d\<lparr>delegated := delegated d - remaining_stake_delta\<rparr>\<rparr>
         in Inr (st', st'\<lparr>stake_delegation := (stake_delegation st')\<lparr>delegated := split_stake_amount\<rparr>\<rparr>)))"

definition stake_deactivate :: "u64 \<Rightarrow> stake \<Rightarrow> (stake_error, stake) result" where
  "stake_deactivate epoch st =
     (if deactivation_epoch (stake_delegation st) \<noteq> max_val then Inl AlreadyDeactivated
      else Inr (st\<lparr>stake_delegation := (stake_delegation st)\<lparr>deactivation_epoch := epoch\<rparr>\<rparr>))"

section \<open>Bounds of the warm-up and the cool-down\<close>

lemma newly_moved_pos: "1 \<le> newly_moved a b c r"
  by (simp add: newly_moved_def Let_def)

lemma activation_loop_le:
  "cur \<le> delegated d \<Longrightarrow> activation_loop d h target prev c cur \<le> delegated d"
proof (induction d h target prev c cur rule: activation_loop.induct)
  case (1 d h target prev c cur)
  then show ?case
    by (subst activation_loop.simps) (auto simp: Let_def not_le intro: less_imp_le split: option.split)
qed

lemma stake_and_activating_bound:
  assumes "stake_and_activating d epoch history = (e, a)"
  shows "(e = 0 \<and> a = 0) \<or> unat e + unat a = unat (delegated d)"
proof -
  have *: "unat (activation_loop d h t p c 0) + unat (delegated d - activation_loop d h t p c 0)
      = unat (delegated d)" for h t p c
    using activation_loop_le [of 0 d h t p c]
    by (simp add: unat_sub_no_wrap word_le_nat_alt)
  show ?thesis
    using assms unfolding stake_and_activating_def
    by (auto simp: Let_def * split: if_splits option.splits)
qed

lemma deactivation_loop_le: "deactivation_loop d h target prev c cur \<le> cur"
proof (induction d h target prev c cur rule: deactivation_loop.induct)
  case (1 d h target prev c cur)
  define cur' where "cur' = saturating_sub cur (newly_moved cur (deactivating c) (effective c) (warmup_cooldown_rate d))"
  have le: "cur' \<le> cur" by (simp add: cur'_def word_le_nat_alt word_ops)
  show ?case
  proof (cases "deactivating c = 0 \<or> cur' = 0 \<or> target \<le> prev + 1 \<or> stake_history_get h (prev + 1) = None")
    case True
    then show ?thesis
      using le by (subst deactivation_loop.simps) (auto simp: Let_def cur'_def)
  next
    case False
    then obtain c' where c': "stake_history_get h (prev + 1) = Some c'" by blast
    with False have "deactivation_loop d h target (prev + 1) c' cur' \<le> cur'"
      by (intro 1 [unfolded Let_def, OF refl _ refl cur'_def]) (auto simp: cur'_def)
    with le False c' show ?thesis
      by (subst deactivation_loop.simps) (simp add: Let_def cur'_def)
  qed
qed

text \<open>Every epoch of a cool-down takes at least one lamport.\<close>

definition cooling :: "stake_history \<Rightarrow> u64 \<Rightarrow> u64 \<Rightarrow> bool" where
  "cooling h from_epoch to_epoch \<longleftrightarrow>
     (\<forall>e. from_epoch \<le> e \<longrightarrow> e < to_epoch \<longrightarrow> (\<exists>c. stake_history_get h e = Some c \<and> deactivating c \<noteq> 0))"

lemma deactivation_loop_progress:
  assumes "cooling h prev target" and "prev < target" and "stake_history_get h prev = Some c"
  shows "unat (deactivation_loop d h target prev c cur) \<le> unat cur - (unat target - unat prev)"
  using assms
proof (induction d h target prev c cur rule: deactivation_loop.induct)
  case (1 d h target prev c cur)
  define cur' where "cur' = saturating_sub cur (newly_moved cur (deactivating c) (effective c) (warmup_cooldown_rate d))"
  have le: "unat cur' \<le> unat cur - 1"
    using newly_moved_pos [of cur "deactivating c" "effective c" "warmup_cooldown_rate d"]
    by (simp add: cur'_def word_le_nat_alt word_ops)
  have c: "deactivating c \<noteq> 0" using 1(2-4) by (force simp: cooling_def)
  have "unat prev < unat target" using 1(3) by (simp add: word_less_nat_alt)
  moreover have "unat target < 2 ^ 64" using unat_less_exp [of target] by simp
  ultimately have nx: "unat (prev + 1) = unat prev + 1" using unat_add_no_wrap [of prev 1] by simp
  show ?case
  proof (cases "cur' = 0 \<or> target \<le> prev + 1")
    case True
    then have "deactivation_loop d h target prev c cur = cur'"
      using c by (subst deactivation_loop.simps) (auto simp: Let_def cur'_def)
    moreover have "target \<le> prev + 1 \<Longrightarrow> unat target - unat prev = 1"
      using nx \<open>unat prev < unat target\<close> by (simp add: word_le_nat_alt)
    ultimately show ?thesis using le True by (auto simp: Let_def)
  next
    case False
    then have lt: "prev + 1 < target" by (simp add: not_le)
    have cool: "cooling h (prev + 1) target"
      using 1(2) nx by (auto simp: cooling_def word_le_nat_alt)
    then obtain c' where c': "stake_history_get h (prev + 1) = Some c'"
      using lt by (auto simp: cooling_def)
    have "unat (deactivation_loop d h target (prev + 1) c' cur') \<le> unat cur' - (unat target - unat (prev + 1))"
      by (rule 1(1) [OF refl c refl cur'_def _ _ c' cool lt c']) (use False in auto)
    moreover have "deactivation_loop d h target prev c cur = deactivation_loop d h target (prev + 1) c' cur'"
      using c c' False by (subst deactivation_loop.simps) (simp add: Let_def cur'_def)
    ultimately show ?thesis using le nx by simp
  qed
qed

lemma activation_status:
  "let st = stake_activating_and_deactivating d epoch history
   in unat (effective st) + unat (activating st) \<le> unat (delegated d)
      \<and> (deactivating st = 0 \<or> deactivating st = effective st \<and> activating st = 0)"
proof -
  obtain e a where ea: "stake_and_activating d epoch history = (e, a)" by (cases "stake_and_activating d epoch history")
  have b: "unat e + unat a \<le> unat (delegated d)" using stake_and_activating_bound [OF ea] by auto
  have l: "unat (deactivation_loop d h epoch p c e) \<le> unat (delegated d)" for h p c
    using deactivation_loop_le [of d h epoch p c e] b by (simp add: word_le_nat_alt)
  show ?thesis
    using b l unfolding stake_activating_and_deactivating_def ea
    by (auto simp: with_effective_def with_effective_and_activating_def with_deactivating_def
      stake_history_entry_default_def split: option.split)
qed

lemma delegation_stake_le: "unat (delegation_stake d epoch history) \<le> unat (delegated d)"
  using activation_status [of d epoch history] by (simp add: delegation_stake_def Let_def)

text \<open>
  C27: Whatever the history of the cluster and whatever the rounding of the floating-point shares, the
  effective and the activating stake of a delegation never exceed what was delegated, and a stake that
  is deactivating is all of the effective stake, with nothing activating.
\<close>

theorem activation_status_bounds:
  "let st = stake_activating_and_deactivating d epoch history
   in unat (effective st) + unat (activating st) \<le> unat (delegated d)
      \<and> (deactivating st = 0 \<or> deactivating st = effective st \<and> activating st = 0)"
  by (rule activation_status)

text \<open>
  C28: A cool-down ends. If the history records, for every epoch from the deactivation on, that the
  cluster was deactivating some stake, then after as many epochs as there are delegated lamports the
  delegation has no effective, activating or deactivating stake left.
\<close>

theorem cooldown_completes:
  assumes "cooling h (deactivation_epoch d) target"
    and "unat (delegated d) + unat (deactivation_epoch d) \<le> unat target"
    and "deactivation_epoch d < target"
  shows "stake_activating_and_deactivating d target (Some h) = stake_history_entry_default"
proof -
  obtain e a where ea: "stake_and_activating d target (Some h) = (e, a)" by (cases "stake_and_activating d target (Some h)")
  have e: "unat e \<le> unat (delegated d)" using stake_and_activating_bound [OF ea] by auto
  from assms(1,3) obtain c where c: "stake_history_get h (deactivation_epoch d) = Some c"
    by (auto simp: cooling_def)
  have "unat (deactivation_loop d h target (deactivation_epoch d) c e) = 0"
    using deactivation_loop_progress [OF assms(1,3) c, of d e] assms(2) e by linarith
  then have "deactivation_loop d h target (deactivation_epoch d) c e = 0" by (simp add: word_unat_eq_iff)
  then show ?thesis
    using assms(3) c by (auto simp: stake_activating_and_deactivating_def ea history_at_def
      with_deactivating_def stake_history_entry_default_def)
qed

theorem cooldown_completes_witness:
  "let d = (delegation_new 3 2 1 DEFAULT_WARMUP_COOLDOWN_RATE)\<lparr>deactivation_epoch := 5\<rparr>;
       c = \<lparr>effective = 100, activating = 0, deactivating = 2\<rparr>
   in stake_activating_and_deactivating d 7 (Some [(6, c), (5, c)]) = stake_history_entry_default"
proof -
  let ?d = "(delegation_new 3 2 1 DEFAULT_WARMUP_COOLDOWN_RATE)\<lparr>deactivation_epoch := 5\<rparr>"
  let ?c = "\<lparr>effective = 100, activating = 0, deactivating = 2\<rparr>"
  let ?h = "[(6, ?c), (5, ?c)] :: stake_history"
  have "stake_history_get ?h e = map_of ?h e" for e
    by (rule stake_hist.get_entries) simp
  moreover have "e = 5 \<or> e = 6" if "5 \<le> e" "e < 7" for e :: u64
    using that by (auto simp: word_le_nat_alt word_less_nat_alt word_unat_eq_iff)
  ultimately have "cooling ?h 5 7" by (force simp: cooling_def)
  then have "stake_activating_and_deactivating ?d 7 (Some ?h) = stake_history_entry_default"
    by (intro cooldown_completes) (simp_all add: delegation_new_def delegation_default_def)
  then show ?thesis by simp
qed

end
