(* ===== verification/Stake_Account.thy ===== *)
theory Stake_Account
  imports Stake_State Vote_Program
begin

text \<open>
  The operations on stake accounts, \<open>programs/stake/src/stake_state.rs\<close>: the trait \<open>StakeAccount\<close>,
  delegation and redelegation, and the merging of stakes. An account is a cell of the store, so two
  keyed accounts with the same key are the same cell, as two references to one \<open>RefCell\<close> are.
\<close>

text \<open>What the program takes from \<open>bincode\<close> and \<open>sha2\<close>.\<close>

record stake_codecs =
  stake_codec :: "stake_state codec"
  stake_vote_codec :: "vote_state_versions codec"
  stake_clock_codec :: "clock codec"
  stake_rent_codec :: "rent codec"
  stake_history_codec :: "stake_history codec"
  config_keys_codec :: "(pubkey \<times> bool) list codec"
  config_codec :: "stake_config codec"
  stake_hashv :: "u8 list list \<Rightarrow> hash"

definition load_stake :: "stake_codecs \<Rightarrow> store \<Rightarrow> pubkey \<Rightarrow> stake_state ix_result" where
  "load_stake cs s k = state (stake_codec cs) (s k)"

definition store_stake :: "stake_codecs \<Rightarrow> stake_state \<Rightarrow> pubkey \<Rightarrow> store \<Rightarrow> store ix_result" where
  "store_stake cs st k s = bind_r (set_state (stake_codec cs) st (s k)) (\<lambda>a. Inr (s(k := a)))"

definition checked_add_r :: "u64 \<Rightarrow> u64 \<Rightarrow> u64 ix_result" where
  "checked_add_r a b = ok_or (checked_add a b) InsufficientFunds"

text \<open>The current vote state stored in a cell.\<close>

definition load_delegatee :: "stake_codecs \<Rightarrow> store \<Rightarrow> pubkey \<Rightarrow> vote_state ix_result" where
  "load_delegatee cs s k = bind_r (state (stake_vote_codec cs) (s k)) (\<lambda>v. Inr (convert_to_current v))"

section \<open>Initialisation and authorities\<close>

definition stake_account_initialize ::
  "stake_codecs \<Rightarrow> pubkey \<Rightarrow> authorized \<Rightarrow> lockup \<Rightarrow> rent \<Rightarrow> store \<Rightarrow> store ix_result" where
  "stake_account_initialize cs me auth l r s =
     bind_r (guard_r (length (data (s me)) = STAKE_STATE_SIZE) InvalidAccountData) (\<lambda>_.
     bind_r (load_stake cs s me) (\<lambda>st.
     case st of
       Uninitialized \<Rightarrow>
         (let reserve = minimum_balance r (length (data (s me))) in
          if reserve < lamports (s me)
          then store_stake cs (Initialized \<lparr>rent_exempt_reserve = reserve, meta_authorized = auth, meta_lockup = l\<rparr>) me s
          else Inl InsufficientFunds)
     | _ \<Rightarrow> Inl InvalidAccountData))"

definition stake_account_authorize ::
  "stake_codecs \<Rightarrow> pubkey \<Rightarrow> pubkey set \<Rightarrow> pubkey \<Rightarrow> stake_authorize \<Rightarrow> bool \<Rightarrow> clock \<Rightarrow> pubkey option \<Rightarrow> store
     \<Rightarrow> store ix_result" where
  "stake_account_authorize cs me signers new_authority what require_custodian clk custodian s =
     (let authorize_meta = (\<lambda>m.
            bind_r (authorized_authorize signers new_authority what
                (if require_custodian then Some (meta_lockup m, clk, custodian) else None)
                (meta_authorized m)) (\<lambda>auth. Inr (m\<lparr>meta_authorized := auth\<rparr>)))
      in bind_r (load_stake cs s me) (\<lambda>st.
         case st of
           Stake m stk \<Rightarrow> bind_r (authorize_meta m) (\<lambda>m'. store_stake cs (Stake m' stk) me s)
         | Initialized m \<Rightarrow> bind_r (authorize_meta m) (\<lambda>m'. store_stake cs (Initialized m') me s)
         | _ \<Rightarrow> Inl InvalidAccountData))"

definition stake_account_authorize_with_seed ::
  "stake_codecs \<Rightarrow> pubkey \<Rightarrow> keyed_account \<Rightarrow> string \<Rightarrow> pubkey \<Rightarrow> pubkey \<Rightarrow> stake_authorize \<Rightarrow> bool \<Rightarrow> clock
     \<Rightarrow> pubkey option \<Rightarrow> store \<Rightarrow> store ix_result" where
  "stake_account_authorize_with_seed cs me authority_base seed own new_authority what require_custodian clk custodian s =
     bind_r
       (case signer_key authority_base of
          Some base \<Rightarrow>
            bind_r (map_err (\<lambda>e. instruction_error_from (pubkey_error_code e))
              (create_with_seed (stake_hashv cs) base seed own)) (\<lambda>k. Inr {k})
        | None \<Rightarrow> Inr {})
       (\<lambda>signers. stake_account_authorize cs me signers new_authority what require_custodian clk custodian s)"

definition stake_account_set_lockup ::
  "stake_codecs \<Rightarrow> pubkey \<Rightarrow> lockup_args \<Rightarrow> pubkey set \<Rightarrow> clock option \<Rightarrow> store \<Rightarrow> store ix_result" where
  "stake_account_set_lockup cs me args signers clk s =
     bind_r (load_stake cs s me) (\<lambda>st.
     case st of
       Initialized m \<Rightarrow>
         bind_r (meta_set_lockup args signers clk m) (\<lambda>m'. store_stake cs (Initialized m') me s)
     | Stake m stk \<Rightarrow>
         bind_r (meta_set_lockup args signers clk m) (\<lambda>m'. store_stake cs (Stake m' stk) me s)
     | _ \<Rightarrow> Inl InvalidAccountData)"

section \<open>Delegation\<close>

definition redelegate ::
  "u64 \<Rightarrow> pubkey \<Rightarrow> vote_state \<Rightarrow> clock \<Rightarrow> stake_history \<Rightarrow> stake_config \<Rightarrow> bool \<Rightarrow> stake
     \<Rightarrow> (stake_error, stake) result" where
  "redelegate stake_lamports voter vs clk history config can_reverse_deactivation stk =
     (let d = stake_delegation stk in
      if delegation_stake d (clock_epoch clk) (Some history) \<noteq> 0 then
        (if voter_pubkey d = voter \<and> clock_epoch clk = deactivation_epoch d \<and> can_reverse_deactivation
         then Inr (stk\<lparr>stake_delegation := d\<lparr>deactivation_epoch := max_val\<rparr>\<rparr>)
         else Inl TooSoonToRedelegate)
      else
        Inr (stk\<lparr>stake_delegation :=
                   d\<lparr>delegated := stake_lamports, activation_epoch := clock_epoch clk,
                     deactivation_epoch := max_val, voter_pubkey := voter,
                     warmup_cooldown_rate := config_warmup_cooldown_rate config\<rparr>,
                 credits_observed := credits vs\<rparr>))"

definition new_stake :: "u64 \<Rightarrow> pubkey \<Rightarrow> vote_state \<Rightarrow> u64 \<Rightarrow> stake_config \<Rightarrow> stake" where
  "new_stake amount voter vs epoch config =
     \<lparr>stake_delegation = delegation_new voter amount epoch (config_warmup_cooldown_rate config),
      credits_observed = credits vs\<rparr>"

definition stake_account_delegate ::
  "stake_codecs \<Rightarrow> pubkey \<Rightarrow> pubkey \<Rightarrow> clock \<Rightarrow> stake_history \<Rightarrow> stake_config \<Rightarrow> pubkey set \<Rightarrow> bool \<Rightarrow> store
     \<Rightarrow> store ix_result" where
  "stake_account_delegate cs me vote_key clk history config signers can_reverse_deactivation s =
     bind_r (guard_r (owner (s vote_key) = vote_program_id) IncorrectProgramId) (\<lambda>_.
     bind_r (load_stake cs s me) (\<lambda>st.
     case st of
       Initialized m \<Rightarrow>
         bind_r (authorized_check (meta_authorized m) signers Staker) (\<lambda>_.
         bind_r (load_delegatee cs s vote_key) (\<lambda>vs.
           store_stake cs (Stake m (new_stake (saturating_sub (lamports (s me)) (rent_exempt_reserve m))
             vote_key vs (clock_epoch clk) config)) me s))
     | Stake m stk \<Rightarrow>
         bind_r (authorized_check (meta_authorized m) signers Staker) (\<lambda>_.
         bind_r (load_delegatee cs s vote_key) (\<lambda>vs.
         bind_r (map_err stake_error_into
           (redelegate (saturating_sub (lamports (s me)) (rent_exempt_reserve m)) vote_key vs clk history config
              can_reverse_deactivation stk)) (\<lambda>stk'.
           store_stake cs (Stake m stk') me s)))
     | _ \<Rightarrow> Inl InvalidAccountData))"

definition stake_account_deactivate ::
  "stake_codecs \<Rightarrow> pubkey \<Rightarrow> clock \<Rightarrow> pubkey set \<Rightarrow> store \<Rightarrow> store ix_result" where
  "stake_account_deactivate cs me clk signers s =
     bind_r (load_stake cs s me) (\<lambda>st.
     case st of
       Stake m stk \<Rightarrow>
         bind_r (authorized_check (meta_authorized m) signers Staker) (\<lambda>_.
         bind_r (map_err stake_error_into (stake_deactivate (clock_epoch clk) stk)) (\<lambda>stk'.
           store_stake cs (Stake m stk') me s))
     | _ \<Rightarrow> Inl InvalidAccountData)"

section \<open>Splitting\<close>

definition calculate_split_rent_exempt_reserve :: "u64 \<Rightarrow> u64 \<Rightarrow> u64 \<Rightarrow> u64" where
  "calculate_split_rent_exempt_reserve source_reserve source_data_len split_data_len =
     (let per_byte = source_reserve div (source_data_len + ACCOUNT_STORAGE_OVERHEAD)
      in per_byte * (split_data_len + ACCOUNT_STORAGE_OVERHEAD))"

text \<open>
  The test that both halves keep enough: the new account its reserve and some stake, the old one,
  unless all of it is split off, its reserve and some stake.
\<close>

definition check_split_funds :: "u64 \<Rightarrow> u64 \<Rightarrow> u64 \<Rightarrow> u64 \<Rightarrow> u64 \<Rightarrow> unit ix_result" where
  "check_split_funds amount split_reserve split_lamports reserve self_lamports =
     bind_r (guard_r (\<not> amount \<le> saturating_sub split_reserve split_lamports) InsufficientFunds) (\<lambda>_.
     if amount \<noteq> self_lamports then
       bind_r (checked_add_r amount reserve) (\<lambda>needed.
         guard_r (\<not> self_lamports \<le> needed) InsufficientFunds)
     else Inr ())"

definition split_amounts :: "u64 \<Rightarrow> u64 \<Rightarrow> u64 \<Rightarrow> u64 \<Rightarrow> u64 \<Rightarrow> u64 \<times> u64" where
  "split_amounts amount split_reserve split_lamports reserve self_lamports =
     (if amount = self_lamports then
        (let remaining_stake_delta = saturating_sub amount reserve
         in (remaining_stake_delta, remaining_stake_delta))
      else (amount, amount - saturating_sub split_reserve split_lamports))"

text \<open>The states written, by the state of the account that is split.\<close>

definition split_states ::
  "stake_codecs \<Rightarrow> pubkey \<Rightarrow> u64 \<Rightarrow> pubkey \<Rightarrow> pubkey set \<Rightarrow> stake_state \<Rightarrow> store \<Rightarrow> store ix_result" where
  "split_states cs me amount split_key signers st s =
     (case st of
        Stake m stk \<Rightarrow>
          bind_r (authorized_check (meta_authorized m) signers Staker) (\<lambda>_.
          let split_reserve = calculate_split_rent_exempt_reserve (rent_exempt_reserve m)
                (of_nat (length (data (s me)))) (of_nat (length (data (s split_key))));
              (delta, split_amount) = split_amounts amount split_reserve (lamports (s split_key))
                (rent_exempt_reserve m) (lamports (s me))
          in
          bind_r (check_split_funds amount split_reserve (lamports (s split_key))
            (rent_exempt_reserve m) (lamports (s me))) (\<lambda>_.
          bind_r (map_err stake_error_into (stake_split delta split_amount stk)) (\<lambda>(stk', split_stk).
          bind_r (store_stake cs (Stake m stk') me s) (\<lambda>s1.
            store_stake cs (Stake (m\<lparr>rent_exempt_reserve := split_reserve\<rparr>) split_stk) split_key s1))))
      | Initialized m \<Rightarrow>
          bind_r (authorized_check (meta_authorized m) signers Staker) (\<lambda>_.
          let split_reserve = calculate_split_rent_exempt_reserve (rent_exempt_reserve m)
                (of_nat (length (data (s me)))) (of_nat (length (data (s split_key))))
          in
          bind_r (check_split_funds amount split_reserve (lamports (s split_key))
            (rent_exempt_reserve m) (lamports (s me))) (\<lambda>_.
            store_stake cs (Initialized (m\<lparr>rent_exempt_reserve := split_reserve\<rparr>)) split_key s))
      | Uninitialized \<Rightarrow> bind_r (guard_r (me \<in> signers) MissingRequiredSignature) (\<lambda>_. Inr s)
      | RewardsPool \<Rightarrow> Inl InvalidAccountData)"

text \<open>Crediting the new account comes before debiting the old one.\<close>

definition credit_then_debit :: "pubkey \<Rightarrow> pubkey \<Rightarrow> u64 \<Rightarrow> store \<Rightarrow> store ix_result" where
  "credit_then_debit to_key from_key n s =
     bind_r (map_err lamports_error_into (checked_add_lamports (s to_key) n)) (\<lambda>a.
       let s1 = s(to_key := a) in
       bind_r (map_err lamports_error_into (checked_sub_lamports (s1 from_key) n)) (\<lambda>b.
         Inr (s1(from_key := b))))"

definition stake_account_split ::
  "stake_codecs \<Rightarrow> pubkey \<Rightarrow> u64 \<Rightarrow> pubkey \<Rightarrow> pubkey set \<Rightarrow> store \<Rightarrow> store ix_result" where
  "stake_account_split cs me amount split_key signers s =
     bind_r (guard_r (owner (s split_key) = stake_program_id) IncorrectProgramId) (\<lambda>_.
     bind_r (guard_r (length (data (s split_key)) = STAKE_STATE_SIZE) InvalidAccountData) (\<lambda>_.
     bind_r (load_stake cs s split_key) (\<lambda>split_st.
     bind_r (guard_r (split_st = Uninitialized) InvalidAccountData) (\<lambda>_.
     bind_r (guard_r (\<not> lamports (s me) < amount) InsufficientFunds) (\<lambda>_.
     bind_r (load_stake cs s me) (\<lambda>st.
     bind_r (split_states cs me amount split_key signers st s) (\<lambda>s1.
     bind_r (if amount = lamports (s1 me) then store_stake cs Uninitialized me s1 else Inr s1) (\<lambda>s2.
       credit_then_debit split_key me amount s2))))))))"

section \<open>Merging\<close>

datatype merge_kind =
    Inactive meta u64
  | ActivationEpoch meta stake
  | FullyActive meta stake

fun merge_meta :: "merge_kind \<Rightarrow> meta" where
  "merge_meta (Inactive m _) = m"
| "merge_meta (ActivationEpoch m _) = m"
| "merge_meta (FullyActive m _) = m"

fun active_stake :: "merge_kind \<Rightarrow> stake option" where
  "active_stake (Inactive _ _) = None"
| "active_stake (ActivationEpoch _ stk) = Some stk"
| "active_stake (FullyActive _ stk) = Some stk"

definition get_if_mergeable ::
  "stake_codecs \<Rightarrow> pubkey \<Rightarrow> clock \<Rightarrow> stake_history \<Rightarrow> store \<Rightarrow> merge_kind ix_result" where
  "get_if_mergeable cs k clk history s =
     bind_r (load_stake cs s k) (\<lambda>st.
     case st of
       Stake m stk \<Rightarrow>
         (let status = stake_activating_and_deactivating (stake_delegation stk) (clock_epoch clk) (Some history) in
          if effective status = 0 \<and> activating status = 0 \<and> deactivating status = 0
          then Inr (Inactive m (lamports (s k)))
          else if effective status = 0 then Inr (ActivationEpoch m stk)
          else if activating status = 0 \<and> deactivating status = 0 then Inr (FullyActive m stk)
          else Inl (stake_error_into MergeTransientStake))
     | Initialized m \<Rightarrow> Inr (Inactive m (lamports (s k)))
     | _ \<Rightarrow> Inl InvalidAccountData)"

definition metas_can_merge :: "meta \<Rightarrow> meta \<Rightarrow> clock option \<Rightarrow> unit ix_result" where
  "metas_can_merge m source clk =
     (let can_merge_lockups =
        (case clk of
           None \<Rightarrow> meta_lockup m = meta_lockup source
         | Some c \<Rightarrow> meta_lockup m = meta_lockup source
             \<or> \<not> is_in_force (meta_lockup m) c None \<and> \<not> is_in_force (meta_lockup source) c None)
      in if meta_authorized m = meta_authorized source \<and> can_merge_lockups then Inr ()
         else Inl (stake_error_into MergeMismatch))"

definition active_delegations_can_merge :: "delegation \<Rightarrow> delegation \<Rightarrow> unit ix_result" where
  "active_delegations_can_merge d source =
     (if voter_pubkey d \<noteq> voter_pubkey source then Inl (stake_error_into MergeMismatch)
      else if f64_less (f64_abs (f64_sub (warmup_cooldown_rate d) (warmup_cooldown_rate source))) f64_epsilon
        \<and> deactivation_epoch d = max_val \<and> deactivation_epoch source = max_val
      then Inr ()
      else Inl (stake_error_into MergeMismatch))"

definition active_stakes_can_merge :: "stake \<Rightarrow> stake \<Rightarrow> unit ix_result" where
  "active_stakes_can_merge stk source =
     bind_r (active_delegations_can_merge (stake_delegation stk) (stake_delegation source)) (\<lambda>_.
       if credits_observed stk = credits_observed source then Inr ()
       else Inl (stake_error_into MergeMismatch))"

definition stake_weighted_credits_observed :: "stake \<Rightarrow> u64 \<Rightarrow> u64 \<Rightarrow> u64 option" where
  "stake_weighted_credits_observed stk absorbed_lamports absorbed_credits_observed =
     (if credits_observed stk = absorbed_credits_observed then Some (credits_observed stk)
      else
        Option.bind (checked_add (delegated (stake_delegation stk)) absorbed_lamports) (\<lambda>sum.
        let total_stake = ucast sum :: u128 in
        Option.bind (checked_mul (ucast (credits_observed stk)) (ucast (delegated (stake_delegation stk)))) (\<lambda>weighted.
        Option.bind (checked_mul (ucast absorbed_credits_observed) (ucast absorbed_lamports)) (\<lambda>absorbed.
        Option.bind (checked_add weighted absorbed) (\<lambda>t1.
        Option.bind (checked_add t1 total_stake) (\<lambda>t2.
        Option.bind (checked_sub t2 1) (\<lambda>t3.
        Option.bind (checked_div t3 total_stake) (\<lambda>q.
          if unat q < 2 ^ 64 then Some (ucast q) else None))))))))"

definition merge_delegation_stake_and_credits_observed ::
  "invoke_context \<Rightarrow> u64 \<Rightarrow> u64 \<Rightarrow> stake \<Rightarrow> stake ix_result" where
  "merge_delegation_stake_and_credits_observed ic absorbed_lamports absorbed_credits_observed stk =
     bind_r
       (if is_active ic stake_merge_with_unmatched_credits_observed then
          bind_r (ok_or (stake_weighted_credits_observed stk absorbed_lamports absorbed_credits_observed)
            ArithmeticOverflow) (\<lambda>c. Inr (stk\<lparr>credits_observed := c\<rparr>))
        else Inr stk) (\<lambda>stk1.
     bind_r (checked_add_r (delegated (stake_delegation stk1)) absorbed_lamports) (\<lambda>amount.
       Inr (stk1\<lparr>stake_delegation := (stake_delegation stk1)\<lparr>delegated := amount\<rparr>\<rparr>)))"

definition merge_kinds ::
  "invoke_context \<Rightarrow> merge_kind \<Rightarrow> merge_kind \<Rightarrow> clock option \<Rightarrow> stake_state option ix_result" where
  "merge_kinds ic dest source clk =
     bind_r (metas_can_merge (merge_meta dest) (merge_meta source) clk) (\<lambda>_.
     bind_r
       (case (active_stake dest, active_stake source) of
          (Some stk, Some source_stk) \<Rightarrow>
            if is_active ic stake_merge_with_unmatched_credits_observed
            then active_delegations_can_merge (stake_delegation stk) (stake_delegation source_stk)
            else active_stakes_can_merge stk source_stk
        | _ \<Rightarrow> Inr ()) (\<lambda>_.
     case (dest, source) of
       (Inactive _ _, Inactive _ _) \<Rightarrow> Inr None
     | (Inactive _ _, ActivationEpoch _ _) \<Rightarrow> Inr None
     | (ActivationEpoch m stk, Inactive _ source_lamports) \<Rightarrow>
         bind_r (checked_add_r (delegated (stake_delegation stk)) source_lamports) (\<lambda>amount.
           Inr (Some (Stake m (stk\<lparr>stake_delegation := (stake_delegation stk)\<lparr>delegated := amount\<rparr>\<rparr>))))
     | (ActivationEpoch m stk, ActivationEpoch source_m source_stk) \<Rightarrow>
         bind_r (checked_add_r (rent_exempt_reserve source_m) (delegated (stake_delegation source_stk))) (\<lambda>source_lamports.
         bind_r (merge_delegation_stake_and_credits_observed ic source_lamports (credits_observed source_stk) stk) (\<lambda>stk'.
           Inr (Some (Stake m stk'))))
     | (FullyActive m stk, FullyActive _ source_stk) \<Rightarrow>
         bind_r (merge_delegation_stake_and_credits_observed ic (delegated (stake_delegation source_stk))
           (credits_observed source_stk) stk) (\<lambda>stk'.
           Inr (Some (Stake m stk')))
     | _ \<Rightarrow> Inl (stake_error_into MergeMismatch)))"

definition stake_account_merge ::
  "stake_codecs \<Rightarrow> invoke_context \<Rightarrow> pubkey \<Rightarrow> pubkey \<Rightarrow> clock \<Rightarrow> stake_history \<Rightarrow> pubkey set \<Rightarrow> bool \<Rightarrow> store
     \<Rightarrow> store ix_result" where
  "stake_account_merge cs ic me source_key clk history signers can_merge_expired_lockups s =
     bind_r (guard_r (owner (s source_key) = stake_program_id) IncorrectProgramId) (\<lambda>_.
     bind_r (guard_r (source_key \<noteq> me) InvalidArgument) (\<lambda>_.
     bind_r (get_if_mergeable cs me clk history s) (\<lambda>stake_merge_kind.
     bind_r (authorized_check (meta_authorized (merge_meta stake_merge_kind)) signers Staker) (\<lambda>_.
     bind_r (get_if_mergeable cs source_key clk history s) (\<lambda>source_merge_kind.
     bind_r (merge_kinds ic stake_merge_kind source_merge_kind
       (if can_merge_expired_lockups then Some clk else None)) (\<lambda>merged.
     bind_r (case merged of Some st \<Rightarrow> store_stake cs st me s | None \<Rightarrow> Inr s) (\<lambda>s1.
     bind_r (store_stake cs Uninitialized source_key s1) (\<lambda>s2.
       move_lamports source_key me (lamports (s2 source_key)) s2))))))))"

section \<open>Withdrawal\<close>

text \<open>The lockup, what must stay in the account, and whether any of it is staked.\<close>

definition withdraw_limits ::
  "pubkey \<Rightarrow> clock \<Rightarrow> stake_history \<Rightarrow> pubkey set \<Rightarrow> bool \<Rightarrow> stake_state \<Rightarrow> (lockup \<times> u64 \<times> bool) ix_result"
where
  "withdraw_limits me clk history signers prevent_withdraw_to_zero st =
     (case st of
        Stake m stk \<Rightarrow>
          bind_r (authorized_check (meta_authorized m) signers stake_authorize.Withdrawer) (\<lambda>_.
          let d = stake_delegation stk;
              staked = (if deactivation_epoch d \<le> clock_epoch clk
                        then delegation_stake d (clock_epoch clk) (Some history) else delegated d)
          in bind_r (checked_add_r staked (rent_exempt_reserve m)) (\<lambda>staked_and_reserve.
               Inr (meta_lockup m, staked_and_reserve, staked \<noteq> 0)))
      | Initialized m \<Rightarrow>
          bind_r (authorized_check (meta_authorized m) signers stake_authorize.Withdrawer) (\<lambda>_.
          bind_r (if prevent_withdraw_to_zero then checked_add_r (rent_exempt_reserve m) 1
                  else Inr (rent_exempt_reserve m)) (\<lambda>reserve.
            Inr (meta_lockup m, reserve, False)))
      | Uninitialized \<Rightarrow>
          bind_r (guard_r (me \<in> signers) MissingRequiredSignature) (\<lambda>_. Inr (lockup_default, 0, False))
      | RewardsPool \<Rightarrow> Inl InvalidAccountData)"

definition stake_account_withdraw ::
  "stake_codecs \<Rightarrow> pubkey \<Rightarrow> u64 \<Rightarrow> pubkey \<Rightarrow> clock \<Rightarrow> stake_history \<Rightarrow> keyed_account \<Rightarrow> keyed_account option
     \<Rightarrow> bool \<Rightarrow> store \<Rightarrow> store ix_result" where
  "stake_account_withdraw cs me amount to_key clk history withdraw_authority custodian prevent_withdraw_to_zero s =
     bind_r (ok_or (signer_key withdraw_authority) MissingRequiredSignature) (\<lambda>authority.
     bind_r (load_stake cs s me) (\<lambda>st.
     bind_r (withdraw_limits me clk history {authority} prevent_withdraw_to_zero st) (\<lambda>(l, reserve, is_staked).
     bind_r (guard_r (\<not> is_in_force l clk (Option.bind custodian signer_key)) (stake_error_into LockupInForce)) (\<lambda>_.
     bind_r (checked_add_r amount reserve) (\<lambda>lamports_and_reserve.
     bind_r (guard_r (\<not> (is_staked \<and> lamports (s me) < lamports_and_reserve)) InsufficientFunds) (\<lambda>_.
     bind_r (if amount \<noteq> lamports (s me) \<and> lamports (s me) < lamports_and_reserve
             then bind_r (guard_r (\<not> is_staked) Panicked) (\<lambda>_. Inl InsufficientFunds)
             else Inr ()) (\<lambda>_.
     bind_r (if amount = lamports (s me) then store_stake cs Uninitialized me s else Inr s) (\<lambda>s1.
       move_lamports me to_key amount s1))))))))"

end
