(* ===== verification/Stakes.thy ===== *)
theory Stakes
  imports Vote_Accounts Stake_Account
begin

text \<open>
  The cache of stakes (\<open>runtime/src/stakes.rs\<close>): the delegations of all stake accounts, and with each
  vote account the stake delegated to it in the current epoch. The cache is told of every account that
  is stored and moves stakes from one vote account to another accordingly; at an epoch boundary it
  recomputes them. A call is one step: the lock it takes makes it atomic.
\<close>

section \<open>The operations\<close>

record stakes =
  st_vote_accounts :: vote_accounts
  st_stake_delegations :: "(pubkey, delegation) hash_map"
  st_unused :: u64
  st_epoch :: u64
  st_history :: stake_history

definition stakes_default :: stakes where
  "stakes_default = \<lparr>st_vote_accounts = vote_accounts_default, st_stake_delegations = [], st_unused = 0,
     st_epoch = 0, st_history = []\<rparr>"

definition is_stake :: "account \<Rightarrow> bool" where
  "is_stake a \<longleftrightarrow> owner a = vote_program_id \<or> owner a = stake_program_id \<and> STAKE_STATE_SIZE \<le> length (data a)"

definition vote_delegations :: "(pubkey, delegation) hash_map \<Rightarrow> (pubkey, delegation list) hash_map" where
  "vote_delegations ds =
     fold (\<lambda>(_, d) m. hm_insert (voter_pubkey d) (unwrap_or (map_of m (voter_pubkey d)) [] @ [d]) m) ds []"

definition sum_status :: "stake_history_entry list \<Rightarrow> stake_history_entry" where
  "sum_status es = fold (\<lambda>e acc. stake_history_entry_add acc e) es stake_history_entry_default"

definition stakes_activate_epoch :: "u64 \<Rightarrow> stakes \<Rightarrow> stakes" where
  "stakes_activate_epoch next_epoch st =
     (let prev_epoch = st_epoch st;
          groups = vote_delegations (st_stake_delegations st);
          entry = sum_status (map (\<lambda>(_, ds). sum_status
            (map (\<lambda>d. stake_activating_and_deactivating d prev_epoch (Some (st_history st))) ds)) groups);
          history = stake_history_add prev_epoch entry (st_history st);
          accounts = map (\<lambda>(v, _, a). (v,
            (case map_of groups v of
               Some ds \<Rightarrow> sum_list (map (\<lambda>d. delegation_stake d next_epoch (Some history)) ds)
             | None \<Rightarrow> 0), a)) (va_accounts (st_vote_accounts st))
      in st\<lparr>st_epoch := next_epoch, st_history := history, st_vote_accounts := vote_accounts_from accounts\<rparr>)"

definition calculate_stake :: "pubkey \<Rightarrow> u64 \<Rightarrow> stake_history \<Rightarrow> stakes \<Rightarrow> u64" where
  "calculate_stake voter epoch history st =
     sum_list (map (\<lambda>(_, d). delegation_stake d epoch (Some history))
       (filter (\<lambda>(_, d). voter_pubkey d = voter) (st_stake_delegations st)))"

definition vote_balance_and_staked :: "stakes \<Rightarrow> u64" where
  "vote_balance_and_staked st =
     sum_list (map (\<lambda>(_, d). delegated d) (st_stake_delegations st))
     + sum_list (map (\<lambda>(_, _, a). lamports a) (va_accounts (st_vote_accounts st)))"

definition remove_vote_account :: "vote_codecs \<Rightarrow> pubkey \<Rightarrow> stakes \<Rightarrow> stakes ix_result" where
  "remove_vote_account vcs v st =
     bind_r (vote_accounts_remove vcs v (st_vote_accounts st)) (\<lambda>(_, va). Inr (st\<lparr>st_vote_accounts := va\<rparr>))"

definition remove_stake_delegation :: "vote_codecs \<Rightarrow> pubkey \<Rightarrow> stakes \<Rightarrow> stakes ix_result" where
  "remove_stake_delegation vcs k st =
     (case map_of (st_stake_delegations st) k of
        None \<Rightarrow> Inr st
      | Some d \<Rightarrow>
          bind_r (sub_stake vcs (voter_pubkey d) (delegation_stake d (st_epoch st) (Some (st_history st)))
            (st_vote_accounts st)) (\<lambda>va.
            Inr (st\<lparr>st_stake_delegations := hm_remove k (st_stake_delegations st), st_vote_accounts := va\<rparr>)))"

definition update_vote_account :: "vote_codecs \<Rightarrow> pubkey \<Rightarrow> account option \<Rightarrow> stakes \<Rightarrow> stakes ix_result" where
  "update_vote_account vcs v new_vote_account st =
     bind_r (vote_accounts_remove vcs v (st_vote_accounts st)) (\<lambda>(old_entry, va).
     case new_vote_account of
       None \<Rightarrow> Inr (st\<lparr>st_vote_accounts := va\<rparr>)
     | Some a \<Rightarrow>
         (let new_stake = (case old_entry of
                None \<Rightarrow> calculate_stake v (st_epoch st) (st_history st) st
              | Some (old_stake, _) \<Rightarrow> old_stake)
          in bind_r (vote_accounts_insert vcs v (new_stake, a) va) (\<lambda>va'.
               Inr (st\<lparr>st_vote_accounts := va'\<rparr>))))"

definition update_stake_delegation ::
  "vote_codecs \<Rightarrow> pubkey \<Rightarrow> (u64 \<times> delegation) option \<Rightarrow> bool \<Rightarrow> stakes \<Rightarrow> stakes ix_result" where
  "update_stake_delegation vcs k new_delegation remove_delegation st =
     (let ds = st_stake_delegations st;
          old_stake = map_option (\<lambda>d. (voter_pubkey d, delegation_stake d (st_epoch st) (Some (st_history st))))
            (map_of ds k);
          new_stake = map_option (\<lambda>(stake, d). (voter_pubkey d, stake)) new_delegation
      in
      bind_r
        (if new_stake \<noteq> old_stake then
           bind_r (case old_stake of Some (v, stake) \<Rightarrow> sub_stake vcs v stake (st_vote_accounts st)
                   | None \<Rightarrow> Inr (st_vote_accounts st)) (\<lambda>va.
             Inr (case new_stake of Some (v, stake) \<Rightarrow> add_stake vcs v stake va | None \<Rightarrow> va))
         else Inr (st_vote_accounts st)) (\<lambda>va.
        Inr (st\<lparr>st_vote_accounts := va,
               st_stake_delegations :=
                 (if remove_delegation then hm_remove k ds
                  else case new_delegation of Some (_, d) \<Rightarrow> hm_insert k d ds | None \<Rightarrow> ds)\<rparr>)))"

definition delegation_from :: "stake_codecs \<Rightarrow> account \<Rightarrow> delegation option" where
  "delegation_from cs a = (case state (stake_codec cs) a of Inr st \<Rightarrow> state_delegation st | Inl _ \<Rightarrow> None)"

definition check_and_store ::
  "vote_codecs \<Rightarrow> stake_codecs \<Rightarrow> bool \<Rightarrow> pubkey \<Rightarrow> account \<Rightarrow> stakes \<Rightarrow> stakes ix_result" where
  "check_and_store vcs cs remove_delegation_on_inactive k a st =
     (if owner a = vote_program_id then
        update_vote_account vcs k
          (if lamports a \<noteq> 0 \<and> is_correct_size_and_initialized vcs (data a) then Some a else None) st
      else if owner a = stake_program_id then
        (let new_delegation = map_option (\<lambda>d.
               (if lamports a \<noteq> 0 then delegation_stake d (st_epoch st) (Some (st_history st)) else 0, d))
               (delegation_from cs a);
             remove_delegation =
               (if remove_delegation_on_inactive then new_delegation = None else lamports a = 0)
         in update_stake_delegation vcs k new_delegation remove_delegation st)
      else Inr st)"

definition handle_invalid_keys ::
  "vote_codecs \<Rightarrow> pubkey list \<Rightarrow> pubkey list \<Rightarrow> bool \<Rightarrow> stakes \<Rightarrow> stakes ix_result" where
  "handle_invalid_keys vcs invalid_stake_keys invalid_vote_keys should_evict_invalid_entries st =
     (if should_evict_invalid_entries then
        bind_r (run_r (remove_stake_delegation vcs) invalid_stake_keys st) (run_r (remove_vote_account vcs) invalid_vote_keys)
      else Inr st)"

text \<open>\<open>max_by\<close> keeps the last of the greatest elements.\<close>

definition highest_staked_node :: "vote_codecs \<Rightarrow> stakes \<Rightarrow> pubkey option" where
  "highest_staked_node vcs st =
     Option.bind
       (fold (\<lambda>(_, stake, a) best.
           case best of
             None \<Rightarrow> Some (stake, a)
           | Some (s, b) \<Rightarrow> if s \<le> stake then Some (stake, a) else Some (s, b))
         (va_accounts (st_vote_accounts st)) None)
       (\<lambda>(_, a). vote_account_node_pubkey vcs a)"

section \<open>The cache follows the delegations\<close>

text \<open>The stake of a voter and of all voters at an epoch, and all that is delegated.\<close>

definition voter_stake :: "u64 \<Rightarrow> stake_history \<Rightarrow> (pubkey, delegation) hash_map \<Rightarrow> pubkey \<Rightarrow> nat" where
  "voter_stake e h ds v = hm_total (\<lambda>_ d. if voter_pubkey d = v then unat (delegation_stake d e (Some h)) else 0) ds"

definition all_stake :: "u64 \<Rightarrow> stake_history \<Rightarrow> (pubkey, delegation) hash_map \<Rightarrow> nat" where
  "all_stake e h ds = hm_total (\<lambda>_ d. unat (delegation_stake d e (Some h))) ds"

definition all_delegated :: "(pubkey, delegation) hash_map \<Rightarrow> nat" where
  "all_delegated ds = hm_total (\<lambda>_ d. unat (delegated d)) ds"

definition tracks :: "vote_codecs \<Rightarrow> u64 \<Rightarrow> stake_history \<Rightarrow> (pubkey, delegation) hash_map \<Rightarrow> vote_accounts \<Rightarrow> bool" where
  "tracks vcs e h ds va \<longleftrightarrow> hm_ok ds \<and> va_ok vcs va
     \<and> (\<forall>v s a. map_of (va_accounts va) v = Some (s, a) \<longrightarrow> unat s = voter_stake e h ds v)"

definition stakes_ok :: "vote_codecs \<Rightarrow> stakes \<Rightarrow> bool" where
  "stakes_ok vcs st \<longleftrightarrow> tracks vcs (st_epoch st) (st_history st) (st_stake_delegations st) (st_vote_accounts st)
     \<and> all_delegated (st_stake_delegations st) < 2 ^ 64"

lemma all_stake_le: "hm_ok ds \<Longrightarrow> all_stake e h ds \<le> all_delegated ds"
  unfolding all_stake_def all_delegated_def
  by (rule hm.total_mono) (rule delegation_stake_le)

lemma voter_stake_le: "hm_ok ds \<Longrightarrow> voter_stake e h ds v \<le> all_stake e h ds"
  unfolding all_stake_def voter_stake_def by (rule hm.total_mono) auto

lemma voters_total:
  "distinct vs \<Longrightarrow> (\<Sum>v\<leftarrow>vs. hm_total (\<lambda>_ d. if voter_pubkey d = v then f d else 0) ds) \<le> hm_total (\<lambda>_ d. f d) ds"
proof (induction ds)
  case (Cons e ds)
  obtain k d where e: "e = (k, d)" by (cases e)
  have "(\<Sum>v\<leftarrow>vs. if voter_pubkey d = v then f d else 0) \<le> f d"
    using Cons.prems by (simp add: sum_list_distinct_conv_sum_set)
  with Cons show ?case by (simp add: e sum_list_addf)
qed simp

lemma staked_voters:
  assumes ok: "hm_ok m" and "\<And>v s a. map_of m v = Some (s, a) \<Longrightarrow> unat s = voter_stake e h ds v"
  shows "staked m = (\<Sum>v\<leftarrow>map fst m. voter_stake e h ds v)" and "staked m \<le> all_stake e h ds"
proof -
  have "staked m = hm_total (\<lambda>v _. voter_stake e h ds v) m"
    unfolding staked_def using assms(2) by (intro hm.total_cong [OF ok]) auto
  then show eq: "staked m = (\<Sum>v\<leftarrow>map fst m. voter_stake e h ds v)"
    by (simp add: hm_total_def case_prod_unfold comp_def)
  show "staked m \<le> all_stake e h ds"
    unfolding eq voter_stake_def all_stake_def using ok by (intro voters_total) (simp add: hm_ok_def)
qed

lemma tracks_staked:
  assumes "tracks vcs e h ds va"
  shows "staked (va_accounts va) \<le> all_stake e h ds"
  using assms by (intro staked_voters) (auto simp: tracks_def va_ok_def)

text \<open>Taking one delegation out, and putting one in.\<close>

lemma voter_stake_insert:
  "map_of ds k = None \<Longrightarrow> voter_stake e h (hm_insert k d ds) v
     = voter_stake e h ds v + (if voter_pubkey d = v then unat (delegation_stake d e (Some h)) else 0)"
  by (simp add: voter_stake_def hm_total_insert_new)

lemma voter_stake_remove:
  "hm_ok ds \<Longrightarrow> map_of ds k = Some d \<Longrightarrow> voter_stake e h ds v
     = voter_stake e h (hm_remove k ds) v + (if voter_pubkey d = v then unat (delegation_stake d e (Some h)) else 0)"
  using hm.total_remove [of ds k d] by (simp add: voter_stake_def)

lemma tracks_totals:
  assumes "tracks vcs e h ds va" and "hm_ok ds'" and "\<And>v. voter_stake e h ds' v = voter_stake e h ds v"
  shows "tracks vcs e h ds' va"
  using assms by (simp add: tracks_def)

lemma tracks_remove:
  assumes t: "tracks vcs e h ds va" and d: "map_of ds k = Some d"
  obtains va' where "sub_stake vcs (voter_pubkey d) (delegation_stake d e (Some h)) va = Inr va'"
    and "tracks vcs e h (hm_remove k ds) va'"
proof -
  let ?s = "delegation_stake d e (Some h)"
  have ok: "hm_ok ds" and va: "va_ok vcs va"
    and look: "map_of (va_accounts va) v = Some (s, a) \<Longrightarrow> unat s = voter_stake e h ds v" for v s a
    using t by (simp_all add: tracks_def)
  note vs = voter_stake_remove [OF ok d, of e h]
  have le: "?s \<le> s" if "map_of (va_accounts va) (voter_pubkey d) = Some (s, a)" for s a
    using look [OF that] vs [of "voter_pubkey d"] by (simp add: word_le_nat_alt)
  obtain va' where va': "sub_stake vcs (voter_pubkey d) ?s va = Inr va'" "va_ok vcs va'"
    "va_accounts va' = (case map_of (va_accounts va) (voter_pubkey d) of
      Some (s, a) \<Rightarrow> hm_insert (voter_pubkey d) (s - ?s, a) (va_accounts va) | None \<Rightarrow> va_accounts va)"
    by (rule sub_stake_ok [OF va le])
  have "unat s = voter_stake e h (hm_remove k ds) v" if "map_of (va_accounts va') v = Some (s, a)" for v s a
    using that va'(3) look vs le
    by (auto simp: hm.lookup_insert unat_sub_no_wrap word_le_nat_alt split: option.splits if_splits)
  with va' ok that show ?thesis by (simp add: tracks_def hm.invar_remove)
qed

lemma tracks_insert:
  assumes t: "tracks vcs e h ds va" and new: "map_of ds k = None"
    and fits: "all_stake e h ds + unat (delegation_stake d e (Some h)) < 2 ^ 64"
  shows "tracks vcs e h (hm_insert k d ds) (add_stake vcs (voter_pubkey d) (delegation_stake d e (Some h)) va)"
proof -
  let ?s = "delegation_stake d e (Some h)" and ?v = "voter_pubkey d"
  have ok: "hm_ok ds" and va: "va_ok vcs va"
    and look: "map_of (va_accounts va) v = Some (s, a) \<Longrightarrow> unat s = voter_stake e h ds v" for v s a
    using t by (simp_all add: tracks_def)
  have "staked (va_accounts va) + unat ?s < 2 ^ 64" using tracks_staked [OF t] fits by linarith
  note add = add_stake_ok [OF va this, of ?v]
  have "unat (s + ?s) = unat s + unat ?s" if "map_of (va_accounts va) ?v = Some (s, a)" for s a
    using look [OF that] voter_stake_le [OF ok, of e h ?v] fits by (intro unat_add_no_wrap) simp
  then have "unat s = voter_stake e h (hm_insert k d ds) v"
    if "map_of (va_accounts (add_stake vcs ?v ?s va)) v = Some (s, a)" for v s a
    using that add(2) look voter_stake_insert [OF new, of e h d v]
    by (auto simp: hm.lookup_insert split: option.splits if_splits)
  with add(1) ok show ?thesis by (simp add: tracks_def hm.invar_insert)
qed

lemma all_stake_insert:
  "map_of ds k = None \<Longrightarrow> all_stake e h (hm_insert k d ds) = all_stake e h ds + unat (delegation_stake d e (Some h))"
  by (simp add: all_stake_def hm_total_insert_new)

text \<open>What a store does to the delegations.\<close>

definition replaced :: "pubkey \<Rightarrow> delegation option \<Rightarrow> (pubkey, delegation) hash_map \<Rightarrow> (pubkey, delegation) hash_map" where
  "replaced k new ds = (case new of Some d \<Rightarrow> hm_insert k d ds | None \<Rightarrow> hm_remove k ds)"

text \<open>The vote accounts a store leaves, as a function of the delegation before and after.\<close>

definition moved ::
  "vote_codecs \<Rightarrow> u64 \<Rightarrow> stake_history \<Rightarrow> delegation option \<Rightarrow> delegation option \<Rightarrow> vote_accounts \<Rightarrow> vote_accounts ix_result"
where
  "moved vcs e h old new va =
     bind_r (case old of Some d \<Rightarrow> sub_stake vcs (voter_pubkey d) (delegation_stake d e (Some h)) va | None \<Rightarrow> Inr va) (\<lambda>va1.
       Inr (case new of Some d \<Rightarrow> add_stake vcs (voter_pubkey d) (delegation_stake d e (Some h)) va1 | None \<Rightarrow> va1))"

lemma tracks_moved:
  assumes t: "tracks vcs e h ds va" and fits: "all_delegated (replaced k new ds) < 2 ^ 64"
  obtains va' where "moved vcs e h (map_of ds k) new va = Inr va'" and "tracks vcs e h (replaced k new ds) va'"
proof -
  have ok: "hm_ok ds" using t by (simp add: tracks_def)
  define ds1 where "ds1 = hm_remove k ds"
  have ds1: "hm_ok ds1" "map_of ds1 k = None" by (simp_all add: ds1_def ok hm.invar_remove hm.lookup_remove)
  obtain va1 where va1: "(case map_of ds k of Some d \<Rightarrow> sub_stake vcs (voter_pubkey d) (delegation_stake d e (Some h)) va
      | None \<Rightarrow> Inr va) = Inr va1" "tracks vcs e h ds1 va1"
  proof (cases "map_of ds k")
    case None
    then have "ds1 = ds" by (simp add: ds1_def hm_remove_notin map_of_eq_None_iff)
    with None t that show ?thesis by simp
  next
    case (Some d)
    then show ?thesis using that unfolding ds1_def by (auto intro: tracks_remove [OF t Some])
  qed
  show ?thesis
  proof (cases new)
    case None
    with va1 that show ?thesis by (simp add: moved_def replaced_def ds1_def)
  next
    case (Some d)
    have same: "hm_total f (hm_insert k d ds) = hm_total f (hm_insert k d ds1)" for f
      unfolding ds1_def by (rule hm.total_replace [OF ok])
    have "all_stake e h (hm_insert k d ds1) \<le> all_delegated (hm_insert k d ds1)"
      by (rule all_stake_le) (simp add: ds1 hm.invar_insert)
    with fits Some have "all_stake e h ds1 + unat (delegation_stake d e (Some h)) < 2 ^ 64"
      by (simp add: all_stake_insert ds1(2) replaced_def all_delegated_def same)
    note ins = tracks_insert [OF va1(2) ds1(2) this]
    have "tracks vcs e h (hm_insert k d ds) (add_stake vcs (voter_pubkey d) (delegation_stake d e (Some h)) va1)"
      by (rule tracks_totals [OF ins]) (simp_all add: ok hm.invar_insert voter_stake_def same)
    with Some va1(1) that show ?thesis by (simp add: moved_def replaced_def)
  qed
qed

lemma tracks_unmoved:
  assumes t: "tracks vcs e h ds va"
    and eq: "map_option (\<lambda>d. (voter_pubkey d, delegation_stake d e (Some h))) new
      = map_option (\<lambda>d. (voter_pubkey d, delegation_stake d e (Some h))) (map_of ds k)"
  shows "tracks vcs e h (replaced k new ds) va"
proof -
  have ok: "hm_ok ds" using t by (simp add: tracks_def)
  have "voter_stake e h (replaced k new ds) v = voter_stake e h ds v" for v
  proof (cases new)
    case None
    with eq have "map_of ds k = None" by simp
    with None show ?thesis by (simp add: replaced_def hm_remove_notin map_of_eq_None_iff)
  next
    case (Some d)
    with eq obtain d0 where "map_of ds k = Some d0" "voter_pubkey d0 = voter_pubkey d"
      "delegation_stake d0 e (Some h) = delegation_stake d e (Some h)"
      by (cases "map_of ds k") auto
    with Some hm.total_update [OF ok, of "\<lambda>_ d. if voter_pubkey d = v then unat (delegation_stake d e (Some h)) else 0" k d]
    show ?thesis by (cases "voter_pubkey d = v") (simp_all add: replaced_def voter_stake_def)
  qed
  moreover have "hm_ok (replaced k new ds)"
    using ok by (simp add: replaced_def hm.invar_insert hm.invar_remove split: option.split)
  ultimately show ?thesis by (intro tracks_totals [OF t])
qed

lemma update_stake_delegation_ok:
  assumes ok: "stakes_ok vcs st" and fits: "all_delegated (replaced k new (st_stake_delegations st)) < 2 ^ 64"
  obtains st' where
    "update_stake_delegation vcs k (map_option (\<lambda>d. (delegation_stake d (st_epoch st) (Some (st_history st)), d)) new)
       (new = None) st = Inr st'"
    and "stakes_ok vcs st'" and "st_stake_delegations st' = replaced k new (st_stake_delegations st)"
proof -
  let ?e = "st_epoch st" and ?h = "st_history st" and ?ds = "st_stake_delegations st" and ?va = "st_vote_accounts st"
  let ?key = "map_option (\<lambda>d. (voter_pubkey d, delegation_stake d ?e (Some ?h)))"
  have t: "tracks vcs ?e ?h ?ds ?va" using ok by (simp add: stakes_ok_def)
  have new_key: "map_option (\<lambda>(stake, d). (voter_pubkey d, stake)) (map_option (\<lambda>d. (delegation_stake d ?e (Some ?h), d)) new) = ?key new"
    by (cases new) simp_all
  have ds': "(if new = None then hm_remove k ?ds else case map_option (\<lambda>d. (delegation_stake d ?e (Some ?h), d)) new of
      Some (_, d) \<Rightarrow> hm_insert k d ?ds | None \<Rightarrow> ?ds) = replaced k new ?ds"
    by (cases new) (simp_all add: replaced_def)
  have mv: "bind_r (case ?key (map_of ?ds k) of Some (v, stake) \<Rightarrow> sub_stake vcs v stake ?va | None \<Rightarrow> Inr ?va) (\<lambda>va.
      Inr (case ?key new of Some (v, stake) \<Rightarrow> add_stake vcs v stake va | None \<Rightarrow> va)) = moved vcs ?e ?h (map_of ?ds k) new ?va"
    by (cases "map_of ?ds k"; cases new) (simp_all add: moved_def)
  obtain va' where "(if ?key new \<noteq> ?key (map_of ?ds k) then moved vcs ?e ?h (map_of ?ds k) new ?va else Inr ?va) = Inr va'"
    and "tracks vcs ?e ?h (replaced k new ?ds) va'"
  proof (cases "?key new = ?key (map_of ?ds k)")
    case True
    with that tracks_unmoved [OF t True] show ?thesis by simp
  next
    case False
    obtain va' where "moved vcs ?e ?h (map_of ?ds k) new ?va = Inr va'" "tracks vcs ?e ?h (replaced k new ?ds) va'"
      by (rule tracks_moved [OF t fits])
    with that False show ?thesis by simp
  qed
  moreover have "update_stake_delegation vcs k (map_option (\<lambda>d. (delegation_stake d ?e (Some ?h), d)) new) (new = None) st
      = bind_r (if ?key new \<noteq> ?key (map_of ?ds k) then moved vcs ?e ?h (map_of ?ds k) new ?va else Inr ?va)
          (\<lambda>va. Inr (st\<lparr>st_vote_accounts := va, st_stake_delegations := replaced k new ?ds\<rparr>))"
    unfolding update_stake_delegation_def Let_def new_key ds' mv by (rule refl)
  ultimately show ?thesis
    using fits by (intro that [of "st\<lparr>st_vote_accounts := va', st_stake_delegations := replaced k new ?ds\<rparr>"])
      (simp_all add: stakes_ok_def)
qed

text \<open>The other operations on the cache.\<close>

lemma sum_list_words: "sum_list (map f xs) = (of_nat (\<Sum>x\<leftarrow>xs. unat (f x)) :: u64)"
  by (induction xs) simp_all

lemma calculate_stake_exact:
  assumes "hm_ok (st_stake_delegations st)" and "all_delegated (st_stake_delegations st) < 2 ^ 64"
  shows "unat (calculate_stake v e h st) = voter_stake e h (st_stake_delegations st) v"
proof -
  let ?ds = "st_stake_delegations st"
  have "(\<Sum>(k, d)\<leftarrow>filter (\<lambda>(_, d). voter_pubkey d = v) ds. unat (delegation_stake d e (Some h))) = voter_stake e h ds v" for ds
    by (induction ds) (auto simp: voter_stake_def)
  then have "calculate_stake v e h st = of_nat (voter_stake e h ?ds v)"
    by (simp add: calculate_stake_def sum_list_words case_prod_unfold)
  moreover have "voter_stake e h ?ds v < 2 ^ 64"
    using voter_stake_le [OF assms(1)] all_stake_le [OF assms(1)] assms(2) by (meson le_less_trans)
  ultimately show ?thesis by (simp add: unat_of_nat_fits)
qed

lemma remove_vote_account_ok:
  assumes ok: "stakes_ok vcs st"
  obtains st' where "remove_vote_account vcs v st = Inr st'" and "stakes_ok vcs st'"
    and "st_stake_delegations st' = st_stake_delegations st"
proof -
  have "va_ok vcs (st_vote_accounts st)" using ok by (simp add: stakes_ok_def tracks_def)
  then obtain va where va: "vote_accounts_remove vcs v (st_vote_accounts st) = Inr (map_of (va_accounts (st_vote_accounts st)) v, va)"
    "va_ok vcs va" "va_accounts va = hm_remove v (va_accounts (st_vote_accounts st))"
    by (rule vote_accounts_remove_ok)
  with ok have "stakes_ok vcs (st\<lparr>st_vote_accounts := va\<rparr>)"
    by (auto simp: stakes_ok_def tracks_def hm.lookup_remove split: if_splits)
  with va that show ?thesis by (simp add: remove_vote_account_def)
qed

lemma remove_stake_delegation_ok:
  assumes ok: "stakes_ok vcs st"
  obtains st' where "remove_stake_delegation vcs k st = Inr st'" and "stakes_ok vcs st'"
    and "st_stake_delegations st' = hm_remove k (st_stake_delegations st)"
proof (cases "map_of (st_stake_delegations st) k")
  case None
  with ok that show ?thesis by (simp add: remove_stake_delegation_def hm_remove_notin map_of_eq_None_iff)
next
  case (Some d)
  let ?ds = "st_stake_delegations st"
  have t: "tracks vcs (st_epoch st) (st_history st) ?ds (st_vote_accounts st)" using ok by (simp add: stakes_ok_def)
  obtain va where va: "sub_stake vcs (voter_pubkey d) (delegation_stake d (st_epoch st) (Some (st_history st))) (st_vote_accounts st) = Inr va"
    "tracks vcs (st_epoch st) (st_history st) (hm_remove k ?ds) va"
    by (rule tracks_remove [OF t Some])
  have "all_delegated (hm_remove k ?ds) < 2 ^ 64"
    using ok hm.total_remove [of ?ds k d] Some by (simp add: stakes_ok_def tracks_def all_delegated_def)
  with va Some show ?thesis
    by (intro that [of "st\<lparr>st_stake_delegations := hm_remove k ?ds, st_vote_accounts := va\<rparr>"])
      (simp_all add: remove_stake_delegation_def stakes_ok_def)
qed

lemma update_vote_account_ok:
  assumes ok: "stakes_ok vcs st"
  obtains st' where "update_vote_account vcs v new st = Inr st'" and "stakes_ok vcs st'"
    and "st_stake_delegations st' = st_stake_delegations st"
proof -
  let ?e = "st_epoch st" and ?h = "st_history st" and ?ds = "st_stake_delegations st" and ?va = "st_vote_accounts st"
  have t: "tracks vcs ?e ?h ?ds ?va" and fits: "all_delegated ?ds < 2 ^ 64" and hok: "hm_ok ?ds"
    using ok by (simp_all add: stakes_ok_def tracks_def)
  have "va_ok vcs ?va" using t by (simp add: tracks_def)
  then obtain va where va: "vote_accounts_remove vcs v ?va = Inr (map_of (va_accounts ?va) v, va)"
    "va_ok vcs va" "va_accounts va = hm_remove v (va_accounts ?va)"
    by (rule vote_accounts_remove_ok)
  then have t1: "tracks vcs ?e ?h ?ds va" using t by (auto simp: tracks_def hm.lookup_remove split: if_splits)
  show ?thesis
  proof (cases new)
    case None
    with va t1 fits show ?thesis
      by (intro that [of "st\<lparr>st_vote_accounts := va\<rparr>"]) (simp_all add: update_vote_account_def stakes_ok_def)
  next
    case (Some a)
    define s where "s = (case map_of (va_accounts ?va) v of None \<Rightarrow> calculate_stake v ?e ?h st | Some (old, _) \<Rightarrow> old)"
    have s: "unat s = voter_stake ?e ?h ?ds v"
      using t calculate_stake_exact [OF hok fits] by (auto simp: s_def tracks_def split: option.split)
    have absent: "map_of (va_accounts va) v = None" by (simp add: va(3) hm.lookup_remove)
    have "staked (va_accounts va) + unat s < 2 ^ 64"
    proof -
      let ?w = "\<lambda>v. voter_stake ?e ?h ?ds v"
      have dist: "distinct (v # map fst (va_accounts va))"
        using va(2) absent by (simp add: va_ok_def hm_ok_def map_of_eq_None_iff)
      have "staked (va_accounts va) + unat s = (\<Sum>v\<leftarrow>v # map fst (va_accounts va). ?w v)"
        using staked_voters(1) [of "va_accounts va" ?e ?h ?ds] t1 by (simp add: tracks_def va_ok_def s)
      also have "\<dots> \<le> all_stake ?e ?h ?ds"
        unfolding voter_stake_def all_stake_def using dist by (rule voters_total)
      finally show ?thesis using all_stake_le [OF hok] fits by (meson le_less_trans)
    qed
    then obtain va' where va': "vote_accounts_insert vcs v (s, a) va = Inr va'" "va_ok vcs va'"
      "va_accounts va' = hm_insert v (s, a) (va_accounts va)"
      by (rule vote_accounts_insert_ok [OF va(2) absent])
    then have "stakes_ok vcs (st\<lparr>st_vote_accounts := va'\<rparr>)"
      using t1 fits s by (auto simp: stakes_ok_def tracks_def hm.lookup_insert split: if_splits)
    with va va' Some show ?thesis
      by (intro that [of "st\<lparr>st_vote_accounts := va'\<rparr>"]) (simp_all add: update_vote_account_def s_def Let_def)
  qed
qed

lemma map_of_vote_delegations:
  "map_of (vote_delegations ds) v =
     (let own = map snd (filter (\<lambda>(_, d). voter_pubkey d = v) ds) in if own = [] then None else Some own)"
proof (induction ds rule: rev_induct)
  case (snoc e ds)
  obtain k d where e: "e = (k, d)" by (cases e)
  have "vote_delegations (ds @ [e]) = hm_insert (voter_pubkey d)
      (unwrap_or (map_of (vote_delegations ds) (voter_pubkey d)) [] @ [d]) (vote_delegations ds)"
    by (simp add: vote_delegations_def e)
  with snoc show ?case by (auto simp: e hm.lookup_insert Let_def)
qed (simp add: vote_delegations_def)

lemma map_of_map_entry: "map_of (map (\<lambda>(k, x). (k, f k x)) m) k = map_option (f k) (map_of m k)"
  by (induction m) auto

lemma activate_epoch_ok:
  assumes ok: "stakes_ok vcs st"
  shows "stakes_ok vcs (stakes_activate_epoch e st)"
    and "st_stake_delegations (stakes_activate_epoch e st) = st_stake_delegations st"
proof -
  let ?st = "stakes_activate_epoch e st" and ?ds = "st_stake_delegations st"
  let ?m = "va_accounts (st_vote_accounts st)"
  define h where "h = stake_history_add (st_epoch st) (sum_status (map (\<lambda>(_, ds). sum_status
    (map (\<lambda>d. stake_activating_and_deactivating d (st_epoch st) (Some (st_history st))) ds)) (vote_delegations ?ds))) (st_history st)"
  have hok: "hm_ok ?ds" "hm_ok ?m" and fits: "all_delegated ?ds < 2 ^ 64"
    using ok by (simp_all add: stakes_ok_def tracks_def va_ok_def)
  define g where "g v = (case map_of (vote_delegations ?ds) v of
      Some ds \<Rightarrow> sum_list (map (\<lambda>d. delegation_stake d e (Some h)) ds) | None \<Rightarrow> 0)" for v
  have "g v = of_nat (voter_stake e h ?ds v)" for v
  proof -
    have "(\<Sum>d\<leftarrow>map snd (filter (\<lambda>(_, d). voter_pubkey d = v) ds). unat (delegation_stake d e (Some h)))
        = voter_stake e h ds v" for ds
      by (induction ds) (auto simp: voter_stake_def)
    from this [of ?ds] show ?thesis
      by (auto simp: g_def map_of_vote_delegations Let_def sum_list_words comp_def split: if_splits)
  qed
  moreover have "voter_stake e h ?ds v < 2 ^ 64" for v
    using voter_stake_le [OF hok(1)] all_stake_le [OF hok(1)] fits by (meson le_less_trans)
  ultimately have g: "unat (g v) = voter_stake e h ?ds v" for v by (simp add: unat_of_nat_fits)
  have st: "st_vote_accounts ?st = vote_accounts_from (map (\<lambda>(v, x). (v, g v, snd x)) ?m)"
    "st_epoch ?st = e" "st_stake_delegations ?st = ?ds" "st_history ?st = h"
    unfolding stakes_activate_epoch_def Let_def h_def [symmetric] by (simp_all add: g_def case_prod_unfold)
  let ?m' = "map (\<lambda>(v, x). (v, g v, snd x)) ?m"
  have "hm_ok ?m'" using hok(2) by (simp add: hm_ok_def case_prod_unfold comp_def)
  moreover have each: "unat s = voter_stake e h ?ds v" if "map_of ?m' v = Some (s, a)" for v s a
    using that map_of_map_entry [of "\<lambda>v x. (g v, snd x)" ?m v] by (auto simp: g)
  ultimately have "va_ok vcs (vote_accounts_from ?m')"
    using staked_voters(2) [of ?m' e h ?ds] all_stake_le [OF hok(1), of e h] fits
    by (simp add: va_ok_def vote_accounts_from_def)
  with each hok fits show "stakes_ok vcs ?st"
    by (simp add: stakes_ok_def tracks_def st vote_accounts_from_def)
  show "st_stake_delegations ?st = ?ds" by (rule st)
qed

section \<open>Every reachable cache\<close>

text \<open>
  What happens to a cache: an account is stored (with the feature that removes inactive delegations), an
  epoch begins, somebody asks for the stakes of the nodes, invalid entries are evicted.
\<close>

datatype cache_event =
    Stored pubkey account
  | EpochBegins u64
  | NodesAsked
  | Evicted "pubkey list" "pubkey list"

fun cache_step :: "vote_codecs \<Rightarrow> stake_codecs \<Rightarrow> cache_event \<Rightarrow> stakes \<Rightarrow> stakes ix_result" where
  "cache_step vcs cs (Stored k a) st = check_and_store vcs cs True k a st"
| "cache_step vcs cs (EpochBegins e) st = Inr (stakes_activate_epoch e st)"
| "cache_step vcs cs NodesAsked st = Inr (st\<lparr>st_vote_accounts := snd (staked_nodes vcs (st_vote_accounts st))\<rparr>)"
| "cache_step vcs cs (Evicted ks vs) st = handle_invalid_keys vcs ks vs True st"

text \<open>An account without lamports delegates nothing: the stake program clears an account it empties.\<close>

fun admissible :: "stake_codecs \<Rightarrow> cache_event \<Rightarrow> bool" where
  "admissible cs (Stored k a) \<longleftrightarrow> (owner a = stake_program_id \<and> lamports a = 0 \<longrightarrow> delegation_from cs a = None)"
| "admissible cs _ \<longleftrightarrow> True"

fun delegations_after :: "stake_codecs \<Rightarrow> cache_event \<Rightarrow> (pubkey, delegation) hash_map \<Rightarrow> (pubkey, delegation) hash_map" where
  "delegations_after cs (Stored k a) ds = (if owner a = stake_program_id then replaced k (delegation_from cs a) ds else ds)"
| "delegations_after cs (Evicted ks vs) ds = fold hm_remove ks ds"
| "delegations_after cs _ ds = ds"

definition fits :: "stake_codecs \<Rightarrow> cache_event \<Rightarrow> stakes \<Rightarrow> bool" where
  "fits cs ev st \<longleftrightarrow> all_delegated (delegations_after cs ev (st_stake_delegations st)) < 2 ^ 64"

inductive cache_reachable :: "vote_codecs \<Rightarrow> stake_codecs \<Rightarrow> stakes \<Rightarrow> bool" for vcs cs where
  start: "cache_reachable vcs cs stakes_default"
| step: "cache_reachable vcs cs st \<Longrightarrow> admissible cs ev \<Longrightarrow> fits cs ev st \<Longrightarrow> cache_step vcs cs ev st = Inr st' \<Longrightarrow>
     cache_reachable vcs cs st'"

lemma evict_stakes_ok:
  assumes "stakes_ok vcs st"
  shows "\<exists>st'. run_r (remove_stake_delegation vcs) ks st = Inr st' \<and> stakes_ok vcs st'
    \<and> st_stake_delegations st' = fold hm_remove ks (st_stake_delegations st)"
  using assms
proof (induction ks arbitrary: st)
  case (Cons k ks)
  from Cons.prems obtain st1 where "remove_stake_delegation vcs k st = Inr st1" "stakes_ok vcs st1"
    "st_stake_delegations st1 = hm_remove k (st_stake_delegations st)" by (rule remove_stake_delegation_ok)
  with Cons.IH [of st1] show ?case by simp
qed simp

lemma evict_votes_ok:
  assumes "stakes_ok vcs st"
  shows "\<exists>st'. run_r (remove_vote_account vcs) vs st = Inr st' \<and> stakes_ok vcs st'
    \<and> st_stake_delegations st' = st_stake_delegations st"
  using assms
proof (induction vs arbitrary: st)
  case (Cons v vs)
  from Cons.prems obtain st1 where "remove_vote_account vcs v st = Inr st1" "stakes_ok vcs st1"
    "st_stake_delegations st1 = st_stake_delegations st" by (rule remove_vote_account_ok)
  with Cons.IH [of st1] show ?case by simp
qed simp

lemma distinct_programs: "vote_program_id \<noteq> stake_program_id"
  by (simp add: stake_program_id_numeral vote_program_id_numeral)

lemma stored_ok:
  assumes ok: "stakes_ok vcs st" and adm: "admissible cs (Stored k a)" and fit: "fits cs (Stored k a) st"
  obtains st' where "check_and_store vcs cs True k a st = Inr st'" and "stakes_ok vcs st'"
    and "st_stake_delegations st' = delegations_after cs (Stored k a) (st_stake_delegations st)"
proof (cases "owner a = vote_program_id")
  case True
  obtain st' where "update_vote_account vcs k (if lamports a \<noteq> 0 \<and> is_correct_size_and_initialized vcs (data a)
      then Some a else None) st = Inr st'" "stakes_ok vcs st'" "st_stake_delegations st' = st_stake_delegations st"
    by (rule update_vote_account_ok [OF ok])
  with True that show ?thesis by (simp add: check_and_store_def distinct_programs)
next
  case nv: False
  show ?thesis
  proof (cases "owner a = stake_program_id")
    case True
    have "(lamports a \<noteq> 0 \<or> delegation_from cs a = None)" using adm True by auto
    then have new: "map_option (\<lambda>d. (if lamports a \<noteq> 0 then delegation_stake d (st_epoch st) (Some (st_history st)) else 0, d)) (delegation_from cs a)
        = map_option (\<lambda>d. (delegation_stake d (st_epoch st) (Some (st_history st)), d)) (delegation_from cs a)"
      by (cases "delegation_from cs a") auto
    have "all_delegated (replaced k (delegation_from cs a) (st_stake_delegations st)) < 2 ^ 64"
      using fit True by (simp add: fits_def)
    then obtain st' where "update_stake_delegation vcs k (map_option (\<lambda>d. (delegation_stake d (st_epoch st) (Some (st_history st)), d))
        (delegation_from cs a)) (delegation_from cs a = None) st = Inr st'" "stakes_ok vcs st'"
        "st_stake_delegations st' = replaced k (delegation_from cs a) (st_stake_delegations st)"
      by (rule update_stake_delegation_ok [OF ok])
    with nv True that show ?thesis unfolding check_and_store_def new by simp
  qed (use nv ok that in \<open>simp add: check_and_store_def\<close>)
qed

lemma cache_step_ok:
  assumes ok: "stakes_ok vcs st" and adm: "admissible cs ev" and fit: "fits cs ev st"
  obtains st' where "cache_step vcs cs ev st = Inr st'" and "stakes_ok vcs st'"
proof (cases ev)
  case (Stored k a)
  with assms that show ?thesis by (auto intro: stored_ok)
next
  case (EpochBegins e)
  with activate_epoch_ok(1) [OF ok] that show ?thesis by simp
next
  case NodesAsked
  obtain nodes va where n: "staked_nodes vcs (st_vote_accounts st) = (nodes, va)"
    by (cases "staked_nodes vcs (st_vote_accounts st)")
  have "va_ok vcs (st_vote_accounts st)" using ok by (simp add: stakes_ok_def tracks_def)
  from staked_nodes_ok [OF this n] ok have "stakes_ok vcs (st\<lparr>st_vote_accounts := va\<rparr>)"
    by (simp add: stakes_ok_def tracks_def)
  with NodesAsked n that show ?thesis by simp
next
  case (Evicted ks vs)
  with evict_stakes_ok [OF ok, of ks] evict_votes_ok that show ?thesis by (fastforce simp: handle_invalid_keys_def)
qed

lemma cache_reachable_ok: "cache_reachable vcs cs st \<Longrightarrow> stakes_ok vcs st"
proof (induction rule: cache_reachable.induct)
  case start
  show ?case
    by (simp add: stakes_ok_def tracks_def stakes_default_def vote_accounts_default_def va_ok_def
        staked_def all_delegated_def)
next
  case (step st ev st')
  from step.IH step.hyps(2,3) obtain st1 where "cache_step vcs cs ev st = Inr st1" "stakes_ok vcs st1"
    by (rule cache_step_ok)
  with step.hyps(4) show ?case by simp
qed

end
