(* ===== verification/Stake_Program.thy ===== *)
theory Stake_Program
  imports Stake_Account
begin

text \<open>
  \<open>process_instruction\<close> of the stake program (\<open>programs/stake/src/stake_instruction.rs\<close>), with the
  configuration account it reads (\<open>programs/stake/src/config.rs\<close>, \<open>programs/config/src/lib.rs\<close>).
\<close>

record lockup_checked_args =
  checked_unix_timestamp :: "int option"
  checked_epoch :: "u64 option"

record authorize_with_seed_args =
  new_authorized_pubkey :: pubkey
  seed_stake_authorize :: stake_authorize
  authority_seed :: string
  authority_owner :: pubkey

record authorize_checked_with_seed_args =
  checked_stake_authorize :: stake_authorize
  checked_authority_seed :: string
  checked_authority_owner :: pubkey

datatype stake_instruction =
    Initialize authorized lockup
  | Authorize pubkey stake_authorize
  | DelegateStake
  | Split u64
  | Withdraw u64
  | Deactivate
  | SetLockup lockup_args
  | Merge
  | AuthorizeWithSeed authorize_with_seed_args
  | InitializeChecked
  | AuthorizeChecked stake_authorize
  | AuthorizeCheckedWithSeed authorize_checked_with_seed_args
  | SetLockupChecked lockup_checked_args

text \<open>The stake configuration: behind the keys at the front of the configuration account.\<close>

definition get_config_data :: "stake_codecs \<Rightarrow> u8 list \<Rightarrow> u8 list option ix_result" where
  "get_config_data cs bytes =
     (case deserialize (config_keys_codec cs) bytes of
        None \<Rightarrow> Inr None
      | Some ks \<Rightarrow>
          (let offset = length (serialize (config_keys_codec cs) ks) in
           if offset \<le> length bytes then Inr (Some (drop offset bytes)) else Inl Panicked))"

definition stake_config_from :: "stake_codecs \<Rightarrow> account \<Rightarrow> stake_config option ix_result" where
  "stake_config_from cs a =
     bind_r (get_config_data cs (data a)) (\<lambda>bytes. Inr (Option.bind bytes (deserialize (config_codec cs))))"

definition stake_config_from_keyed_account :: "stake_codecs \<Rightarrow> store \<Rightarrow> keyed_account \<Rightarrow> stake_config ix_result" where
  "stake_config_from_keyed_account cs s ka =
     bind_r (guard_r (key ka = stake_config_id) InvalidArgument) (\<lambda>_.
     bind_r (stake_config_from cs (s (key ka))) (\<lambda>c. ok_or c InvalidArgument))"

definition clock_default :: clock where
  "clock_default = \<lparr>clock_slot = 0, clock_epoch_start_timestamp = 0, clock_epoch = 0,
     clock_leader_schedule_epoch = 0, clock_unix_timestamp = 0\<rparr>"

text \<open>Reading the account at a position as the clock, the rent or the stake history.\<close>

definition clock_at :: "stake_codecs \<Rightarrow> invoke_context \<Rightarrow> nat \<Rightarrow> store \<Rightarrow> clock ix_result" where
  "clock_at cs ic i s =
     bind_r (keyed_account_at_index (keyed_accounts ic) i) (from_keyed_account clock_id (stake_clock_codec cs) s)"

definition rent_at :: "stake_codecs \<Rightarrow> invoke_context \<Rightarrow> nat \<Rightarrow> store \<Rightarrow> rent ix_result" where
  "rent_at cs ic i s =
     bind_r (keyed_account_at_index (keyed_accounts ic) i) (from_keyed_account rent_id (stake_rent_codec cs) s)"

definition stake_history_at :: "stake_codecs \<Rightarrow> invoke_context \<Rightarrow> nat \<Rightarrow> store \<Rightarrow> stake_history ix_result" where
  "stake_history_at cs ic i s =
     bind_r (keyed_account_at_index (keyed_accounts ic) i)
       (from_keyed_account stake_history_id (stake_history_codec cs) s)"

text \<open>The key of an optional account.\<close>

definition optional_key :: "invoke_context \<Rightarrow> nat \<Rightarrow> pubkey option" where
  "optional_key ic i = (if i < length (keyed_accounts ic) then Some (key (keyed_accounts ic ! i)) else None)"

fun stake_instruction_step ::
  "stake_codecs \<Rightarrow> invoke_context \<Rightarrow> nat \<Rightarrow> pubkey \<Rightarrow> pubkey set \<Rightarrow> stake_instruction \<Rightarrow> store \<Rightarrow> store ix_result"
where
  "stake_instruction_step cs ic first me signers (Initialize auth l) s =
     bind_r (rent_at cs ic (first + 1) s) (\<lambda>r. stake_account_initialize cs me auth l r s)"
| "stake_instruction_step cs ic first me signers (Authorize new_authority what) s =
     (if is_active ic require_custodian_for_locked_stake_authorize then
        bind_r (clock_at cs ic (first + 1) s) (\<lambda>clk.
        bind_r (keyed_account_at_index (keyed_accounts ic) (first + 2)) (\<lambda>_.
          stake_account_authorize cs me signers new_authority what True clk (optional_key ic (first + 3)) s))
      else stake_account_authorize cs me signers new_authority what False clock_default None s)"
| "stake_instruction_step cs ic first me signers (AuthorizeWithSeed args) s =
     bind_r (keyed_account_at_index (keyed_accounts ic) (first + 1)) (\<lambda>authority_base.
     if is_active ic require_custodian_for_locked_stake_authorize then
       bind_r (clock_at cs ic (first + 2) s) (\<lambda>clk.
         stake_account_authorize_with_seed cs me authority_base (authority_seed args) (authority_owner args)
           (new_authorized_pubkey args) (seed_stake_authorize args) True clk (optional_key ic (first + 3)) s)
     else
       stake_account_authorize_with_seed cs me authority_base (authority_seed args) (authority_owner args)
         (new_authorized_pubkey args) (seed_stake_authorize args) False clock_default None s)"
| "stake_instruction_step cs ic first me signers DelegateStake s =
     bind_r (keyed_account_at_index (keyed_accounts ic) (first + 1)) (\<lambda>vote_ka.
     bind_r (clock_at cs ic (first + 2) s) (\<lambda>clk.
     bind_r (stake_history_at cs ic (first + 3) s) (\<lambda>history.
     bind_r (keyed_account_at_index (keyed_accounts ic) (first + 4)) (\<lambda>config_ka.
     bind_r (stake_config_from_keyed_account cs s config_ka) (\<lambda>config.
       stake_account_delegate cs me (key vote_ka) clk history config signers (is_active ic stake_program_v4) s)))))"
| "stake_instruction_step cs ic first me signers (Split amount) s =
     bind_r (keyed_account_at_index (keyed_accounts ic) (first + 1)) (\<lambda>split_ka.
       stake_account_split cs me amount (key split_ka) signers s)"
| "stake_instruction_step cs ic first me signers Merge s =
     bind_r (keyed_account_at_index (keyed_accounts ic) (first + 1)) (\<lambda>source_ka.
     bind_r (clock_at cs ic (first + 2) s) (\<lambda>clk.
     bind_r (stake_history_at cs ic (first + 3) s) (\<lambda>history.
       stake_account_merge cs ic me (key source_ka) clk history signers (is_active ic stake_program_v4) s)))"
| "stake_instruction_step cs ic first me signers (Withdraw amount) s =
     bind_r (keyed_account_at_index (keyed_accounts ic) (first + 1)) (\<lambda>to_ka.
     bind_r (clock_at cs ic (first + 2) s) (\<lambda>clk.
     bind_r (stake_history_at cs ic (first + 3) s) (\<lambda>history.
     bind_r (keyed_account_at_index (keyed_accounts ic) (first + 4)) (\<lambda>authority.
       stake_account_withdraw cs me amount (key to_ka) clk history authority
         (if first + 5 < length (keyed_accounts ic) then Some (keyed_accounts ic ! (first + 5)) else None)
         (is_active ic stake_program_v4) s))))"
| "stake_instruction_step cs ic first me signers Deactivate s =
     bind_r (clock_at cs ic (first + 1) s) (\<lambda>clk. stake_account_deactivate cs me clk signers s)"
| "stake_instruction_step cs ic first me signers (SetLockup args) s =
     bind_r (if is_active ic stake_program_v4 then bind_r (get_clock ic) (\<lambda>c. Inr (Some c)) else Inr None) (\<lambda>clk.
       stake_account_set_lockup cs me args signers clk s)"
| "stake_instruction_step cs ic first me signers InitializeChecked s =
     (if is_active ic vote_stake_checked_instructions then
        bind_r (keyed_account_at_index (keyed_accounts ic) (first + 2)) (\<lambda>staker_ka.
        bind_r (keyed_account_at_index (keyed_accounts ic) (first + 3)) (\<lambda>withdrawer_ka.
        bind_r (ok_or (signer_key withdrawer_ka) MissingRequiredSignature) (\<lambda>w.
        bind_r (rent_at cs ic (first + 1) s) (\<lambda>r.
          stake_account_initialize cs me \<lparr>staker = key staker_ka, withdrawer = w\<rparr> lockup_default r s))))
      else Inl InvalidInstructionData)"
| "stake_instruction_step cs ic first me signers (AuthorizeChecked what) s =
     (if is_active ic vote_stake_checked_instructions then
        bind_r (clock_at cs ic (first + 1) s) (\<lambda>clk.
        bind_r (keyed_account_at_index (keyed_accounts ic) (first + 2)) (\<lambda>_.
        bind_r (keyed_account_at_index (keyed_accounts ic) (first + 3)) (\<lambda>ka3.
        bind_r (ok_or (signer_key ka3) MissingRequiredSignature) (\<lambda>new_authority.
          stake_account_authorize cs me signers new_authority what True clk (optional_key ic (first + 4)) s))))
      else Inl InvalidInstructionData)"
| "stake_instruction_step cs ic first me signers (AuthorizeCheckedWithSeed args) s =
     (if is_active ic vote_stake_checked_instructions then
        bind_r (keyed_account_at_index (keyed_accounts ic) (first + 1)) (\<lambda>authority_base.
        bind_r (clock_at cs ic (first + 2) s) (\<lambda>clk.
        bind_r (keyed_account_at_index (keyed_accounts ic) (first + 3)) (\<lambda>ka3.
        bind_r (ok_or (signer_key ka3) MissingRequiredSignature) (\<lambda>new_authority.
          stake_account_authorize_with_seed cs me authority_base (checked_authority_seed args)
            (checked_authority_owner args) new_authority (checked_stake_authorize args) True clk
            (optional_key ic (first + 4)) s))))
      else Inl InvalidInstructionData)"
| "stake_instruction_step cs ic first me signers (SetLockupChecked args) s =
     (if is_active ic vote_stake_checked_instructions then
        bind_r
          (if first + 2 < length (keyed_accounts ic) then
             bind_r (ok_or (signer_key (keyed_accounts ic ! (first + 2))) MissingRequiredSignature)
               (\<lambda>c. Inr (Some c))
           else Inr None) (\<lambda>custodian.
        bind_r (get_clock ic) (\<lambda>clk.
          stake_account_set_lockup cs me
            \<lparr>args_unix_timestamp = checked_unix_timestamp args, args_epoch = checked_epoch args,
             args_custodian = custodian\<rparr> signers (Some clk) s))
      else Inl InvalidInstructionData)"

definition stake_process_instruction ::
  "stake_codecs \<Rightarrow> (u8 list \<Rightarrow> stake_instruction option) \<Rightarrow> invoke_context \<Rightarrow> nat \<Rightarrow> u8 list \<Rightarrow> store
     \<Rightarrow> store ix_result" where
  "stake_process_instruction cs decode ic first bytes s =
     bind_r (keyed_account_at_index (keyed_accounts ic) first) (\<lambda>me.
     bind_r (guard_r (owner (s (key me)) = stake_program_id) InvalidAccountOwner) (\<lambda>_.
     bind_r (limited_deserialize decode bytes) (\<lambda>ix.
       stake_instruction_step cs ic first (key me) (get_signers (drop first (keyed_accounts ic))) ix s)))"

end
