(* ===== verification/Stake_Effect.thy ===== *)
theory Stake_Effect
  imports Stake_Program
begin

text \<open>
  What an instruction of the stake program can do to the account store. As for the other programs, an
  inductive relation \<open>stake_effect\<close> says who must have signed for which change, every successful
  instruction is one of its cases, and the frame and conservation of lamports follow from the cases.
\<close>

section \<open>The specification\<close>

fun set_meta :: "meta \<Rightarrow> stake_state \<Rightarrow> stake_state" where
  "set_meta m (Stake _ stk) = Stake m stk"
| "set_meta m (Initialized _) = Initialized m"
| "set_meta m st = st"

text \<open>A key acts when it signed, or is derived from a key that signed.\<close>

definition acts :: "stake_codecs \<Rightarrow> pubkey set \<Rightarrow> pubkey \<Rightarrow> bool" where
  "acts cs signers k \<longleftrightarrow>
     k \<in> signers \<or> (\<exists>base \<in> signers. \<exists>seed own. create_with_seed (stake_hashv cs) base seed own = Inr k)"

text \<open>The states a split writes, and the closing of an account that is emptied.\<close>

definition close_if_emptied :: "stake_codecs \<Rightarrow> pubkey \<Rightarrow> u64 \<Rightarrow> store \<Rightarrow> store \<Rightarrow> bool" where
  "close_if_emptied cs me amount s s' \<longleftrightarrow>
     (if amount = lamports (s me) then store_stake cs Uninitialized me s = Inr s' else s' = s)"

inductive stake_effect ::
  "stake_codecs \<Rightarrow> bool \<Rightarrow> pubkey set \<Rightarrow> pubkey set \<Rightarrow> pubkey \<Rightarrow> store \<Rightarrow> store \<Rightarrow> bool"
  for cs :: stake_codecs and v4 :: bool and keys :: "pubkey set" and signers :: "pubkey set" and me :: pubkey and s :: store
where
  initialized:
    "load_stake cs s me = Inr Uninitialized \<Longrightarrow> length (data (s me)) = STAKE_STATE_SIZE \<Longrightarrow>
     rent_exempt_reserve m < lamports (s me) \<Longrightarrow>
     store_stake cs (Initialized m) me s = Inr s' \<Longrightarrow> stake_effect cs v4 keys signers me s s'"
| staker_changed:
    "load_stake cs s me = Inr st \<Longrightarrow> state_meta st = Some m \<Longrightarrow>
     acts cs signers (staker (meta_authorized m)) \<or> acts cs signers (withdrawer (meta_authorized m)) \<Longrightarrow>
     store_stake cs (set_meta (m\<lparr>meta_authorized := (meta_authorized m)\<lparr>staker := k\<rparr>\<rparr>) st) me s = Inr s' \<Longrightarrow>
     stake_effect cs v4 keys signers me s s'"
| withdrawer_changed:
    "load_stake cs s me = Inr st \<Longrightarrow> state_meta st = Some m \<Longrightarrow> acts cs signers (withdrawer (meta_authorized m)) \<Longrightarrow>
     store_stake cs (set_meta (m\<lparr>meta_authorized := (meta_authorized m)\<lparr>withdrawer := k\<rparr>\<rparr>) st) me s = Inr s' \<Longrightarrow>
     stake_effect cs v4 keys signers me s s'"
| lockup_changed:
    "load_stake cs s me = Inr st \<Longrightarrow> state_meta st = Some m \<Longrightarrow>
     lockup_custodian (meta_lockup m) \<in> signers \<or> withdrawer (meta_authorized m) \<in> signers \<Longrightarrow>
     store_stake cs (set_meta (m\<lparr>meta_lockup := l\<rparr>) st) me s = Inr s' \<Longrightarrow>
     stake_effect cs v4 keys signers me s s'"
| delegated_anew:
    "load_stake cs s me = Inr (Initialized m) \<Longrightarrow> staker (meta_authorized m) \<in> signers \<Longrightarrow>
     owner (s voter) = vote_program_id \<Longrightarrow>
     store_stake cs (Stake m (new_stake (saturating_sub (lamports (s me)) (rent_exempt_reserve m)) voter vs epoch config))
       me s = Inr s' \<Longrightarrow>
     stake_effect cs v4 keys signers me s s'"
| redelegated:
    "load_stake cs s me = Inr (Stake m stk) \<Longrightarrow> staker (meta_authorized m) \<in> signers \<Longrightarrow>
     owner (s voter) = vote_program_id \<Longrightarrow>
     redelegate (saturating_sub (lamports (s me)) (rent_exempt_reserve m)) voter vs clk history config v4 stk
       = Inr stk' \<Longrightarrow>
     store_stake cs (Stake m stk') me s = Inr s' \<Longrightarrow> stake_effect cs v4 keys signers me s s'"
| deactivated:
    "load_stake cs s me = Inr (Stake m stk) \<Longrightarrow> staker (meta_authorized m) \<in> signers \<Longrightarrow>
     stake_deactivate epoch stk = Inr stk' \<Longrightarrow>
     store_stake cs (Stake m stk') me s = Inr s' \<Longrightarrow> stake_effect cs v4 keys signers me s s'"
| split_off:
    "split_key \<in> keys \<Longrightarrow> owner (s split_key) = stake_program_id \<Longrightarrow>
     length (data (s split_key)) = STAKE_STATE_SIZE \<Longrightarrow> load_stake cs s split_key = Inr Uninitialized \<Longrightarrow>
     amount \<le> lamports (s me) \<Longrightarrow> load_stake cs s me = Inr st \<Longrightarrow>
     (case state_meta st of Some m \<Rightarrow> staker (meta_authorized m) \<in> signers | None \<Rightarrow> me \<in> signers) \<Longrightarrow>
     split_states cs me amount split_key signers st s = Inr s1 \<Longrightarrow> close_if_emptied cs me amount s1 s2 \<Longrightarrow>
     credit_then_debit split_key me amount s2 = Inr s' \<Longrightarrow> stake_effect cs v4 keys signers me s s'"
| merged:
    "source \<in> keys \<Longrightarrow> source \<noteq> me \<Longrightarrow> owner (s source) = stake_program_id \<Longrightarrow>
     get_if_mergeable cs me clk history s = Inr kind \<Longrightarrow> get_if_mergeable cs source clk history s = Inr source_kind \<Longrightarrow>
     staker (meta_authorized (merge_meta kind)) \<in> signers \<Longrightarrow>
     meta_authorized (merge_meta source_kind) = meta_authorized (merge_meta kind) \<Longrightarrow>
     merge_kinds ic kind source_kind oclk = Inr result \<Longrightarrow>
     (case result of Some st \<Rightarrow> store_stake cs st me s = Inr s1 | None \<Rightarrow> s1 = s) \<Longrightarrow>
     store_stake cs Uninitialized source s1 = Inr s2 \<Longrightarrow>
     move_lamports source me (lamports (s2 source)) s2 = Inr s' \<Longrightarrow>
     (\<forall>c. oclk = Some c \<longrightarrow> deserialize (stake_clock_codec cs) (data (s clock_id)) = Some c) \<Longrightarrow>
     stake_effect cs v4 keys signers me s s'"
| withdrawn:
    "load_stake cs s me = Inr st \<Longrightarrow> authority \<in> signers \<Longrightarrow>
     deserialize (stake_clock_codec cs) (data (s clock_id)) = Some clk \<Longrightarrow>
     withdraw_limits me clk history {authority} strict st = Inr (l, reserve, is_staked) \<Longrightarrow>
     \<not> is_in_force l clk custodian \<Longrightarrow> (case custodian of Some c \<Rightarrow> c \<in> signers | None \<Rightarrow> True) \<Longrightarrow>
     unat amount + unat reserve \<le> unat (lamports (s me)) \<or> (amount = lamports (s me) \<and> \<not> is_staked) \<Longrightarrow>
     to_key \<in> keys \<Longrightarrow> close_if_emptied cs me amount s s1 \<Longrightarrow>
     move_lamports me to_key amount s1 = Inr s' \<Longrightarrow> stake_effect cs v4 keys signers me s s'"

inductive_cases stake_effectE: "stake_effect cs v4 keys signers me s s'"

section \<open>Every operation is one of the cases\<close>

lemma authorized_check_Inr [result_simps]:
  "authorized_check auth signers what = Inr u \<longleftrightarrow>
     (case what of Staker \<Rightarrow> staker auth \<in> signers | stake_authorize.Withdrawer \<Rightarrow> withdrawer auth \<in> signers)"
  by (simp add: authorized_check_def split: stake_authorize.split)

lemma checked_add_r_Inr [result_simps]:
  "checked_add_r a b = Inr c \<longleftrightarrow> unat a + unat b < 2 ^ 64 \<and> c = a + b"
  by (auto simp: checked_add_r_def result_simps word_ops)

lemma initialize_effect:
  "stake_account_initialize cs me auth l r s = Inr s' \<Longrightarrow> stake_effect cs v4 keys signers me s s'"
  unfolding stake_account_initialize_def
  by (auto simp: Let_def guard_r_Inr elim!: bind_r_InrE split: stake_state.splits if_splits
    intro!: stake_effect.initialized)

lemma stake_authorize_effect:
  assumes "stake_account_authorize cs me signers' k what req clk custodian s = Inr s'"
    and "\<forall>k \<in> signers'. acts cs signers k"
  shows "stake_effect cs v4 keys signers me s s'"
proof -
  let ?args = "\<lambda>m. if req then Some (meta_lockup m, clk, custodian) else None"
  from assms(1) obtain st m auth where st: "load_stake cs s me = Inr st" "state_meta st = Some m"
    and auth: "authorized_authorize signers' k what (?args m) (meta_authorized m) = Inr auth"
    and s': "store_stake cs (set_meta (m\<lparr>meta_authorized := auth\<rparr>) st) me s = Inr s'"
    unfolding stake_account_authorize_def Let_def
    by (auto elim!: bind_r_InrE split: stake_state.splits)
  show ?thesis
  proof (cases what)
    case Staker
    with auth have "acts cs signers (staker (meta_authorized m)) \<or> acts cs signers (withdrawer (meta_authorized m))"
      "auth = (meta_authorized m)\<lparr>staker := k\<rparr>"
      using assms(2) by (auto simp: authorized_authorize_def split: if_splits)
    with st s' show ?thesis by (auto intro: stake_effect.staker_changed)
  next
    case Withdrawer
    with auth have "acts cs signers (withdrawer (meta_authorized m))" "auth = (meta_authorized m)\<lparr>withdrawer := k\<rparr>"
      using assms(2) by (auto simp: authorized_authorize_def result_simps)
    with st s' show ?thesis by (auto intro: stake_effect.withdrawer_changed)
  qed
qed

lemma authorize_with_seed_effect:
  assumes "stake_account_authorize_with_seed cs me base seed own k what req clk custodian s = Inr s'"
    and "is_signer base \<longrightarrow> key base \<in> signers"
  shows "stake_effect cs v4 keys signers me s s'"
proof -
  from assms(1) obtain signers' where "stake_account_authorize cs me signers' k what req clk custodian s = Inr s'"
    and "\<forall>k \<in> signers'. acts cs signers k"
    using assms(2) unfolding stake_account_authorize_with_seed_def signer_key_def
    by (auto simp: result_simps acts_def split: if_splits)
  then show ?thesis by (rule stake_authorize_effect)
qed

lemma set_lockup_effect:
  assumes "stake_account_set_lockup cs me args signers clk s = Inr s'"
  shows "stake_effect cs v4 keys signers me s s'"
proof -
  from assms obtain st m m' where st: "load_stake cs s me = Inr st" "state_meta st = Some m"
    and m': "meta_set_lockup args signers clk m = Inr m'"
    and s': "store_stake cs (set_meta m' st) me s = Inr s'"
    unfolding stake_account_set_lockup_def by (auto elim!: bind_r_InrE split: stake_state.splits)
  from m' have "lockup_custodian (meta_lockup m) \<in> signers \<or> withdrawer (meta_authorized m) \<in> signers"
    "m' = m\<lparr>meta_lockup := apply_lockup_args args (meta_lockup m)\<rparr>"
    unfolding meta_set_lockup_def by (auto simp: result_simps split: option.splits if_splits)
  with st s' show ?thesis by (auto intro: stake_effect.lockup_changed)
qed

lemma delegate_effect:
  assumes "stake_account_delegate cs me voter clk history config signers v4 s = Inr s'"
  shows "stake_effect cs v4 keys signers me s s'"
  using assms unfolding stake_account_delegate_def
  by (auto simp: guard_r_Inr authorized_check_Inr map_err_Inr elim!: bind_r_InrE split: stake_state.splits)
    (rule stake_effect.delegated_anew stake_effect.redelegated, assumption+)+

lemma deactivate_effect:
  assumes "stake_account_deactivate cs me clk signers s = Inr s'"
  shows "stake_effect cs v4 keys signers me s s'"
  using assms unfolding stake_account_deactivate_def
  by (auto simp: authorized_check_Inr map_err_Inr elim!: bind_r_InrE split: stake_state.splits)
    (rule stake_effect.deactivated, assumption+)

lemma split_states_signed:
  "split_states cs me amount split_key signers st s = Inr s1 \<Longrightarrow>
     (case state_meta st of Some m \<Rightarrow> staker (meta_authorized m) \<in> signers | None \<Rightarrow> me \<in> signers)"
  unfolding split_states_def by (auto simp: result_simps split: stake_state.splits)

lemma close_if_emptied_iff:
  "(if amount = lamports (s me) then store_stake cs Uninitialized me s else Inr s) = Inr s'
     \<longleftrightarrow> close_if_emptied cs me amount s s'"
  by (auto simp: close_if_emptied_def)

lemma split_effect:
  assumes "stake_account_split cs me amount split_key signers s = Inr s'" and "split_key \<in> keys"
  shows "stake_effect cs v4 keys signers me s s'"
proof -
  from assms(1) obtain st s1 s2 where o: "owner (s split_key) = stake_program_id"
    and len: "length (data (s split_key)) = STAKE_STATE_SIZE"
    and u: "load_stake cs s split_key = Inr Uninitialized" and le: "amount \<le> lamports (s me)"
    and st: "load_stake cs s me = Inr st" and s1: "split_states cs me amount split_key signers st s = Inr s1"
    and s2: "close_if_emptied cs me amount s1 s2" and s': "credit_then_debit split_key me amount s2 = Inr s'"
    unfolding stake_account_split_def
    by (auto simp: guard_r_Inr close_if_emptied_iff [symmetric] elim!: bind_r_InrE)
  show ?thesis
    by (rule stake_effect.split_off [OF assms(2) o len u le st split_states_signed [OF s1] s1 s2 s'])
qed

lemma metas_can_merge_authorized:
  "merge_kinds ic kind source_kind oclk = Inr result \<Longrightarrow>
     meta_authorized (merge_meta source_kind) = meta_authorized (merge_meta kind)"
  unfolding merge_kinds_def metas_can_merge_def Let_def by (auto elim!: bind_r_InrE split: if_splits)

lemma merge_effect:
  assumes "stake_account_merge cs ic me source clk history signers expired s = Inr s'" and "source \<in> keys"
    and "deserialize (stake_clock_codec cs) (data (s clock_id)) = Some clk"
  shows "stake_effect cs v4 keys signers me s s'"
proof -
  define oclk where "oclk = (if expired then Some clk else None)"
  from assms(1) obtain kind source_kind result s1 s2 where o: "owner (s source) = stake_program_id"
    and ne: "source \<noteq> me" and k: "get_if_mergeable cs me clk history s = Inr kind"
    and sg: "staker (meta_authorized (merge_meta kind)) \<in> signers"
    and sk: "get_if_mergeable cs source clk history s = Inr source_kind"
    and m: "merge_kinds ic kind source_kind oclk = Inr result"
    and s1: "case result of Some st \<Rightarrow> store_stake cs st me s = Inr s1 | None \<Rightarrow> s1 = s"
    and s2: "store_stake cs Uninitialized source s1 = Inr s2"
    and s': "move_lamports source me (lamports (s2 source)) s2 = Inr s'"
    unfolding stake_account_merge_def oclk_def
    by (auto simp: guard_r_Inr authorized_check_Inr elim!: bind_r_InrE split: option.splits)
  have "\<forall>c. oclk = Some c \<longrightarrow> deserialize (stake_clock_codec cs) (data (s clock_id)) = Some c"
    using assms(3) by (simp add: oclk_def)
  then show ?thesis
    by (rule stake_effect.merged [OF assms(2) ne o k sk sg metas_can_merge_authorized [OF m] m s1 s2 s'])
qed

lemma withdraw_effect:
  assumes "stake_account_withdraw cs me amount to_key clk history authority custodian strict s = Inr s'"
    and "to_key \<in> keys" and "is_signer authority \<longrightarrow> key authority \<in> signers"
    and c: "deserialize (stake_clock_codec cs) (data (s clock_id)) = Some clk"
    and "\<forall>ka. custodian = Some ka \<longrightarrow> is_signer ka \<longrightarrow> key ka \<in> signers"
  shows "stake_effect cs v4 keys signers me s s'"
proof -
  define cust where "cust = Option.bind custodian signer_key"
  from assms(1) obtain k st l reserve is_staked s1 where k: "signer_key authority = Some k"
    and st: "load_stake cs s me = Inr st"
    and lim: "withdraw_limits me clk history {k} strict st = Inr (l, reserve, is_staked)"
    and lock: "\<not> is_in_force l clk cust" and fits: "unat amount + unat reserve < 2 ^ 64"
    and staked: "\<not> (is_staked \<and> lamports (s me) < amount + reserve)"
    and funds: "\<not> (amount \<noteq> lamports (s me) \<and> lamports (s me) < amount + reserve)"
    and s1: "close_if_emptied cs me amount s s1" and s': "move_lamports me to_key amount s1 = Inr s'"
    unfolding stake_account_withdraw_def cust_def
    by (auto simp: guard_r_Inr ok_or_Inr checked_add_r_Inr close_if_emptied_iff [symmetric]
      elim!: bind_r_InrE split: if_splits)
  have "k \<in> signers" using k assms(3) by (auto simp: signer_key_def split: if_splits)
  moreover have "case cust of Some c \<Rightarrow> c \<in> signers | None \<Rightarrow> True"
    using assms(5) by (auto simp: cust_def signer_key_def split: option.split bind_splits if_splits)
  moreover have "unat amount + unat reserve \<le> unat (lamports (s me)) \<or> (amount = lamports (s me) \<and> \<not> is_staked)"
    using staked funds fits unat_add_no_wrap [of amount reserve] by (auto simp: word_less_nat_alt not_less)
  ultimately show ?thesis
    by (intro stake_effect.withdrawn [OF st _ c lim lock _ _ assms(2) s1 s'])
qed

lemma signer_at:
  "first + i < length kas \<Longrightarrow> is_signer (kas ! (first + i)) \<Longrightarrow> key (kas ! (first + i)) \<in> get_signers (drop first kas)"
  unfolding mem_get_signers
  by (rule bexI [of _ "kas ! (first + i)"]) (auto simp: in_set_conv_nth intro!: exI [of _ i])

lemma clock_at_data: "clock_at cs ic i s = Inr clk \<Longrightarrow> deserialize (stake_clock_codec cs) (data (s clock_id)) = Some clk"
  by (auto simp: clock_at_def from_keyed_account_def check_sysvar_keyed_account_def result_simps)

lemma stake_instruction_effect:
  assumes "stake_instruction_step cs ic first me (get_signers (drop first (keyed_accounts ic))) ix s = Inr s'"
  shows "stake_effect cs (is_active ic stake_program_v4) (key ` set (keyed_accounts ic)) (get_signers (drop first (keyed_accounts ic))) me s s'"
proof -
  let ?sg = "get_signers (drop first (keyed_accounts ic))"
  have self: "\<forall>k \<in> ?sg. acts cs ?sg k" by (simp add: acts_def)
  have base: "is_signer (keyed_accounts ic ! Suc first) \<longrightarrow> key (keyed_accounts ic ! Suc first) \<in> ?sg"
    if "Suc first < length (keyed_accounts ic)"
    using signer_at [of first 1] that by simp
  note [simp] = keyed_account_at_index_Inr guard_r_Inr ok_or_Inr
  note [elim!] = bind_r_InrE
  show ?thesis
  proof (cases ix)
    case (Initialize auth l)
    with assms show ?thesis by (auto intro: initialize_effect)
  next
    case (Authorize k what)
    with assms self show ?thesis by (auto split: if_splits intro: stake_authorize_effect)
  next
    case DelegateStake
    with assms show ?thesis by (auto intro: delegate_effect)
  next
    case (Split amount)
    with assms show ?thesis by (auto intro!: split_effect)
  next
    case (Withdraw amount)
    with assms signer_at clock_at_data show ?thesis by (auto intro!: withdraw_effect split: if_splits)
  next
    case Deactivate
    with assms show ?thesis by (auto intro: deactivate_effect)
  next
    case (SetLockup args)
    with assms show ?thesis by (auto intro: set_lockup_effect)
  next
    case Merge
    with assms show ?thesis by (auto intro!: merge_effect clock_at_data)
  next
    case (AuthorizeWithSeed args)
    with assms base show ?thesis by (auto split: if_splits intro: authorize_with_seed_effect)
  next
    case InitializeChecked
    with assms show ?thesis by (auto split: if_splits intro: initialize_effect)
  next
    case (AuthorizeChecked what)
    with assms self show ?thesis by (auto split: if_splits intro: stake_authorize_effect)
  next
    case (AuthorizeCheckedWithSeed args)
    with assms base show ?thesis by (auto split: if_splits intro: authorize_with_seed_effect)
  next
    case (SetLockupChecked args)
    with assms show ?thesis by (auto split: if_splits intro: set_lockup_effect)
  qed
qed

lemma stake_process_instruction_effect:
  assumes "stake_process_instruction cs decode ic first bytes s = Inr s'"
  obtains "first < length (keyed_accounts ic)"
    and "owner (s (key (keyed_accounts ic ! first))) = stake_program_id"
    and "stake_effect cs (is_active ic stake_program_v4) (key ` set (keyed_accounts ic)) (get_signers (drop first (keyed_accounts ic)))
           (key (keyed_accounts ic ! first)) s s'"
  using assms unfolding stake_process_instruction_def
  by (auto simp: keyed_account_at_index_Inr guard_r_Inr elim!: bind_r_InrE dest: stake_instruction_effect)

section \<open>Frame and conservation\<close>

lemma store_stake_Inr [result_simps]:
  "store_stake cs st k s = Inr s' \<longleftrightarrow> (\<exists>a. set_state (stake_codec cs) st (s k) = Inr a \<and> s' = s(k := a))"
  by (auto simp: store_stake_def bind_r_Inr)

lemma store_stake_frame:
  assumes "store_stake cs st k s = Inr s'"
  shows "k' \<noteq> k \<Longrightarrow> s' k' = s k'" and "lamports (s' x) = lamports (s x)" and "owner (s' x) = owner (s x)"
    and "length (data (s' x)) = length (data (s x))"
  using assms set_state_frame unfolding store_stake_Inr by auto

text \<open>
  \<open>touches K s s'\<close>: only accounts in \<open>K\<close> changed, no owner changed, and every total over a set that
  includes \<open>K\<close> is the same.
\<close>

definition touches :: "pubkey set \<Rightarrow> store \<Rightarrow> store \<Rightarrow> bool" where
  "touches K s s' \<longleftrightarrow> (\<forall>k. k \<notin> K \<longrightarrow> s' k = s k) \<and> (\<forall>k. owner (s' k) = owner (s k))
     \<and> (\<forall>L. finite L \<longrightarrow> K \<subseteq> L \<longrightarrow> total_lamports L s' = total_lamports L s)"

lemma touches_refl: "touches K s s"
  by (simp add: touches_def)

lemma touches_trans: "touches K s t \<Longrightarrow> touches K t u \<Longrightarrow> touches K s u"
  by (simp add: touches_def)

lemma touches_mono: "touches K s t \<Longrightarrow> K \<subseteq> L \<Longrightarrow> touches L s t"
  unfolding touches_def by blast

lemma store_stake_touches:
  assumes "store_stake cs st k s = Inr s'" and "k \<in> K"
  shows "touches K s s'"
proof -
  have "s' x = s x" if "x \<notin> K" for x using store_stake_frame(1) [OF assms(1)] assms(2) that by metis
  then show ?thesis
    using store_stake_frame(2,3) [OF assms(1)] by (simp add: touches_def total_lamports_def)
qed

lemma move_lamports_touches:
  assumes "move_lamports f t n s = Inr s'" and "f \<in> K" "t \<in> K"
  shows "touches K s s'"
proof -
  have "s' x = s x" if "x \<notin> K" for x using move_lamports_frame(1) [OF assms(1)] assms(2,3) that by metis
  moreover have "total_lamports L s' = total_lamports L s" if "finite L" "K \<subseteq> L" for L
    using move_lamports_total [OF assms(1) that(1)] assms(2,3) that(2) by blast
  ultimately show ?thesis using move_lamports_frame(3) [OF assms(1)] by (simp add: touches_def)
qed

lemma credit_then_debit_distinct:
  assumes "f \<noteq> t"
  shows "credit_then_debit t f n s = move_lamports f t n s"
proof -
  have "s(f := a, t := b) = s(t := b, f := a)" for a b using assms by (rule fun_upd_twist)
  then show ?thesis
    using assms unfolding move_lamports_distinct [OF assms] credit_then_debit_def
    by (simp add: checked_sub_lamports_def checked_add_lamports_def
        checked_sub_def checked_add_def bind_r_def ok_or_def Let_def)
qed

lemma credit_then_debit_same:
  assumes "credit_then_debit t t n s = Inr s'"
  shows "s' = s"
  using assms by (auto simp: credit_then_debit_def result_simps)

lemma credit_then_debit_touches:
  assumes "credit_then_debit t f n s = Inr s'" and "f \<in> K" "t \<in> K"
  shows "touches K s s'"
proof (cases "f = t")
  case True
  with assms credit_then_debit_same have "s' = s" by simp
  then show ?thesis by (simp add: touches_refl)
next
  case False
  with assms move_lamports_touches [of f t n s s' K] show ?thesis by (simp add: credit_then_debit_distinct)
qed

lemma close_if_emptied_touches: "close_if_emptied cs me amount s s' \<Longrightarrow> me \<in> K \<Longrightarrow> touches K s s'"
  by (auto simp: close_if_emptied_def touches_refl intro: store_stake_touches split: if_splits)

lemma split_states_touches:
  assumes "split_states cs me amount split_key signers st s = Inr s'" and "me \<in> K" "split_key \<in> K"
  shows "touches K s s'"
proof (cases st)
  case (Stake m stk)
  with assms(1) obtain st1 st2 s1 where "store_stake cs st1 me s = Inr s1" "store_stake cs st2 split_key s1 = Inr s'"
    unfolding split_states_def by (auto simp: Let_def split_beta elim!: bind_r_InrE)
  with assms(2,3) show ?thesis by (blast intro: touches_trans store_stake_touches)
qed (use assms in \<open>auto simp: split_states_def Let_def touches_refl elim!: bind_r_InrE intro: store_stake_touches\<close>)

lemma stake_effect_touches:
  assumes "stake_effect cs v4 keys signers me s s'"
  shows "touches (insert me keys) s s'"
  using assms
proof cases
  case (split_off split_key amount st s1 s2)
  have "touches (insert me keys) s s1" using split_off by (intro split_states_touches) auto
  moreover have "touches (insert me keys) s1 s2" using split_off by (intro close_if_emptied_touches) auto
  moreover have "touches (insert me keys) s2 s'" using split_off by (intro credit_then_debit_touches) auto
  ultimately show ?thesis by (blast intro: touches_trans)
next
  case (merged source clk history kind source_kind ic oclk result s1 s2)
  have "touches (insert me keys) s s1"
    using merged(9) by (auto simp: touches_refl intro: store_stake_touches split: option.splits)
  moreover have "touches (insert me keys) s1 s2" using merged by (intro store_stake_touches) auto
  moreover have "touches (insert me keys) s2 s'" using merged by (intro move_lamports_touches) auto
  ultimately show ?thesis by (blast intro: touches_trans)
next
  case (withdrawn st authority clk history strict l reserve is_staked custodian amount to_key s1)
  have "touches (insert me keys) s s1" using withdrawn by (intro close_if_emptied_touches) auto
  moreover have "touches (insert me keys) s1 s'" using withdrawn by (intro move_lamports_touches) auto
  ultimately show ?thesis by (blast intro: touches_trans)
qed (auto intro: store_stake_touches)

end
