(* ===== verification/Stake_Safety.thy ===== *)
theory Stake_Safety
  imports Stake_Effect
begin

text \<open>
  The properties of the stake program over whole instructions, with a concrete stake account on which
  they are evaluated.
\<close>

section \<open>What a successful step did\<close>

lemma load_stake_Inr [result_simps]: "load_stake cs s k = Inr st \<longleftrightarrow> deserialize (stake_codec cs) (data (s k)) = Some st"
  by (simp add: load_stake_def result_simps)

lemma store_stake_reads_back:
  "codec_ok (stake_codec cs) \<Longrightarrow> store_stake cs st k s = Inr s' \<Longrightarrow> deserialize (stake_codec cs) (data (s' k)) = Some st"
  by (auto simp: store_stake_Inr intro: set_state_reads_back)

lemma split_states_cases:
  assumes "split_states cs me n split_key signers st s = Inr s1"
  obtains (Stake) m stk delta amount stk' new sr s0 where "st = Stake m stk"
      and "sr = calculate_split_rent_exempt_reserve (rent_exempt_reserve m)
        (of_nat (length (data (s me)))) (of_nat (length (data (s split_key))))"
      and "check_split_funds n sr (lamports (s split_key)) (rent_exempt_reserve m) (lamports (s me)) = Inr ()"
      and "split_amounts n sr (lamports (s split_key)) (rent_exempt_reserve m) (lamports (s me)) = (delta, amount)"
      and "stake_split delta amount stk = Inr (stk', new)"
      and "store_stake cs (Stake m stk') me s = Inr s0"
      and "store_stake cs (Stake (m\<lparr>rent_exempt_reserve := sr\<rparr>) new) split_key s0 = Inr s1"
  | (Initialized) m sr where "st = Initialized m"
      and "check_split_funds n sr (lamports (s split_key)) (rent_exempt_reserve m) (lamports (s me)) = Inr ()"
      and "store_stake cs (Initialized (m\<lparr>rent_exempt_reserve := sr\<rparr>)) split_key s = Inr s1"
  | (Uninitialized) "st = Uninitialized" and "s1 = s"
proof (cases st)
  case (Stake m stk)
  define sr where "sr = calculate_split_rent_exempt_reserve (rent_exempt_reserve m)
    (of_nat (length (data (s me)))) (of_nat (length (data (s split_key))))"
  obtain delta amount where a: "split_amounts n sr (lamports (s split_key)) (rent_exempt_reserve m) (lamports (s me))
      = (delta, amount)" by (cases "split_amounts n sr (lamports (s split_key)) (rent_exempt_reserve m) (lamports (s me))")
  show ?thesis
    using assms that(1) [OF Stake sr_def _ a] unfolding Stake split_states_def stake_state.case Let_def
      sr_def [symmetric] a prod.case
    by (auto simp: map_err_Inr elim!: bind_r_InrE)
next
  case (Initialized m)
  then show ?thesis
    using assms that(2) [OF Initialized] by (auto simp: split_states_def Let_def elim!: bind_r_InrE)
qed (use assms that(3) in \<open>auto simp: split_states_def elim!: bind_r_InrE\<close>)

lemma close_if_emptied_frame:
  assumes "close_if_emptied cs me n s s'"
  shows "k \<noteq> me \<Longrightarrow> s' k = s k" and "lamports (s' k) = lamports (s k)" and "owner (s' k) = owner (s k)"
    and "length (data (s' k)) = length (data (s k))"
  using assms store_stake_frame [of cs Uninitialized me s s'] by (auto simp: close_if_emptied_def split: if_splits)

lemma get_if_mergeable_cases:
  assumes "get_if_mergeable cs k clk h s = Inr kind"
  obtains st where "load_stake cs s k = Inr st" and "state_meta st = Some (merge_meta kind)"
    and "\<And>m l. kind = Inactive m l \<Longrightarrow> l = lamports (s k)"
    and "\<And>m stk. kind = ActivationEpoch m stk \<or> kind = FullyActive m stk \<Longrightarrow> st = Stake m stk"
  using assms unfolding get_if_mergeable_def Let_def
  by (auto elim!: bind_r_InrE split: stake_state.splits if_splits)

lemma delegations_can_merge_Inr:
  "active_delegations_can_merge d d' = Inr () \<Longrightarrow> deactivation_epoch d = max_val \<and> deactivation_epoch d' = max_val"
  by (auto simp: active_delegations_can_merge_def split: if_splits)

lemma merge_kinds_cases:
  assumes "merge_kinds ic kind source_kind oclk = Inr (Some st')"
  obtains (inactive) m stk m' l' a where "kind = ActivationEpoch m stk" and "source_kind = Inactive m' l'"
      and "checked_add_r (delegated (stake_delegation stk)) l' = Inr a"
      and "st' = Stake m (stk\<lparr>stake_delegation := (stake_delegation stk)\<lparr>delegated := a\<rparr>\<rparr>)"
  | (active) m stk m' stk' n stk1 where "kind = ActivationEpoch m stk" and "source_kind = ActivationEpoch m' stk'"
      and "deactivation_epoch (stake_delegation stk') = max_val"
      and "checked_add_r (rent_exempt_reserve m') (delegated (stake_delegation stk')) = Inr n"
      and "merge_delegation_stake_and_credits_observed ic n (credits_observed stk') stk = Inr stk1"
      and "st' = Stake m stk1"
  | (full) m stk m' stk' stk1 where "kind = FullyActive m stk" and "source_kind = FullyActive m' stk'"
      and "deactivation_epoch (stake_delegation stk') = max_val"
      and "merge_delegation_stake_and_credits_observed ic (delegated (stake_delegation stk')) (credits_observed stk') stk
        = Inr stk1"
      and "st' = Stake m stk1"
proof -
  have can: "deactivation_epoch (stake_delegation stk') = max_val"
    if "(if b then active_delegations_can_merge (stake_delegation stk) (stake_delegation stk')
      else active_stakes_can_merge stk stk') = Inr u" for b stk stk' u
    using that by (auto simp: active_stakes_can_merge_def elim!: bind_r_InrE split: if_splits
        dest: delegations_can_merge_Inr)
  note m = assms [unfolded merge_kinds_def]
  show thesis
  proof (cases kind)
    case (Inactive m1 l1)
    with m show thesis by (cases source_kind) (auto elim!: bind_r_InrE)
  next
    case k: (ActivationEpoch m1 stk1)
    show thesis
    proof (cases source_kind)
      case (Inactive m2 l2)
      with m k that(1) [OF k] show thesis by (auto elim!: bind_r_InrE)
    next
      case (ActivationEpoch m2 stk2)
      with m k show thesis by (auto elim!: bind_r_InrE dest!: can intro: that(2))
    next
      case (FullyActive m2 stk2)
      with m k show thesis by (auto elim!: bind_r_InrE)
    qed
  next
    case k: (FullyActive m1 stk1)
    show thesis
    proof (cases source_kind)
      case (FullyActive m2 stk2)
      with m k show thesis by (auto elim!: bind_r_InrE dest!: can intro: that(3))
    qed (use m k in \<open>auto elim!: bind_r_InrE\<close>)
  qed
qed

section \<open>Where the lamports of a stake account go\<close>

text \<open>
  Lamports leave an account that has authorities either by its withdrawer, subject to its lockup, or by
  its staker into another account with the same authorities.
\<close>

definition withdrawal_allowed :: "stake_codecs \<Rightarrow> pubkey set \<Rightarrow> meta \<Rightarrow> store \<Rightarrow> bool" where
  "withdrawal_allowed cs signers m s \<longleftrightarrow>
     withdrawer (meta_authorized m) \<in> signers
     \<and> (\<exists>clk custodian. deserialize (stake_clock_codec cs) (data (s clock_id)) = Some clk
          \<and> \<not> is_in_force (meta_lockup m) clk custodian
          \<and> (case custodian of Some c \<Rightarrow> c \<in> signers | None \<Rightarrow> True))"

definition handed_over :: "stake_codecs \<Rightarrow> pubkey set \<Rightarrow> meta \<Rightarrow> pubkey \<Rightarrow> store \<Rightarrow> store \<Rightarrow> bool" where
  "handed_over cs signers m k s s' \<longleftrightarrow>
     staker (meta_authorized m) \<in> signers
     \<and> (\<exists>k' st' m'. k' \<noteq> k \<and> load_stake cs s' k' = Inr st' \<and> state_meta st' = Some m'
          \<and> meta_authorized m' = meta_authorized m
          \<and> (meta_lockup m' = meta_lockup m
             \<or> (\<exists>clk. deserialize (stake_clock_codec cs) (data (s clock_id)) = Some clk
                  \<and> \<not> is_in_force (meta_lockup m) clk None))
          \<and> unat (lamports (s' k)) + unat (lamports (s' k')) = unat (lamports (s k)) + unat (lamports (s k')))"

lemma two_lamports:
  assumes "touches {a, b} s s'" and "a \<noteq> b"
  shows "unat (lamports (s' a)) + unat (lamports (s' b)) = unat (lamports (s a)) + unat (lamports (s b))"
proof -
  have "total_lamports {a, b} s' = total_lamports {a, b} s" using assms(1) by (simp add: touches_def)
  with assms(2) show ?thesis by (simp add: total_lamports_def)
qed

lemma split_hands_over:
  assumes c: "codec_ok (stake_codec cs)" and u: "load_stake cs s split_key = Inr Uninitialized"
    and st1: "load_stake cs s me = Inr st1"
    and sg: "case state_meta st1 of Some m \<Rightarrow> staker (meta_authorized m) \<in> signers | None \<Rightarrow> me \<in> signers"
    and s1: "split_states cs me amount split_key signers st1 s = Inr s1"
    and s2: "close_if_emptied cs me amount s1 s2" and s': "credit_then_debit split_key me amount s2 = Inr s'"
    and st: "load_stake cs s k = Inr st" and m: "state_meta st = Some m" and less: "lamports (s' k) < lamports (s k)"
  shows "handed_over cs signers m k s s'"
proof -
  let ?K = "{me, split_key}"
  have t: "touches ?K s s'"
    using split_states_touches [OF s1, of ?K] close_if_emptied_touches [OF s2, of ?K]
      credit_then_debit_touches [OF s', of ?K] touches_trans by blast
  have "k \<noteq> split_key" using u st m by auto
  moreover have "s' k = s k" if "k \<notin> ?K" using t that by (simp add: touches_def)
  ultimately have k: "k = me" and ne: "me \<noteq> split_key" using less by force+
  with st st1 have "st1 = st" by simp
  obtain st' r where st': "load_stake cs s1 split_key = Inr st'" "state_meta st' = Some (m\<lparr>rent_exempt_reserve := r\<rparr>)"
    using s1 unfolding \<open>st1 = st\<close>
  proof (cases rule: split_states_cases)
    case Stake
    then show ?thesis using store_stake_reads_back [OF c Stake(7)] m by (auto simp: load_stake_Inr intro: that)
  next
    case Initialized
    then show ?thesis using store_stake_reads_back [OF c Initialized(3)] m by (auto simp: load_stake_Inr intro: that)
  qed (use m in auto)
  have "move_lamports me split_key amount s2 = Inr s'" using s' credit_then_debit_distinct [OF ne] by simp
  then have "data (s' split_key) = data (s1 split_key)"
    using move_lamports_frame(2) close_if_emptied_frame(1) [OF s2 ne [symmetric]] by simp
  with st' have "load_stake cs s' split_key = Inr st'" by (simp add: load_stake_Inr)
  with st'(2) sg m \<open>st1 = st\<close> k ne two_lamports [OF t ne] show ?thesis
    by (auto simp: handed_over_def intro!: exI [of _ split_key])
qed

lemma merge_keeps_meta:
  assumes "merge_kinds ic kind source_kind oclk = Inr (Some st)"
  shows "state_meta st = Some (merge_meta kind)"
  using assms by (cases rule: merge_kinds_cases) auto

lemma merge_lockups:
  assumes "merge_kinds ic kind source_kind oclk = Inr result"
  shows "meta_lockup (merge_meta kind) = meta_lockup (merge_meta source_kind)
    \<or> (\<exists>clk. oclk = Some clk \<and> \<not> is_in_force (meta_lockup (merge_meta source_kind)) clk None)"
  using assms unfolding merge_kinds_def metas_can_merge_def Let_def
  by (auto elim!: bind_r_InrE split: if_splits option.splits)

lemma merge_hands_over:
  assumes c: "codec_ok (stake_codec cs)" and ne: "source \<noteq> me"
    and kind: "get_if_mergeable cs me clk history s = Inr kind"
    and source_kind: "get_if_mergeable cs source clk history s = Inr source_kind"
    and sg: "staker (meta_authorized (merge_meta kind)) \<in> signers"
    and mk: "merge_kinds ic kind source_kind oclk = Inr result"
    and s1: "case result of Some st \<Rightarrow> store_stake cs st me s = Inr s1 | None \<Rightarrow> s1 = s"
    and s2: "store_stake cs Uninitialized source s1 = Inr s2"
    and s': "move_lamports source me (lamports (s2 source)) s2 = Inr s'"
    and clock: "\<forall>c. oclk = Some c \<longrightarrow> deserialize (stake_clock_codec cs) (data (s clock_id)) = Some c"
    and st: "load_stake cs s k = Inr st" and m: "state_meta st = Some m" and less: "lamports (s' k) < lamports (s k)"
  shows "handed_over cs signers m k s s'"
proof -
  let ?K = "{source, me}"
  have t1: "touches ?K s s1" using s1 by (auto simp: touches_refl intro: store_stake_touches split: option.splits)
  have t: "touches ?K s s'"
    using t1 store_stake_touches [OF s2, of ?K] move_lamports_touches [OF s', of ?K] touches_trans by blast
  have "lamports (s2 k) = lamports (s k)"
    using s1 store_stake_frame(2) [OF s2] store_stake_frame(2) by (auto split: option.splits)
  with less move_lamports_mono [OF s'] have k: "k = source" by fastforce
  from source_kind obtain st1 where "load_stake cs s source = Inr st1" "state_meta st1 = Some (merge_meta source_kind)"
    by (rule get_if_mergeable_cases)
  with st m k have mm: "m = merge_meta source_kind" by simp
  obtain st' where "load_stake cs s1 me = Inr st'" and st': "state_meta st' = Some (merge_meta kind)"
  proof (cases result)
    case None
    then show ?thesis using s1 by (auto intro: get_if_mergeable_cases [OF kind] that)
  next
    case (Some st2)
    then have "store_stake cs st2 me s = Inr s1" "state_meta st2 = Some (merge_meta kind)"
      using s1 mk merge_keeps_meta by auto
    then show ?thesis using store_stake_reads_back [OF c] that by (auto simp: load_stake_Inr)
  qed
  moreover have "data (s' me) = data (s1 me)"
    using move_lamports_frame(2) [OF s'] store_stake_frame(1) [OF s2 ne [symmetric]] by simp
  ultimately have "load_stake cs s' me = Inr st'" by (simp add: load_stake_Inr)
  moreover have "meta_authorized (merge_meta source_kind) = meta_authorized (merge_meta kind)"
    by (rule metas_can_merge_authorized [OF mk])
  moreover note two_lamports [OF t ne] merge_lockups [OF mk]
  ultimately have "me \<noteq> k \<and> load_stake cs s' me = Inr st' \<and> state_meta st' = Some (merge_meta kind)
      \<and> meta_authorized (merge_meta kind) = meta_authorized m
      \<and> (meta_lockup (merge_meta kind) = meta_lockup m
         \<or> (\<exists>clk. deserialize (stake_clock_codec cs) (data (s clock_id)) = Some clk
              \<and> \<not> is_in_force (meta_lockup m) clk None))
      \<and> unat (lamports (s' k)) + unat (lamports (s' me)) = unat (lamports (s k)) + unat (lamports (s me))"
    using st' clock ne unfolding mm k by auto
  with sg show ?thesis unfolding handed_over_def by metis
qed

lemma stake_effect_funds:
  assumes c: "codec_ok (stake_codec cs)" and e: "stake_effect cs v4 keys signers me s s'"
    and st: "load_stake cs s k = Inr st" and m: "state_meta st = Some m" and less: "lamports (s' k) < lamports (s k)"
  shows "withdrawal_allowed cs signers m s \<or> handed_over cs signers m k s s'"
  using e
proof cases
  case (split_off split_key amount st1 s1 s2)
  have "handed_over cs signers m k s s'" by (rule split_hands_over [OF c split_off(4,6-10) st m less])
  then show ?thesis ..
next
  case (merged source clk history kind source_kind ic oclk result s1 s2)
  have "handed_over cs signers m k s s'" by (rule merge_hands_over [OF c merged(2,4-6,8-12) st m less])
  then show ?thesis ..
next
  case (withdrawn st1 authority clk history strict l reserve is_staked custodian amount to_key s1)
  have "lamports (s1 k) = lamports (s k)" by (rule close_if_emptied_frame(2) [OF withdrawn(9)])
  with less move_lamports_mono [OF withdrawn(10)] have "k = me" by fastforce
  with st withdrawn(1) have "st1 = st" by simp
  with m withdrawn(4) have "authority = withdrawer (meta_authorized m) \<and> l = meta_lockup m"
    by (cases st) (auto simp: withdraw_limits_def Let_def authorized_check_Inr elim!: bind_r_InrE split: if_splits)
  with withdrawn(2,3,5,6) show ?thesis by (auto simp: withdrawal_allowed_def)
qed (use less store_stake_frame(2) in auto)

section \<open>A concrete stake account\<close>

text \<open>
  Account 3 delegates 1000 lamports, above a reserve of 50, to the vote account 9 from epoch 1 on; its
  staker and withdrawer is key 7. It is epoch 2, and of the 1000 lamports that were activating in
  epoch 1 a quarter of the cluster's effective 400 have become effective. The first two of its states
  have short encodings, every other state a generic one.
\<close>

instance f64 :: countable
  by countable_datatype

instance lockup_ext :: (countable) countable
  by (rule countable_classI [of "\<lambda>x. to_nat (lockup_unix_timestamp x, lockup_epoch x, lockup_custodian x,
        lockup.more x)"]) simp

instance authorized_ext :: (countable) countable
  by (rule countable_classI [of "\<lambda>x. to_nat (staker x, withdrawer x, authorized.more x)"]) simp

instance meta_ext :: (countable) countable
  by (rule countable_classI [of "\<lambda>x. to_nat (rent_exempt_reserve x, meta_authorized x, meta_lockup x, meta.more x)"]) simp

instance delegation_ext :: (countable) countable
  by (rule countable_classI [of "\<lambda>x. to_nat (voter_pubkey x, delegated x, activation_epoch x,
        deactivation_epoch x, warmup_cooldown_rate x, delegation.more x)"]) simp

instance stake_ext :: (countable) countable
  by (rule countable_classI [of "\<lambda>x. to_nat (stake_delegation x, credits_observed x, stake.more x)"]) simp

instance stake_state :: countable
  by countable_datatype

definition tagged_codec :: "'v::countable \<Rightarrow> 'v \<Rightarrow> 'v codec" where
  "tagged_codec a b =
     \<lparr>deserialize = (\<lambda>bs. case bs of
          [] \<Rightarrow> None
        | t # rest \<Rightarrow> if t = 1 then Some a else if t = 2 then Some b else deserialize unary_codec rest),
      serialize = (\<lambda>v. if v = a then 1 # replicate 199 0 else if v = b then 2 # replicate 199 0
        else 0 # serialize unary_codec v)\<rparr>"

lemma codec_ok_tagged: "codec_ok (tagged_codec (a :: 'v::countable) b)"
  using codec_ok_unary [where 'a = 'v] by (simp add: codec_ok_def tagged_codec_def)

definition example_meta :: meta where
  "example_meta = (meta_auto 7)\<lparr>rent_exempt_reserve := 50\<rparr>"

definition example_stake :: stake where
  "example_stake = \<lparr>stake_delegation = delegation_new 9 1000 1 DEFAULT_WARMUP_COOLDOWN_RATE, credits_observed = 0\<rparr>"

definition deactivated_stake :: stake where
  "deactivated_stake = example_stake\<lparr>stake_delegation := (stake_delegation example_stake)\<lparr>deactivation_epoch := 2\<rparr>\<rparr>"

definition example_clock :: clock where
  "example_clock = clock_default\<lparr>clock_epoch := 2\<rparr>"

definition example_history :: stake_history where
  "example_history = [(1, \<lparr>effective = 400, activating = 1000, deactivating = 0\<rparr>)]"

definition example_stake_codecs :: stake_codecs where
  "example_stake_codecs =
     \<lparr>stake_codec = tagged_codec (Stake example_meta example_stake) (Stake example_meta deactivated_stake),
      stake_vote_codec = \<lparr>deserialize = (\<lambda>_. Some (Current vote_state_default)), serialize = (\<lambda>_. [])\<rparr>,
      stake_clock_codec = \<lparr>deserialize = (\<lambda>_. Some example_clock), serialize = (\<lambda>_. [])\<rparr>,
      stake_rent_codec = \<lparr>deserialize = (\<lambda>_. Some free), serialize = (\<lambda>_. [])\<rparr>,
      stake_history_codec = \<lparr>deserialize = (\<lambda>_. Some example_history), serialize = (\<lambda>_. [])\<rparr>,
      config_keys_codec = \<lparr>deserialize = (\<lambda>_. Some []), serialize = (\<lambda>_. [])\<rparr>,
      config_codec = \<lparr>deserialize = (\<lambda>_. Some stake_config_default), serialize = (\<lambda>_. [])\<rparr>,
      stake_hashv = (\<lambda>_. 0)\<rparr>"

definition stake_account_with :: "u64 \<Rightarrow> stake \<Rightarrow> account" where
  "stake_account_with l stk = account_default\<lparr>owner := stake_program_id, lamports := l,
     data := serialize (stake_codec example_stake_codecs) (Stake example_meta stk)\<rparr>"

definition example_stake_store :: "u64 \<Rightarrow> stake \<Rightarrow> u64 \<Rightarrow> store" where
  "example_stake_store l stk paid = (\<lambda>_. account_default)(3 := stake_account_with l stk,
     9 := account_default\<lparr>owner := vote_program_id\<rparr>, 7 := account_default\<lparr>lamports := paid\<rparr>)"

text \<open>
  The accounts of three instructions, each from its own position on: deactivate, withdraw 900 lamports
  to account 7, delegate to account 9.
\<close>

definition example_stake_context :: invoke_context where
  "example_stake_context =
     \<lparr>keyed_accounts = map (\<lambda>k. \<lparr>is_signer = (k = 7), is_writable = True, key = k\<rparr>)
        [3, clock_id, 3, 7, clock_id, stake_history_id, 7, 3, 9, clock_id, stake_history_id, stake_config_id, 7],
      feature_set = {stake_program_v4}, blockhash = 0, lamports_per_signature = 0, cached_clock = None,
      cached_rent = None, cached_slot_hashes = None\<rparr>"

definition example_stake_decode :: "u8 list \<Rightarrow> stake_instruction option" where
  "example_stake_decode bytes =
     (if bytes = [5] then Some Deactivate else if bytes = [4] then Some (Withdraw 900) else Some DelegateStake)"

abbreviation example_stake_step :: "nat \<times> u8 list \<Rightarrow> store \<Rightarrow> store ix_result" where
  "example_stake_step \<equiv> \<lambda>(first, bytes) s.
     stake_process_instruction example_stake_codecs example_stake_decode example_stake_context first bytes s"

lemma example_stakes_distinct: "deactivated_stake \<noteq> example_stake"
  by (simp add: deactivated_stake_def example_stake_def delegation_new_def delegation_default_def)

lemma example_newly_moved: "newly_moved 1000 1000 400 DEFAULT_WARMUP_COOLDOWN_RATE = 100"
  by (simp add: newly_moved_def DEFAULT_WARMUP_COOLDOWN_RATE_def f64_of_u64_exact round_f64_def Let_def
    bit_length_numeral round_shift_def)

lemma example_delegation [simp]:
  "deactivation_epoch (stake_delegation deactivated_stake) = 2"
  "deactivation_epoch (stake_delegation example_stake) = max_val"
  "delegated (stake_delegation deactivated_stake) = 1000" "delegated (stake_delegation example_stake) = 1000"
  "voter_pubkey (stake_delegation deactivated_stake) = 9"
  "activation_epoch (stake_delegation deactivated_stake) = 1"
  "warmup_cooldown_rate (stake_delegation deactivated_stake) = DEFAULT_WARMUP_COOLDOWN_RATE"
  by (simp_all add: deactivated_stake_def example_stake_def delegation_new_def delegation_default_def)

lemma example_effective: "delegation_stake (stake_delegation deactivated_stake) 2 (Some example_history) = 100"
proof -
  let ?c = "\<lparr>effective = 400, activating = 1000, deactivating = 0\<rparr>"
  have h: "history_at (Some example_history) 1 = Some (example_history, ?c)"
    using stake_hist.get_entries [of example_history 1] by (simp add: history_at_def example_history_def)
  have "activation_loop (stake_delegation deactivated_stake) example_history 2 1 ?c 0 = 100"
    by (subst activation_loop.simps) (simp add: Let_def example_newly_moved)
  then show ?thesis
    by (simp add: delegation_stake_def stake_activating_and_deactivating_def stake_and_activating_def
        is_bootstrap_def h with_deactivating_def)
qed

lemma example_load:
  "load_stake example_stake_codecs (example_stake_store l example_stake p) 3 = Inr (Stake example_meta example_stake)"
  "load_stake example_stake_codecs (example_stake_store l deactivated_stake p) 3 = Inr (Stake example_meta deactivated_stake)"
  using example_stakes_distinct
  by (simp_all add: load_stake_def state_def example_stake_store_def stake_account_with_def example_stake_codecs_def
      tagged_codec_def)

lemma example_encoding:
  "length (serialize (stake_codec example_stake_codecs) (Stake example_meta example_stake)) = 200"
  "length (serialize (stake_codec example_stake_codecs) (Stake example_meta deactivated_stake)) = 200"
  using example_stakes_distinct by (simp_all add: example_stake_codecs_def tagged_codec_def)

lemma example_store_stake:
  "store_stake example_stake_codecs (Stake example_meta deactivated_stake) 3 (example_stake_store l example_stake p)
     = Inr (example_stake_store l deactivated_stake p)"
  "store_stake example_stake_codecs (Stake example_meta example_stake) 3 (example_stake_store l deactivated_stake p)
     = Inr (example_stake_store l example_stake p)"
  by (simp_all add: store_stake_def set_state_def Let_def example_stake_store_def stake_account_with_def
      example_encoding fun_eq_iff)

lemma example_accounts [simp]:
  "length (keyed_accounts example_stake_context) = 13"
  "keyed_accounts example_stake_context ! 0 = \<lparr>is_signer = False, is_writable = True, key = 3\<rparr>"
  "keyed_accounts example_stake_context ! Suc 0 = \<lparr>is_signer = (clock_id = 7), is_writable = True, key = clock_id\<rparr>"
  "keyed_accounts example_stake_context ! 2 = \<lparr>is_signer = False, is_writable = True, key = 3\<rparr>"
  "keyed_accounts example_stake_context ! 3 = \<lparr>is_signer = True, is_writable = True, key = 7\<rparr>"
  "keyed_accounts example_stake_context ! 4 = \<lparr>is_signer = (clock_id = 7), is_writable = True, key = clock_id\<rparr>"
  "keyed_accounts example_stake_context ! 5 = \<lparr>is_signer = (stake_history_id = 7), is_writable = True, key = stake_history_id\<rparr>"
  "keyed_accounts example_stake_context ! 6 = \<lparr>is_signer = True, is_writable = True, key = 7\<rparr>"
  "keyed_accounts example_stake_context ! 7 = \<lparr>is_signer = False, is_writable = True, key = 3\<rparr>"
  "keyed_accounts example_stake_context ! 8 = \<lparr>is_signer = False, is_writable = True, key = 9\<rparr>"
  "keyed_accounts example_stake_context ! 9 = \<lparr>is_signer = (clock_id = 7), is_writable = True, key = clock_id\<rparr>"
  "keyed_accounts example_stake_context ! 10 = \<lparr>is_signer = (stake_history_id = 7), is_writable = True, key = stake_history_id\<rparr>"
  "keyed_accounts example_stake_context ! 11 = \<lparr>is_signer = (stake_config_id = 7), is_writable = True, key = stake_config_id\<rparr>"
  by (simp_all add: example_stake_context_def)

lemma example_signer: "i < 13 \<Longrightarrow> 7 \<in> get_signers (drop i (keyed_accounts example_stake_context))"
proof -
  assume "i < 13"
  moreover have "keyed_accounts example_stake_context ! 12 = \<lparr>is_signer = True, is_writable = True, key = 7\<rparr>"
    by (simp add: example_stake_context_def)
  ultimately show ?thesis using signer_at [of i "12 - i" "keyed_accounts example_stake_context"] by simp
qed

lemma example_sysvars [simp]:
  "from_keyed_account clock_id (stake_clock_codec example_stake_codecs) s \<lparr>is_signer = b, is_writable = w, key = clock_id\<rparr>
     = Inr example_clock"
  "from_keyed_account stake_history_id (stake_history_codec example_stake_codecs) s
     \<lparr>is_signer = b, is_writable = w, key = stake_history_id\<rparr> = Inr example_history"
  "stake_config_from_keyed_account example_stake_codecs s \<lparr>is_signer = b, is_writable = w, key = stake_config_id\<rparr>
     = Inr stake_config_default"
  by (simp_all add: from_keyed_account_def check_sysvar_keyed_account_def example_stake_codecs_def
      stake_config_from_keyed_account_def stake_config_from_def get_config_data_def)

lemma example_cells [simp]:
  "owner (example_stake_store l stk p 3) = stake_program_id" "lamports (example_stake_store l stk p 3) = l"
  "owner (example_stake_store l stk p 9) = vote_program_id"
  by (simp_all add: example_stake_store_def stake_account_with_def)

lemma example_meta_simps [simp]:
  "rent_exempt_reserve example_meta = 50" "meta_authorized example_meta = \<lparr>staker = 7, withdrawer = 7\<rparr>"
  "meta_lockup example_meta = lockup_default"
  by (simp_all add: example_meta_def meta_auto_def authorized_auto_def)

lemma example_deactivate:
  "example_stake_step (0, [5]) (example_stake_store 1050 example_stake 0) = Inr (example_stake_store 1050 deactivated_stake 0)"
proof -
  have "stake_account_deactivate example_stake_codecs 3 example_clock (get_signers (keyed_accounts example_stake_context))
      (example_stake_store 1050 example_stake 0) = Inr (example_stake_store 1050 deactivated_stake 0)"
    using example_signer [of 0]
    by (simp add: stake_account_deactivate_def example_load authorized_check_def stake_deactivate_def
        example_clock_def deactivated_stake_def [symmetric] example_store_stake)
  then show ?thesis
    by (simp add: stake_process_instruction_def keyed_account_at_index_def limited_deserialize_def
        example_stake_decode_def clock_at_def)
qed

lemma example_move:
  "move_lamports 3 7 900 (example_stake_store 1050 stk 0) = Inr (example_stake_store 150 stk 900)"
  by (simp add: move_lamports_distinct) (simp add: example_stake_store_def stake_account_with_def fun_eq_iff)

lemma example_stake_withdraw:
  "example_stake_step (2, [4]) (example_stake_store 1050 deactivated_stake 0)
     = Inr (example_stake_store 150 deactivated_stake 900)"
proof -
  have "withdraw_limits 3 example_clock example_history {7} b (Stake example_meta deactivated_stake)
      = Inr (lockup_default, 150, True)" for b
    using example_effective
    by (simp add: withdraw_limits_def Let_def example_clock_def authorized_check_def checked_add_r_def checked_add_def ok_or_def)
  then have "stake_account_withdraw example_stake_codecs 3 900 7 example_clock example_history
      \<lparr>is_signer = True, is_writable = True, key = 7\<rparr> custodian b (example_stake_store 1050 deactivated_stake 0)
      = Inr (example_stake_store 150 deactivated_stake 900)" for custodian b
    by (simp add: stake_account_withdraw_def signer_key_def example_load is_in_force_def lockup_default_def
        example_clock_def clock_default_def checked_add_r_def checked_add_def ok_or_def example_move)
  then show ?thesis
    by (simp add: stake_process_instruction_def keyed_account_at_index_def limited_deserialize_def
        example_stake_decode_def clock_at_def stake_history_at_def)
qed

lemma example_delegatee:
  "load_delegatee example_stake_codecs s k = Inr (convert_to_current (Current vote_state_default))"
  by (simp add: load_delegatee_def state_def example_stake_codecs_def)

lemma example_active: "is_active example_stake_context stake_program_v4"
  by (simp add: is_active_def example_stake_context_def)

lemma example_rescind:
  "example_stake_step (7, [3]) (example_stake_store 150 deactivated_stake 900)
     = Inr (example_stake_store 150 example_stake 900)"
proof -
  have undone: "deactivated_stake\<lparr>stake_delegation := (stake_delegation deactivated_stake)\<lparr>deactivation_epoch := max_val\<rparr>\<rparr>
      = example_stake"
    by (simp add: deactivated_stake_def example_stake_def delegation_new_def delegation_default_def)
  have "redelegate n 9 vs example_clock example_history config True deactivated_stake = Inr example_stake" for n vs config
    using example_effective by (simp add: redelegate_def Let_def example_clock_def undone)
  then have "stake_account_delegate example_stake_codecs 3 9 example_clock example_history config
      (get_signers (drop 7 (keyed_accounts example_stake_context))) True (example_stake_store 150 deactivated_stake 900)
      = Inr (example_stake_store 150 example_stake 900)" for config
    using example_signer [of 7]
    by (simp add: stake_account_delegate_def example_load authorized_check_def example_delegatee example_store_stake)
  then show ?thesis
    by (simp add: stake_process_instruction_def keyed_account_at_index_def limited_deserialize_def
        example_stake_decode_def clock_at_def stake_history_at_def example_active)
qed

section \<open>The properties\<close>

interpretation stake_ix: fallible_machine
  "\<lambda>(first, bytes) s. stake_process_instruction cs decode ic first bytes s"
  "\<lambda>s. True"
  "touches (key ` set (keyed_accounts ic))"
  for cs decode ic
proof unfold_locales
  fix s s' e
  assume "(case e of (first, bytes) \<Rightarrow> stake_process_instruction cs decode ic first bytes) s = Inr s'"
  then obtain first bytes where "stake_process_instruction cs decode ic first bytes s = Inr s'"
    by (cases e) auto
  then show "touches (key ` set (keyed_accounts ic)) s s'"
  proof (rule stake_process_instruction_effect)
    let ?me = "key (keyed_accounts ic ! first)"
    assume "first < length (keyed_accounts ic)"
    then have "insert ?me (key ` set (keyed_accounts ic)) = key ` set (keyed_accounts ic)" by auto
    moreover assume "stake_effect cs (is_active ic stake_program_v4) (key ` set (keyed_accounts ic))
      (get_signers (drop first (keyed_accounts ic))) ?me s s'"
    ultimately show ?thesis using stake_effect_touches by metis
  qed
qed (auto intro: touches_refl touches_trans)

text \<open>
  C6: a staker cannot take funds. When an instruction of the stake program leaves an account that has
  authorities with less lamports, either its withdrawer signed and its lockup is not in force (the
  custodian counted when it signed), or its staker signed and the lamports went to another stake account
  with the same authorities and, while the lockup is in force, the same lockup.
\<close>

theorem stake_funds_guarded:
  assumes "codec_ok (stake_codec cs)" and "stake_process_instruction cs decode ic first bytes s = Inr s'"
    and "load_stake cs s k = Inr st" and "state_meta st = Some m" and "lamports (s' k) < lamports (s k)"
  shows "withdrawal_allowed cs (get_signers (drop first (keyed_accounts ic))) m s
    \<or> handed_over cs (get_signers (drop first (keyed_accounts ic))) m k s s'"
  using assms(2) by (rule stake_process_instruction_effect) (rule stake_effect_funds [where s = s and s' = s', OF assms(1) _ assms(3-5)])

theorem stake_funds_guarded_witness:
  "withdrawal_allowed example_stake_codecs (get_signers (drop 2 (keyed_accounts example_stake_context))) example_meta
      (example_stake_store 1050 deactivated_stake 0)
    \<or> handed_over example_stake_codecs (get_signers (drop 2 (keyed_accounts example_stake_context))) example_meta 3
      (example_stake_store 1050 deactivated_stake 0) (example_stake_store 150 deactivated_stake 900)"
proof (rule stake_funds_guarded)
  show "codec_ok (stake_codec example_stake_codecs)" by (simp add: example_stake_codecs_def codec_ok_tagged)
  show "stake_process_instruction example_stake_codecs example_stake_decode example_stake_context 2 [4]
      (example_stake_store 1050 deactivated_stake 0) = Inr (example_stake_store 150 deactivated_stake 900)"
    using example_stake_withdraw by simp
  show "load_stake example_stake_codecs (example_stake_store 1050 deactivated_stake 0) 3
      = Inr (Stake example_meta deactivated_stake)" by (rule example_load)
qed simp_all

text \<open>
  C29: a sequence of instructions of the stake program neither creates nor destroys lamports over any
  finite set that has the accounts given to it, changes no other account, and gives no account away.
\<close>

theorem stake_run_conserves:
  assumes "run_r (\<lambda>(first, bytes) s. stake_process_instruction cs decode ic first bytes s) ixs s = Inr s'"
    and "finite K" and "key ` set (keyed_accounts ic) \<subseteq> K"
  shows "total_lamports K s' = total_lamports K s \<and> (\<forall>k. (k \<notin> K \<longrightarrow> s' k = s k) \<and> owner (s' k) = owner (s k))"
  using touches_mono [OF stake_ix.run_rel [OF TrueI assms(1)] assms(3)] assms(2) by (simp add: touches_def)

theorem stake_run_conserves_witness:
  "total_lamports (key ` set (keyed_accounts example_stake_context)) (example_stake_store 150 example_stake 900)
      = total_lamports (key ` set (keyed_accounts example_stake_context)) (example_stake_store 1050 example_stake 0)
    \<and> (\<forall>k. (k \<notin> key ` set (keyed_accounts example_stake_context) \<longrightarrow>
             example_stake_store 150 example_stake 900 k = example_stake_store 1050 example_stake 0 k)
          \<and> owner (example_stake_store 150 example_stake 900 k) = owner (example_stake_store 1050 example_stake 0 k))"
  by (rule stake_run_conserves [of example_stake_codecs example_stake_decode example_stake_context
        "[(0, [5]), (2, [4]), (7, [3])]"])
    (use example_deactivate example_stake_withdraw example_rescind in simp_all)

end
