(* ===== verification/Stake_Backing.thy ===== *)
theory Stake_Backing
  imports Stake_Safety
begin

text \<open>
  Whether the lamports of a stake account cover what it delegates. Every instruction of the stake
  program keeps that, with one exception, which is a way to have more stake than lamports.
\<close>

section \<open>Stakes are backed by lamports\<close>

text \<open>What an account must hold: its reserve, and what it delegates unless that was deactivated.\<close>

fun needed :: "stake_state \<Rightarrow> nat" where
  "needed (Initialized m) = unat (rent_exempt_reserve m)"
| "needed (Stake m stk) = unat (rent_exempt_reserve m)
     + (if deactivation_epoch (stake_delegation stk) = max_val then unat (delegated (stake_delegation stk)) else 0)"
| "needed _ = 0"

definition backed_by :: "stake_state \<Rightarrow> u64 \<Rightarrow> nat \<Rightarrow> bool" where
  "backed_by st l len \<longleftrightarrow> needed st \<le> unat l \<and> (state_meta st \<noteq> None \<longrightarrow> STAKE_STATE_SIZE \<le> len \<and> len < 2 ^ 63)"

definition backed_at :: "stake_codecs \<Rightarrow> store \<Rightarrow> pubkey \<Rightarrow> bool" where
  "backed_at cs s k \<longleftrightarrow>
     (case deserialize (stake_codec cs) (data (s k)) of
        Some st \<Rightarrow> backed_by st (lamports (s k)) (length (data (s k)))
      | None \<Rightarrow> True)"

definition stakes_backed :: "stake_codecs \<Rightarrow> store \<Rightarrow> bool" where
  "stakes_backed cs s \<longleftrightarrow> (\<forall>k. owner (s k) = stake_program_id \<longrightarrow> backed_at cs s k)"

lemma backed_by_mono: "backed_by st l len \<Longrightarrow> l \<le> l' \<Longrightarrow> backed_by st l' len"
  by (auto simp: backed_by_def word_le_nat_alt)

lemma backed_by_Uninitialized [simp]: "backed_by Uninitialized l len"
  by (simp add: backed_by_def)

lemma backed_by_set_meta:
  "state_meta st = Some m \<Longrightarrow> rent_exempt_reserve m' = rent_exempt_reserve m \<Longrightarrow>
     backed_by (set_meta m' st) l len = backed_by st l len"
  by (cases st) (auto simp: backed_by_def)

lemma loaded_backed:
  "stakes_backed cs s \<Longrightarrow> owner (s k) = stake_program_id \<Longrightarrow> load_stake cs s k = Inr st \<Longrightarrow>
     backed_by st (lamports (s k)) (length (data (s k)))"
  by (auto simp: stakes_backed_def backed_at_def load_stake_Inr)

text \<open>Writing one state that the account's lamports back.\<close>

lemma store_backed:
  assumes c: "codec_ok (stake_codec cs)" and s: "stakes_backed cs s"
    and r: "store_stake cs st k s = Inr s'" and b: "backed_by st (lamports (s k)) (length (data (s k)))"
  shows "stakes_backed cs s'"
  unfolding stakes_backed_def
proof (intro allI impI)
  fix k'
  assume o: "owner (s' k') = stake_program_id"
  show "backed_at cs s' k'"
  proof (cases "k' = k")
    case True
    then show ?thesis
      using store_stake_reads_back [OF c r] b store_stake_frame(2,4) [OF r] by (simp add: backed_at_def)
  next
    case False
    then have e: "s' k' = s k'" by (rule store_stake_frame(1) [OF r])
    then have "backed_at cs s' k' = backed_at cs s k'" by (simp only: backed_at_def)
    with s o e show ?thesis by (simp add: stakes_backed_def)
  qed
qed

text \<open>Moving lamports out of an account, to any other.\<close>

lemma move_backed:
  assumes s: "stakes_backed cs s" and mv: "move_lamports f t n s = Inr s'"
    and f: "\<And>st. f \<noteq> t \<Longrightarrow> owner (s f) = stake_program_id \<Longrightarrow> load_stake cs s f = Inr st
      \<Longrightarrow> backed_by st (lamports (s f) - n) (length (data (s f)))"
  shows "stakes_backed cs s'"
  unfolding stakes_backed_def
proof (intro allI impI)
  fix k
  assume o: "owner (s' k) = stake_program_id"
  then have o': "owner (s k) = stake_program_id" by (simp add: move_lamports_frame(3) [OF mv])
  have d: "data (s' k) = data (s k)" by (rule move_lamports_frame(2) [OF mv])
  show "backed_at cs s' k"
  proof (cases "f = t")
    case True
    then have "s' = s"
      using mv by (auto simp: move_lamports_def result_simps Let_def)
    with s o' show ?thesis by (simp add: stakes_backed_def)
  next
    case False
    then have l: "lamports (s' f) = lamports (s f) - n"
      using mv by (auto simp: move_lamports_distinct split: if_splits)
    show ?thesis
    proof (cases "k = f")
      case True
      with f [OF False] o' l d show ?thesis
        by (auto simp: backed_at_def load_stake_Inr split: option.split)
    next
      case ne: False
      with s o' d move_lamports_mono [OF mv ne] show ?thesis
        by (auto simp: stakes_backed_def backed_at_def split: option.splits intro: backed_by_mono)
    qed
  qed
qed

text \<open>The reserve of the new account of a split is at most that of the old one, which is no smaller.\<close>

lemma split_reserve_le:
  assumes "STAKE_STATE_SIZE \<le> len" and "len < 2 ^ 63"
  shows "unat (calculate_split_rent_exempt_reserve r (of_nat len) (of_nat STAKE_STATE_SIZE)) \<le> unat r"
proof -
  let ?q = "unat r div (len + 128)"
  have len: "unat (of_nat len + ACCOUNT_STORAGE_OVERHEAD :: u64) = len + 128"
    using assms(2) unat_of_nat_fits [of len, where 'a = 64]
    by (simp add: ACCOUNT_STORAGE_OVERHEAD_def unat_add_no_wrap)
  then have q: "unat (r div (of_nat len + ACCOUNT_STORAGE_OVERHEAD)) = ?q" by (simp add: unat_div)
  have "?q * 328 \<le> ?q * (len + 128)" using assms(1) by (simp add: STAKE_STATE_SIZE_def)
  also have "\<dots> \<le> unat r" by (rule div_times_less_eq_dividend)
  finally have le: "?q * 328 \<le> unat r" .
  then have "?q * 328 < 2 ^ 64" using unat_less_exp [of r] by simp
  then have "unat (r div (of_nat len + ACCOUNT_STORAGE_OVERHEAD) * 328) = ?q * 328"
    using q unat_mul_no_wrap [of "r div (of_nat len + ACCOUNT_STORAGE_OVERHEAD)" 328] by simp
  moreover have "(of_nat STAKE_STATE_SIZE + ACCOUNT_STORAGE_OVERHEAD :: u64) = 328"
    by (simp add: STAKE_STATE_SIZE_def ACCOUNT_STORAGE_OVERHEAD_def)
  ultimately show ?thesis using le by (simp add: calculate_split_rent_exempt_reserve_def)
qed

lemma check_split_funds_Inr [result_simps]:
  "check_split_funds n sr sl r l = Inr u \<longleftrightarrow>
     unat sr - unat sl < unat n \<and> (n = l \<or> unat n + unat r < unat l)"
proof -
  have "unat l < 2 ^ 64" using unat_less_exp [of l] by simp
  then show ?thesis
    by (auto simp: check_split_funds_def result_simps checked_add_r_Inr word_ops not_le word_le_nat_alt
        unat_add_no_wrap)
qed

lemma stake_split_Inr [result_simps]:
  "stake_split delta n stk = Inr (stk', new) \<longleftrightarrow>
     delta \<le> delegated (stake_delegation stk) \<and>
     stk' = stk\<lparr>stake_delegation := (stake_delegation stk)\<lparr>delegated := delegated (stake_delegation stk) - delta\<rparr>\<rparr> \<and>
     new = stk\<lparr>stake_delegation := (stake_delegation stk)\<lparr>delegated := n\<rparr>\<rparr>"
  by (auto simp: stake_split_def Let_def not_less split: if_splits)

text \<open>
  Splitting a delegated stake: the state left behind and the state of the new account are backed by
  the lamports each ends with.
\<close>

lemma split_stake_backed:
  assumes b: "backed_by (Stake m stk) l len" and f: "check_split_funds n sr sl (rent_exempt_reserve m) l = Inr ()"
    and nl: "n \<le> l" and sr: "unat sr \<le> unat (rent_exempt_reserve m)"
    and a: "split_amounts n sr sl (rent_exempt_reserve m) l = (delta, amount)"
    and sp: "stake_split delta amount stk = Inr (stk', new)" and fits: "unat sl + unat n < 2 ^ 64"
    and len': "STAKE_STATE_SIZE \<le> len'" "len' < 2 ^ 63"
  shows "n \<noteq> l \<Longrightarrow> backed_by (Stake m stk') (l - n) len"
    and "backed_by (Stake (m\<lparr>rent_exempt_reserve := sr\<rparr>) new) (sl + n) len'"
proof -
  let ?r = "unat (rent_exempt_reserve m)" and ?d = "stake_delegation stk"
  have sl': "unat (sl + n) = unat sl + unat n" using fits by (simp add: unat_add_no_wrap)
  have funds: "unat sr - unat sl < unat n" "n = l \<or> unat n + ?r < unat l"
    using f by (auto simp: check_split_funds_Inr)
  have need: "?r + (if deactivation_epoch ?d = max_val then unat (delegated ?d) else 0) \<le> unat l"
    using b by (simp add: backed_by_def)
  have amounts: "if n = l then delta = amount \<and> unat amount = unat l - ?r
      else delta = n \<and> unat amount = unat n - (unat sr - unat sl)"
  proof (cases "n = l")
    case False
    have "saturating_sub sr sl \<le> n" using funds(1) by (simp add: word_le_nat_alt word_ops)
    then show ?thesis using a False by (auto simp: split_amounts_def unat_sub_no_wrap word_ops)
  qed (use a in \<open>auto simp: split_amounts_def Let_def word_ops\<close>)
  show "backed_by (Stake m stk') (l - n) len" if "n \<noteq> l"
    using that sp b amounts funds(2) need nl
    by (auto simp: backed_by_def stake_split_Inr unat_sub_no_wrap word_le_nat_alt split: if_splits)
  show "backed_by (Stake (m\<lparr>rent_exempt_reserve := sr\<rparr>) new) (sl + n) len'"
    using sp amounts funds need nl sr sl' len'
    by (auto simp: backed_by_def stake_split_Inr word_le_nat_alt split: if_splits)
qed

lemma backed_atI:
  "deserialize (stake_codec cs) (data (s k)) = Some st \<Longrightarrow> backed_by st (lamports (s k)) (length (data (s k))) \<Longrightarrow>
     backed_at cs s k"
  by (simp add: backed_at_def)

lemma two_backed:
  assumes "stakes_backed cs s" and t: "touches {a, b} s s'" and "backed_at cs s' a" and "backed_at cs s' b"
  shows "stakes_backed cs s'"
  unfolding stakes_backed_def
proof (intro allI impI)
  fix k
  assume o: "owner (s' k) = stake_program_id"
  show "backed_at cs s' k"
  proof (cases "k = a \<or> k = b")
    case False
    with t have e: "s' k = s k" by (simp add: touches_def)
    then have "backed_at cs s' k = backed_at cs s k" by (simp only: backed_at_def)
    with assms(1) o e show ?thesis by (simp add: stakes_backed_def)
  qed (use assms(3,4) in blast)
qed

text \<open>The states of the two accounts between the writing of states and the move of lamports.\<close>

lemma split_states_backed:
  assumes c: "codec_ok (stake_codec cs)" and me: "backed_by st (lamports (s me)) (length (data (s me)))"
    and st: "load_stake cs s me = Inr st" and u: "load_stake cs s split_key = Inr Uninitialized"
    and len: "length (data (s split_key)) = STAKE_STATE_SIZE" and ne: "me \<noteq> split_key"
    and le: "n \<le> lamports (s me)" and fits: "unat (lamports (s split_key)) + unat n < 2 ^ 64"
    and s1: "split_states cs me n split_key signers st s = Inr s1"
  obtains st1 st2 where "load_stake cs s1 me = Inr st1" and "load_stake cs s1 split_key = Inr st2"
    and "n \<noteq> lamports (s me) \<Longrightarrow> backed_by st1 (lamports (s me) - n) (length (data (s me)))"
    and "backed_by st2 (lamports (s split_key) + n) (length (data (s split_key)))"
  using s1
proof (cases rule: split_states_cases)
  case (Stake m stk delta amount stk' new sr s0)
  have me': "backed_by (Stake m stk) (lamports (s me)) (length (data (s me)))" using me Stake(1) by simp
  have sr: "unat sr \<le> unat (rent_exempt_reserve m)"
    using me' unfolding Stake(2) len by (intro split_reserve_le) (simp_all add: backed_by_def)
  have len': "STAKE_STATE_SIZE \<le> length (data (s split_key))" "length (data (s split_key)) < 2 ^ 63"
    using len by (simp_all add: STAKE_STATE_SIZE_def)
  note b = split_stake_backed [OF me' Stake(3) le sr Stake(4,5) fits len']
  have "s1 me = s0 me" using store_stake_frame(1) [OF Stake(7) ne] .
  then have "load_stake cs s1 me = Inr (Stake m stk')"
    using store_stake_reads_back [OF c Stake(6)] by (simp add: load_stake_Inr)
  moreover have "load_stake cs s1 split_key = Inr (Stake (m\<lparr>rent_exempt_reserve := sr\<rparr>) new)"
    using store_stake_reads_back [OF c Stake(7)] by (simp add: load_stake_Inr)
  ultimately show ?thesis using that b by blast
next
  case (Initialized m sr)
  have "s1 me = s me" using store_stake_frame(1) [OF Initialized(3) ne] .
  then have "load_stake cs s1 me = Inr (Initialized m)" using st Initialized(1) by (simp add: load_stake_Inr)
  moreover have "load_stake cs s1 split_key = Inr (Initialized (m\<lparr>rent_exempt_reserve := sr\<rparr>))"
    using store_stake_reads_back [OF c Initialized(3)] by (simp add: load_stake_Inr)
  moreover have "backed_by (Initialized m) (lamports (s me) - n) (length (data (s me)))" if "n \<noteq> lamports (s me)"
    using that Initialized(1,2) me le
    by (auto simp: backed_by_def check_split_funds_Inr unat_sub_no_wrap word_le_nat_alt)
  moreover have "backed_by (Initialized (m\<lparr>rent_exempt_reserve := sr\<rparr>)) (lamports (s split_key) + n)
      (length (data (s split_key)))"
    using Initialized(2) fits len
    by (auto simp: backed_by_def check_split_funds_Inr unat_add_no_wrap STAKE_STATE_SIZE_def)
  ultimately show ?thesis using that by blast
next
  case Uninitialized
  then show ?thesis using that [of Uninitialized Uninitialized] st u by simp
qed

lemma split_backed:
  assumes c: "codec_ok (stake_codec cs)" and s: "stakes_backed cs s"
    and o: "owner (s me) = stake_program_id" "owner (s split_key) = stake_program_id"
    and len: "length (data (s split_key)) = STAKE_STATE_SIZE" and u: "load_stake cs s split_key = Inr Uninitialized"
    and le: "n \<le> lamports (s me)" and st: "load_stake cs s me = Inr st"
    and s1: "split_states cs me n split_key signers st s = Inr s1" and s2: "close_if_emptied cs me n s1 s2"
    and s': "credit_then_debit split_key me n s2 = Inr s'"
  shows "stakes_backed cs s'"
proof (cases "me = split_key")
  case True
  then have "st = Uninitialized" using u st by simp
  with s1 have "s1 = s" by (auto simp: split_states_def elim!: bind_r_InrE)
  moreover have "s' = s2" using s' True by (auto dest: credit_then_debit_same)
  ultimately show ?thesis
    using s2 s store_backed [OF c s, of Uninitialized me s2] by (auto simp: close_if_emptied_def split: if_splits)
next
  case ne: False
  have "touches {me, split_key} s s1" by (rule split_states_touches [OF s1]) simp_all
  moreover have "touches {me, split_key} s1 s2" by (rule close_if_emptied_touches [OF s2]) simp
  moreover have "touches {me, split_key} s2 s'" by (rule credit_then_debit_touches [OF s']) simp_all
  ultimately have t: "touches {me, split_key} s s'" by (blast intro: touches_trans)
  have l1: "lamports (s1 k) = lamports (s k)" and len1: "length (data (s1 k)) = length (data (s k))" for k
    using s1 by (cases rule: split_states_cases; simp add: store_stake_frame)+
  note l2 = close_if_emptied_frame(2) [OF s2, unfolded l1]
    and len2 = close_if_emptied_frame(4) [OF s2, unfolded len1]
  from s' have mv: "move_lamports me split_key n s2 = Inr s'" using credit_then_debit_distinct [OF ne] by simp
  then have fits: "unat (lamports (s split_key)) + unat n < 2 ^ 64"
    and lme: "lamports (s' me) = lamports (s me) - n" and lsp: "lamports (s' split_key) = lamports (s split_key) + n"
    using ne l2 by (auto simp: move_lamports_distinct split: if_splits)
  note d = move_lamports_frame(2) [OF mv]
  obtain st1 st2 where st1: "load_stake cs s1 me = Inr st1" and st2: "load_stake cs s1 split_key = Inr st2"
    and b1: "n \<noteq> lamports (s me) \<Longrightarrow> backed_by st1 (lamports (s me) - n) (length (data (s me)))"
    and b2: "backed_by st2 (lamports (s split_key) + n) (length (data (s split_key)))"
    using split_states_backed [OF c loaded_backed [OF s o(1) st] st u len ne le fits s1] by blast
  have me': "backed_at cs s' me"
  proof (cases "n = lamports (s me)")
    case True
    then have "deserialize (stake_codec cs) (data (s2 me)) = Some Uninitialized"
      using s2 l1 store_stake_reads_back [OF c, of Uninitialized me s1 s2] by (simp add: close_if_emptied_def)
    then show ?thesis using d by (intro backed_atI [of _ _ _ Uninitialized]) simp_all
  next
    case False
    then have "s2 = s1" using s2 l1 by (simp add: close_if_emptied_def)
    with st1 b1 [OF False] d lme len1 show ?thesis by (intro backed_atI [of _ _ _ st1]) (simp_all add: load_stake_Inr)
  qed
  have "s2 split_key = s1 split_key" using close_if_emptied_frame(1) [OF s2 ne [symmetric]] .
  then have "backed_at cs s' split_key"
    using st2 b2 d lsp len1 by (intro backed_atI [of _ _ _ st2]) (simp_all add: load_stake_Inr)
  with me' show ?thesis by (rule two_backed [OF s t])
qed

text \<open>Merging: what each kind says of the account, and what the merged state needs.\<close>

lemma merge_credits_delegated:
  "merge_delegation_stake_and_credits_observed ic n cr stk = Inr stk' \<Longrightarrow>
     unat (delegated (stake_delegation stk')) = unat (delegated (stake_delegation stk)) + unat n
     \<and> deactivation_epoch (stake_delegation stk') = deactivation_epoch (stake_delegation stk)"
  unfolding merge_delegation_stake_and_credits_observed_def
  by (auto simp: checked_add_r_Inr unat_add_no_wrap elim!: bind_r_InrE split: if_splits)

lemma merge_kinds_backed:
  assumes m: "merge_kinds ic kind source_kind oclk = Inr (Some st')"
    and k: "\<And>m stk. kind = ActivationEpoch m stk \<or> kind = FullyActive m stk \<Longrightarrow> backed_by (Stake m stk) l len"
    and sk: "\<And>m stk. source_kind = ActivationEpoch m stk \<or> source_kind = FullyActive m stk \<Longrightarrow> backed_by (Stake m stk) l' len'"
    and i: "\<And>m n. source_kind = Inactive m n \<Longrightarrow> n = l'" and fits: "unat l + unat l' < 2 ^ 64"
  shows "backed_by st' (l + l') len"
  using m
proof (cases rule: merge_kinds_cases)
  case (inactive m stk m' n a)
  with k [of m stk] i [of m' n] fits show ?thesis
    by (simp add: backed_by_def checked_add_r_Inr unat_add_no_wrap split: if_splits)
next
  case (active m stk m' stk' n stk1)
  note d = merge_credits_delegated [OF active(5)]
  have "unat n = unat (rent_exempt_reserve m') + unat (delegated (stake_delegation stk'))"
    using active(4) by (auto simp: checked_add_r_Inr unat_add_no_wrap)
  with k [of m stk] sk [of m' stk'] active(1-3,6) d fits show ?thesis
    by (simp add: backed_by_def unat_add_no_wrap split: if_splits)
next
  case (full m stk m' stk' stk1)
  note d = merge_credits_delegated [OF full(4)]
  with k [of m stk] sk [of m' stk'] full(1-3,5) fits show ?thesis
    by (simp add: backed_by_def unat_add_no_wrap split: if_splits)
qed

lemma merge_backed:
  assumes c: "codec_ok (stake_codec cs)" and s: "stakes_backed cs s" and ne: "source \<noteq> me"
    and o: "owner (s me) = stake_program_id" "owner (s source) = stake_program_id"
    and k: "get_if_mergeable cs me clk history s = Inr kind"
    and sk: "get_if_mergeable cs source clk history s = Inr source_kind"
    and m: "merge_kinds ic kind source_kind oclk = Inr result"
    and s1: "case result of Some st \<Rightarrow> store_stake cs st me s = Inr s1 | None \<Rightarrow> s1 = s"
    and s2: "store_stake cs Uninitialized source s1 = Inr s2"
    and s': "move_lamports source me (lamports (s2 source)) s2 = Inr s'"
  shows "stakes_backed cs s'"
proof -
  obtain st where st: "load_stake cs s me = Inr st"
    and kst: "\<And>m stk. kind = ActivationEpoch m stk \<or> kind = FullyActive m stk \<Longrightarrow> st = Stake m stk"
    using get_if_mergeable_cases [OF k] by metis
  obtain st' where st': "load_stake cs s source = Inr st'"
    and skst: "\<And>m stk. source_kind = ActivationEpoch m stk \<or> source_kind = FullyActive m stk \<Longrightarrow> st' = Stake m stk"
    and si: "\<And>m l. source_kind = Inactive m l \<Longrightarrow> l = lamports (s source)"
    using get_if_mergeable_cases [OF sk] by metis
  note b = loaded_backed [OF s o(1) st] and b' = loaded_backed [OF s o(2) st']
  have f1: "lamports (s1 x) = lamports (s x)" "length (data (s1 x)) = length (data (s x))" for x
    using s1 store_stake_frame(2,4) by (auto split: option.splits)
  note f2 = store_stake_frame(2,4) [OF s2, unfolded f1]
  have "s2 me = s1 me" using store_stake_frame(1) [OF s2 ne [symmetric]] .
  with s' ne have fits: "unat (lamports (s me)) + unat (lamports (s source)) < 2 ^ 64"
    and l: "lamports (s' me) = lamports (s me) + lamports (s source)"
    using f1 f2 by (auto simp: move_lamports_distinct split: if_splits)
  have d: "data (s' me) = data (s1 me)" "data (s' source) = data (s2 source)"
    using move_lamports_frame(2) [OF s'] \<open>s2 me = s1 me\<close> by simp_all
  have "touches {source, me} s s1"
    using s1 by (auto simp: touches_refl intro: store_stake_touches split: option.splits)
  moreover have "touches {source, me} s1 s2" by (rule store_stake_touches [OF s2]) simp
  moreover have "touches {source, me} s2 s'" by (rule move_lamports_touches [OF s']) simp_all
  ultimately have t: "touches {source, me} s s'" by (blast intro: touches_trans)
  have src: "backed_at cs s' source"
    using store_stake_reads_back [OF c s2] d by (intro backed_atI [of _ _ _ Uninitialized]) simp_all
  have me: "backed_at cs s' me"
  proof (cases result)
    case None
    then have "s1 = s" using s1 by simp
    moreover have "lamports (s me) \<le> lamports (s' me)" 
      using unat_add_no_wrap [of "lamports (s me)" "lamports (s source)"] fits by (simp add: l word_le_nat_alt)
    ultimately show ?thesis
      using st b d by (intro backed_atI [of _ _ _ st]) (auto simp: load_stake_Inr intro: backed_by_mono)
  next
    case (Some st1)
    have "backed_by st1 (lamports (s me) + lamports (s source)) (length (data (s me)))"
      by (rule merge_kinds_backed [OF m [unfolded Some], where l' = "lamports (s source)"
            and len' = "length (data (s source))"])
        (use kst skst b b' si fits in blast)+
    then show ?thesis
      using store_stake_reads_back [OF c, of st1 me s s1] s1 Some d l f1
      by (intro backed_atI [of _ _ _ st1]) simp_all
  qed
  show ?thesis by (rule two_backed [OF s t src me])
qed

lemma withdraw_limits_needed:
  assumes "withdraw_limits me clk h sg strict st = Inr (l, reserve, is_staked)" and "clock_epoch clk \<noteq> max_val"
  shows "needed st \<le> unat reserve"
proof (cases st)
  case (Stake m stk)
  let ?d = "stake_delegation stk"
  have "deactivation_epoch ?d = max_val \<Longrightarrow> \<not> deactivation_epoch ?d \<le> clock_epoch clk"
    using assms(2) by (simp add: word_order.extremum_unique)
  then show ?thesis
    using assms(1) Stake by (auto simp: withdraw_limits_def Let_def checked_add_r_Inr unat_add_no_wrap
        elim!: bind_r_InrE split: if_splits)
next
  case (Initialized m)
  then show ?thesis
    using assms(1) by (auto simp: withdraw_limits_def checked_add_r_Inr unat_add_no_wrap
        elim!: bind_r_InrE split: if_splits)
qed simp_all

lemma withdraw_backed:
  assumes c: "codec_ok (stake_codec cs)" and s: "stakes_backed cs s" and o: "owner (s me) = stake_program_id"
    and st: "load_stake cs s me = Inr st" and ep: "clock_epoch clk \<noteq> max_val"
    and lim: "withdraw_limits me clk h sg strict st = Inr (l, reserve, is_staked)"
    and funds: "unat n + unat reserve \<le> unat (lamports (s me)) \<or> (n = lamports (s me) \<and> \<not> is_staked)"
    and s1: "close_if_emptied cs me n s s1" and s': "move_lamports me to_key n s1 = Inr s'"
  shows "stakes_backed cs s'"
proof (cases "n = lamports (s me)")
  case True
  then have r: "store_stake cs Uninitialized me s = Inr s1" using s1 by (simp add: close_if_emptied_def)
  have b: "stakes_backed cs s1" by (rule store_backed [OF c s r]) simp
  show ?thesis
    by (rule move_backed [OF b s']) (use store_stake_reads_back [OF c r] in \<open>simp add: load_stake_Inr\<close>)
next
  case False
  then have "s1 = s" using s1 by (simp add: close_if_emptied_def)
  have "needed st \<le> unat reserve" by (rule withdraw_limits_needed [OF lim ep])
  moreover have "n \<le> lamports (s me)" using funds False by (auto simp: word_le_nat_alt)
  ultimately have b: "backed_by st (lamports (s me) - n) (length (data (s me)))"
    using funds False loaded_backed [OF s o st] by (auto simp: backed_by_def unat_sub_no_wrap)
  show ?thesis by (rule move_backed [OF s s' [unfolded \<open>s1 = s\<close>]]) (use st b in simp)
qed

text \<open>A redelegation that takes back a deactivation, leaving the rest of the stake as it was.\<close>

definition rescinded :: "stake_codecs \<Rightarrow> pubkey \<Rightarrow> store \<Rightarrow> store \<Rightarrow> bool" where
  "rescinded cs me s s' \<longleftrightarrow>
     (\<exists>m stk. load_stake cs s me = Inr (Stake m stk) \<and> deactivation_epoch (stake_delegation stk) \<noteq> max_val
        \<and> store_stake cs (Stake m (stk\<lparr>stake_delegation := (stake_delegation stk)\<lparr>deactivation_epoch := max_val\<rparr>\<rparr>)) me s
            = Inr s')"

lemma redelegate_cases:
  assumes "redelegate n voter vs clk h config v4 stk = Inr stk'"
  obtains "v4" and "stk' = stk\<lparr>stake_delegation := (stake_delegation stk)\<lparr>deactivation_epoch := max_val\<rparr>\<rparr>"
  | "deactivation_epoch (stake_delegation stk') = max_val" and "delegated (stake_delegation stk') = n"
  using assms by (auto simp: redelegate_def Let_def split: if_splits)

lemma stake_effect_backed:
  assumes c: "codec_ok (stake_codec cs)" and s: "stakes_backed cs s" and o: "owner (s me) = stake_program_id"
    and ep: "\<And>clk. deserialize (stake_clock_codec cs) (data (s clock_id)) = Some clk \<Longrightarrow> clock_epoch clk \<noteq> max_val"
    and e: "stake_effect cs v4 keys signers me s s'"
  shows "stakes_backed cs s' \<or> (v4 \<and> rescinded cs me s s')"
  using e
proof cases
  case (initialized m)
  have "stakes_backed cs s'"
    by (rule store_backed [OF c s initialized(4)])
      (use initialized(2,3) in \<open>simp add: backed_by_def word_less_nat_alt STAKE_STATE_SIZE_def\<close>)
  then show ?thesis ..
next
  case (staker_changed st m k)
  have "stakes_backed cs s'"
    by (rule store_backed [OF c s staker_changed(4)])
      (use loaded_backed [OF s o staker_changed(1)] staker_changed(2) in \<open>simp add: backed_by_set_meta\<close>)
  then show ?thesis ..
next
  case (withdrawer_changed st m k)
  have "stakes_backed cs s'"
    by (rule store_backed [OF c s withdrawer_changed(4)])
      (use loaded_backed [OF s o withdrawer_changed(1)] withdrawer_changed(2) in \<open>simp add: backed_by_set_meta\<close>)
  then show ?thesis ..
next
  case (lockup_changed st m l)
  have "stakes_backed cs s'"
    by (rule store_backed [OF c s lockup_changed(4)])
      (use loaded_backed [OF s o lockup_changed(1)] lockup_changed(2) in \<open>simp add: backed_by_set_meta\<close>)
  then show ?thesis ..
next
  case (delegated_anew m voter vs epoch config)
  have "stakes_backed cs s'"
    by (rule store_backed [OF c s delegated_anew(4)])
      (use loaded_backed [OF s o delegated_anew(1)] in
        \<open>simp add: backed_by_def new_stake_def delegation_new_def delegation_default_def word_ops\<close>)
  then show ?thesis ..
next
  case (redelegated m stk voter vs clk history config stk')
  note b = loaded_backed [OF s o redelegated(1)]
  from redelegated(4) show ?thesis
  proof (cases rule: redelegate_cases)
    case 1
    show ?thesis
    proof (cases "deactivation_epoch (stake_delegation stk) = max_val")
      case True
      then have "stk' = stk" using 1(2) by simp
      then have "stakes_backed cs s'" using store_backed [OF c s redelegated(5)] b by simp
      then show ?thesis ..
    next
      case False
      then show ?thesis using 1 redelegated(1,5) by (auto simp: rescinded_def)
    qed
  next
    case 2
    have "stakes_backed cs s'"
      by (rule store_backed [OF c s redelegated(5)]) (use b 2 in \<open>auto simp: backed_by_def word_ops\<close>)
    then show ?thesis ..
  qed
next
  case (deactivated m stk epoch stk')
  have "stakes_backed cs s'"
    by (rule store_backed [OF c s deactivated(4)])
      (use loaded_backed [OF s o deactivated(1)] deactivated(3) in
        \<open>auto simp: backed_by_def stake_deactivate_def split: if_splits\<close>)
  then show ?thesis ..
next
  case (split_off split_key n st s1 s2)
  have "stakes_backed cs s'"
    by (rule split_backed [OF c s o split_off(2-6,8-10)])
  then show ?thesis ..
next
  case (merged source clk history kind source_kind ic oclk result s1 s2)
  have "stakes_backed cs s'"
    by (rule merge_backed [OF c s merged(2) o merged(3-5,8-11)])
  then show ?thesis ..
next
  case (withdrawn st authority clk history strict l reserve is_staked custodian n to_key s1)
  have "stakes_backed cs s'"
    by (rule withdraw_backed [OF c s o withdrawn(1) ep [OF withdrawn(3)] withdrawn(4,7,9,10)])
  then show ?thesis ..
qed

section \<open>The properties\<close>

lemma example_codec_ok: "codec_ok (stake_codec example_stake_codecs)"
  by (simp add: example_stake_codecs_def codec_ok_tagged)

lemma example_backed:
  "1050 \<le> l \<Longrightarrow> stakes_backed example_stake_codecs (example_stake_store l example_stake paid)"
  unfolding stakes_backed_def
proof (intro allI impI)
  fix k
  assume l: "1050 \<le> l" and "owner (example_stake_store l example_stake paid k) = stake_program_id"
  then have k: "k = 3"
    by (auto simp: example_stake_store_def stake_account_with_def account_default_def pubkey_default_def
      stake_program_id_numeral vote_program_id_numeral split: if_splits)
  have "length (data (example_stake_store l example_stake paid 3)) = 200"
    by (simp add: example_stake_store_def stake_account_with_def example_encoding)
  with l show "backed_at example_stake_codecs (example_stake_store l example_stake paid) k"
    using example_load(1) [of l paid] unfolding k
    by (simp add: backed_at_def load_stake_Inr backed_by_def STAKE_STATE_SIZE_def word_le_nat_alt)
qed

lemma example_clock_epoch:
  "deserialize (stake_clock_codec example_stake_codecs) bs = Some clk \<Longrightarrow> clock_epoch clk \<noteq> max_val"
  by (auto simp: example_stake_codecs_def example_clock_def)

text \<open>
  C7: when every account of the stake program holds its reserve and what it delegates and has not
  deactivated, every instruction keeps that, one step excepted: a delegation that takes back a
  deactivation, which the feature \<open>stake_program_v4\<close> allows.
\<close>

theorem stake_backing_preserved:
  assumes "codec_ok (stake_codec cs)" and "stakes_backed cs s"
    and "\<And>clk. deserialize (stake_clock_codec cs) (data (s clock_id)) = Some clk \<Longrightarrow> clock_epoch clk \<noteq> max_val"
    and "stake_process_instruction cs decode ic first bytes s = Inr s'"
  shows "stakes_backed cs s'
    \<or> is_active ic stake_program_v4 \<and> rescinded cs (key (keyed_accounts ic ! first)) s s'"
  using assms(4) by (rule stake_process_instruction_effect) (rule stake_effect_backed [OF assms(1,2) _ assms(3)])

theorem stake_backing_preserved_witness:
  "stakes_backed example_stake_codecs (example_stake_store 1050 deactivated_stake 0)
    \<or> is_active example_stake_context stake_program_v4
      \<and> rescinded example_stake_codecs (key (keyed_accounts example_stake_context ! 0))
          (example_stake_store 1050 example_stake 0) (example_stake_store 1050 deactivated_stake 0)"
  by (rule stake_backing_preserved [OF example_codec_ok example_backed example_clock_epoch])
    (use example_deactivate in simp_all)

text \<open>
  C8: the step that is excepted is a loophole. A stake that is warming up, 1000 lamports of which 100
  are effective, is deactivated; its withdrawer takes out 900 lamports, which are not effective; its
  staker delegates again in the same epoch, and the account, left with 150 lamports, has 1000 lamports
  delegated, all of which count as stake once the epochs of the warm-up have left the stake history.
\<close>

theorem rescind_unbacks_stake:
  "stakes_backed example_stake_codecs (example_stake_store 1050 example_stake 0)
    \<and> run_r example_stake_step [(0, [5]), (2, [4]), (7, [3])] (example_stake_store 1050 example_stake 0)
        = Inr (example_stake_store 150 example_stake 900)
    \<and> \<not> stakes_backed example_stake_codecs (example_stake_store 150 example_stake 900)
    \<and> lamports (example_stake_store 150 example_stake 900 3) = 150
    \<and> load_stake example_stake_codecs (example_stake_store 150 example_stake 900) 3
        = Inr (Stake example_meta example_stake)
    \<and> delegation_stake (stake_delegation example_stake) 600 (Some []) = 1000"
proof (intro conjI)
  let ?s = "example_stake_store 150 example_stake 900"
  show "stakes_backed example_stake_codecs (example_stake_store 1050 example_stake 0)" by (rule example_backed) simp
  show "run_r example_stake_step [(0, [5]), (2, [4]), (7, [3])] (example_stake_store 1050 example_stake 0) = Inr ?s"
    using example_deactivate example_stake_withdraw example_rescind by simp
  show l: "load_stake example_stake_codecs ?s 3 = Inr (Stake example_meta example_stake)" by (rule example_load)
  show "\<not> stakes_backed example_stake_codecs ?s"
    using loaded_backed [OF _ _ l] by (auto simp: backed_by_def)
  have "history_at (Some []) 1 = None"
    using stake_hist.get_entries [of "[]" 1] by (simp add: history_at_def)
  then show "delegation_stake (stake_delegation example_stake) 600 (Some []) = 1000"
    by (simp add: delegation_stake_def stake_activating_and_deactivating_def stake_and_activating_def is_bootstrap_def
        with_effective_def example_stake_def delegation_new_def delegation_default_def)
qed simp

end
