(* ===== verification/Stake_Rewards.thy ===== *)
theory Stake_Rewards
  imports Stake_Backing Vote_Credits
begin

text \<open>
  Rewards of stakes (\<open>programs/stake/src/stake_state.rs\<close>): the points a stake has earned from the
  credits of its vote account, the lamports they are worth, and the payment into the stake account; also
  the accounts that genesis creates. The observers of the computation (\<open>inflation_point_calc_tracer\<close>)
  see values and change none, and are left out.
\<close>

section \<open>The operations\<close>

record point_value =
  pv_rewards :: u64
  pv_points :: u128

text \<open>The credits of one epoch a stake has not been paid for, as the loop computes them.\<close>

definition earned_credits :: "u64 \<Rightarrow> u64 \<Rightarrow> u64 \<Rightarrow> u64 \<Rightarrow> u64" where
  "earned_credits credits_in_stake new_credits_observed final_epoch_credits initial_epoch_credits =
     (if credits_in_stake < initial_epoch_credits then final_epoch_credits - initial_epoch_credits
      else if credits_in_stake < final_epoch_credits then final_epoch_credits - new_credits_observed
      else 0)"

fun points_loop ::
  "stake \<Rightarrow> stake_history option \<Rightarrow> (u64 \<times> u64 \<times> u64) list \<Rightarrow> u128 \<Rightarrow> u64 \<Rightarrow> u128 \<times> u64" where
  "points_loop stk history [] points new_credits_observed = (points, new_credits_observed)"
| "points_loop stk history ((epoch, final_credits, initial_credits) # entries) points new_credits_observed =
     (let stake_amount = ucast (delegation_stake (stake_delegation stk) epoch history) :: u128;
          earned = ucast (earned_credits (credits_observed stk) new_credits_observed final_credits initial_credits) :: u128
      in points_loop stk history entries (points + stake_amount * earned) (max new_credits_observed final_credits))"

definition calculate_stake_points_and_credits ::
  "stake \<Rightarrow> vote_state \<Rightarrow> stake_history option \<Rightarrow> u128 \<times> u64" where
  "calculate_stake_points_and_credits stk vs history =
     (if credits vs \<le> credits_observed stk then (0, credits_observed stk)
      else points_loop stk history (epoch_credits vs) 0 (credits_observed stk))"

definition calculate_stake_points :: "stake \<Rightarrow> vote_state \<Rightarrow> stake_history option \<Rightarrow> u128" where
  "calculate_stake_points stk vs history = fst (calculate_stake_points_and_credits stk vs history)"

definition calculate_stake_rewards ::
  "u64 \<Rightarrow> stake \<Rightarrow> point_value \<Rightarrow> vote_state \<Rightarrow> stake_history option \<Rightarrow> (u64 \<times> u64 \<times> u64) option ix_result" where
  "calculate_stake_rewards rewarded_epoch stk pv vs history =
     (let (points, new_credits_observed) = calculate_stake_points_and_credits stk vs history in
      if pv_rewards pv = 0 \<or> activation_epoch (stake_delegation stk) = rewarded_epoch
      then Inr (Some (0, 0, new_credits_observed))
      else if points = 0 then Inr None
      else if pv_points pv = 0 then Inr None
      else
        bind_r (ok_or (checked_mul points (ucast (pv_rewards pv))) Panicked) (\<lambda>product.
        bind_r (ok_or (checked_div product (pv_points pv)) Panicked) (\<lambda>quotient.
        bind_r (if unat quotient < 2 ^ 64 then Inr (ucast quotient :: u64) else Inl Panicked) (\<lambda>rewards.
        if rewards = 0 then Inr None
        else
          (let (voter_rewards, staker_rewards, is_split) = commission_split vs rewards in
           if (voter_rewards = 0 \<or> staker_rewards = 0) \<and> is_split then Inr None
           else Inr (Some (staker_rewards, voter_rewards, new_credits_observed)))))))"

definition redeem_stake_rewards ::
  "u64 \<Rightarrow> stake \<Rightarrow> point_value \<Rightarrow> vote_state \<Rightarrow> stake_history option \<Rightarrow> ((u64 \<times> u64) \<times> stake) option ix_result" where
  "redeem_stake_rewards rewarded_epoch stk pv vs history =
     bind_r (calculate_stake_rewards rewarded_epoch stk pv vs history) (\<lambda>r.
       Inr (map_option (\<lambda>(stakers_reward, voters_reward, observed).
         ((stakers_reward, voters_reward),
          stk\<lparr>credits_observed := observed,
              stake_delegation := (stake_delegation stk)\<lparr>delegated := delegated (stake_delegation stk) + stakers_reward\<rparr>\<rparr>)) r))"

definition redeem_rewards ::
  "stake_codecs \<Rightarrow> u64 \<Rightarrow> stake_state \<Rightarrow> account \<Rightarrow> vote_state \<Rightarrow> point_value \<Rightarrow> stake_history option
     \<Rightarrow> ((u64 \<times> u64) \<times> account) ix_result" where
  "redeem_rewards cs rewarded_epoch st stake_account vs pv history =
     (case st of
        Stake m stk \<Rightarrow>
          bind_r (redeem_stake_rewards rewarded_epoch stk pv vs history) (\<lambda>r.
          case r of
            Some ((stakers_reward, voters_reward), stk') \<Rightarrow>
              bind_r (map_err lamports_error_into (checked_add_lamports stake_account stakers_reward)) (\<lambda>a.
              bind_r (set_state (stake_codec cs) (Stake m stk') a) (\<lambda>a'.
                Inr ((stakers_reward, voters_reward), a')))
          | None \<Rightarrow> Inl (stake_error_into NoCreditsToRedeem))
      | _ \<Rightarrow> Inl InvalidAccountData)"

definition calculate_points :: "stake_state \<Rightarrow> vote_state \<Rightarrow> stake_history option \<Rightarrow> u128 ix_result" where
  "calculate_points st vs history =
     (case st of
        Stake _ stk \<Rightarrow> Inr (calculate_stake_points stk vs history)
      | _ \<Rightarrow> Inl InvalidAccountData)"

definition new_stake_history_entry :: "u64 \<Rightarrow> delegation list \<Rightarrow> stake_history option \<Rightarrow> stake_history_entry" where
  "new_stake_history_entry epoch ds history =
     fold (\<lambda>d sum. stake_history_entry_add sum (stake_activating_and_deactivating d epoch history)) ds
       stake_history_entry_default"

definition create_lockup_stake_account ::
  "stake_codecs \<Rightarrow> authorized \<Rightarrow> lockup \<Rightarrow> rent \<Rightarrow> u64 \<Rightarrow> account ix_result" where
  "create_lockup_stake_account cs auth l r n =
     (let stake_account = account_new n STAKE_STATE_SIZE stake_program_id;
          reserve = minimum_balance r (length (data stake_account))
      in bind_r (guard_r (reserve \<le> n) Panicked) (\<lambda>_.
         map_err (\<lambda>_. Panicked) (set_state (stake_codec cs)
           (Initialized \<lparr>rent_exempt_reserve = reserve, meta_authorized = auth, meta_lockup = l\<rparr>) stake_account)))"

definition do_create_account ::
  "stake_codecs \<Rightarrow> pubkey \<Rightarrow> pubkey \<Rightarrow> account \<Rightarrow> rent \<Rightarrow> u64 \<Rightarrow> u64 \<Rightarrow> account ix_result" where
  "do_create_account cs auth voter vote_account r n epoch =
     (let stake_account = account_new n STAKE_STATE_SIZE stake_program_id in
      bind_r (ok_or (map_option convert_to_current (deserialize (stake_vote_codec cs) (data vote_account))) Panicked) (\<lambda>vs.
      let reserve = minimum_balance r (length (data stake_account)) in
      map_err (\<lambda>_. Panicked) (set_state (stake_codec cs)
        (Stake ((meta_auto auth)\<lparr>rent_exempt_reserve := reserve\<rparr>)
           (new_stake (n - reserve) voter vs epoch stake_config_default)) stake_account)))"

definition create_stake_account ::
  "stake_codecs \<Rightarrow> pubkey \<Rightarrow> pubkey \<Rightarrow> account \<Rightarrow> rent \<Rightarrow> u64 \<Rightarrow> account ix_result" where
  "create_stake_account cs auth voter vote_account r n = do_create_account cs auth voter vote_account r n max_val"

section \<open>Points are stake times credits\<close>

text \<open>What a stake is owed: in each epoch its stake times the credits beyond those it has observed.\<close>

definition points_owed :: "stake \<Rightarrow> stake_history option \<Rightarrow> (u64 \<times> u64 \<times> u64) list \<Rightarrow> nat" where
  "points_owed stk history ec =
     (\<Sum>(epoch, final_credits, initial_credits)\<leftarrow>ec.
        unat (delegation_stake (stake_delegation stk) epoch history)
          * (unat final_credits - max (unat initial_credits) (unat (credits_observed stk))))"

text \<open>A ledger whose credits never fall.\<close>

definition ledger_rises :: "(u64 \<times> u64 \<times> u64) list \<Rightarrow> bool" where
  "ledger_rises ec \<longleftrightarrow> credits_ok ec \<and> (\<forall>(_, final_credits, initial_credits) \<in> set ec. initial_credits \<le> final_credits)"

lemma points_loop_owed:
  assumes "successively ledger_next ec" and "\<forall>(_, f, i) \<in> set ec. i \<le> f"
    and "nco = credits_observed stk \<or> credits_observed stk < nco \<and> (ec \<noteq> [] \<longrightarrow> snd (snd (hd ec)) = nco)"
  shows "points_loop stk history ec p nco
    = (p + of_nat (points_owed stk history ec), (if ec = [] then nco else max (credits_observed stk) (fst (snd (last ec)))))"
  using assms
proof (induction ec arbitrary: p nco)
  case (Cons x ec)
  obtain e f i where x: "x = (e, f, i)" by (cases x) auto
  let ?obs = "credits_observed stk"
  let ?s = "delegation_stake (stake_delegation stk) e history"
  have le: "i \<le> f" using Cons.prems(2) by (auto simp: x)
  have inv: "nco = ?obs \<or> ?obs < nco \<and> i = nco" using Cons.prems(3) by (simp add: x)
  have earned: "unat (earned_credits ?obs nco f i) = unat f - max (unat i) (unat ?obs)"
    using inv le by (auto simp: earned_credits_def unat_sub_no_wrap word_le_nat_alt word_less_nat_alt max_def)
  have step: "(ucast ?s :: u128) * ucast (earned_credits ?obs nco f i)
      = of_nat (unat ?s * (unat f - max (unat i) (unat ?obs)))"
    unfolding earned [symmetric] by (simp add: unsigned_ucast_eq)
  have rest: "successively ledger_next ec" "\<forall>(_, f, i) \<in> set ec. i \<le> f"
    "ec \<noteq> [] \<Longrightarrow> snd (snd (hd ec)) = f"
    using Cons.prems(1,2) by (auto simp: successively_Cons x ledger_next_def)
  have top: "max nco f = max ?obs f" using inv le by (auto simp: max_def)
  have "max nco f = ?obs \<or> ?obs < max nco f \<and> (ec \<noteq> [] \<longrightarrow> snd (snd (hd ec)) = max nco f)"
    unfolding top using rest(3) by (auto simp: max_def)
  from Cons.IH [OF rest(1,2) this] show ?case
    by (simp add: x Let_def step top points_owed_def add.assoc)
qed (simp add: points_owed_def)

lemma ledger_final_le:
  assumes "successively ledger_next ec" and "\<forall>(_, f, i) \<in> set ec. i \<le> f" and "x \<in> set ec"
  shows "fst (snd x) \<le> fst (snd (last ec))"
  using assms
proof (induction ec arbitrary: x)
  case (Cons y ec)
  show ?case
  proof (cases ec)
    case ne: (Cons z zs)
    have IH: "fst (snd w) \<le> fst (snd (last ec))" if "w \<in> set ec" for w
      using Cons.IH [OF _ _ that] Cons.prems(1,2) by (simp add: ne)
    have "fst (snd y) = snd (snd z)" using Cons.prems(1) by (simp add: ne ledger_next_def)
    also have "\<dots> \<le> fst (snd z)" using Cons.prems(2) by (auto simp: ne split_beta)
    also have "\<dots> \<le> fst (snd (last ec))" by (rule IH) (simp add: ne)
    finally have y: "fst (snd y) \<le> fst (snd (last ec))" .
    show ?thesis
    proof (cases "x = y")
      case False
      with Cons.prems(3) IH [of x] show ?thesis by (simp add: ne)
    qed (use y in \<open>simp add: ne\<close>)
  qed (use Cons.prems in auto)
qed simp

lemma points_and_credits_owed:
  assumes "ledger_rises (epoch_credits vs)"
  shows "calculate_stake_points_and_credits stk vs history
    = (of_nat (points_owed stk history (epoch_credits vs)), max (credits_observed stk) (credits vs))"
proof (cases "credits vs \<le> credits_observed stk")
  case True
  have "unat f - max (unat i) (unat (credits_observed stk)) = 0" if "(e, f, i) \<in> set (epoch_credits vs)" for e f i
  proof -
    have "f \<le> fst (snd (last (epoch_credits vs)))"
      using assms that ledger_final_le [of "epoch_credits vs" "(e, f, i)"] by (simp add: ledger_rises_def credits_ok_def)
    with True that show ?thesis by (auto simp: credits_def word_le_nat_alt split: if_splits)
  qed
  then have "points_owed stk history (epoch_credits vs) = 0"
    unfolding points_owed_def by (auto simp: sum_list_eq_0_iff)
  with True show ?thesis by (simp add: calculate_stake_points_and_credits_def max_def)
next
  case False
  then have "epoch_credits vs \<noteq> []" by (auto simp: credits_def)
  with False assms show ?thesis
    using points_loop_owed [of "epoch_credits vs" "credits_observed stk" stk history 0]
    by (simp add: calculate_stake_points_and_credits_def ledger_rises_def credits_ok_def credits_def)
qed

section \<open>A reward is its share of the whole\<close>

lemma stake_rewards_share:
  assumes le: "unat (calculate_stake_points stk vs h) \<le> unat (pv_points pv)"
    and fits: "unat (calculate_stake_points stk vs h) * unat (pv_rewards pv) < 2 ^ 128"
  obtains r where "calculate_stake_rewards ep stk pv vs h = Inr r"
    and "\<forall>s v c. r = Some (s, v, c) \<longrightarrow>
      unat s + unat v \<le> unat (calculate_stake_points stk vs h) * unat (pv_rewards pv) div unat (pv_points pv)"
proof -
  obtain p c where pc: "calculate_stake_points_and_credits stk vs h = (p, c)"
    by (cases "calculate_stake_points_and_credits stk vs h")
  have p: "calculate_stake_points stk vs h = p" by (simp add: calculate_stake_points_def pc)
  show ?thesis
  proof (cases "pv_rewards pv = 0 \<or> activation_epoch (stake_delegation stk) = ep \<or> p = 0")
    case True
    then show ?thesis
      by (intro that [of "if pv_rewards pv = 0 \<or> activation_epoch (stake_delegation stk) = ep then Some (0, 0, c) else None"])
        (auto simp: calculate_stake_rewards_def pc)
  next
    case False
    then have forced: "\<not> (pv_rewards pv = 0 \<or> activation_epoch (stake_delegation stk) = ep)" and p0: "p \<noteq> 0" by auto
    have P0: "pv_points pv \<noteq> 0" using le p0 by (auto simp: p unat_eq_0)
    let ?R = "ucast (pv_rewards pv) :: u128"
    let ?q = "p * ?R div pv_points pv"
    have R: "unat ?R = unat (pv_rewards pv)" by (simp add: unat_ucast_wider)
    have pR: "unat p * unat ?R < 2 ^ 128" using fits by (simp add: p R)
    have q: "unat ?q = unat p * unat (pv_rewards pv) div unat (pv_points pv)"
      using unat_mul_no_wrap [of p ?R] pR by (simp add: unat_div R)
    also have "\<dots> \<le> unat (pv_points pv) * unat (pv_rewards pv) div unat (pv_points pv)"
      using le by (intro div_le_mono mult_le_mono1) (simp add: p)
    also have "\<dots> = unat (pv_rewards pv)" using P0 by (simp add: unat_eq_0)
    also have "\<dots> < 2 ^ 64" using unat_less_exp [of "pv_rewards pv"] by simp
    finally have small: "unat ?q < 2 ^ 64" .
    let ?w = "ucast ?q :: u64"
    have w: "unat ?w = unat p * unat (pv_rewards pv) div unat (pv_points pv)"
      using small q by (simp add: unat_ucast_fits)
    obtain vr sr b where split: "commission_split vs ?w = (vr, sr, b)" by (cases "commission_split vs ?w") auto
    have "unat vr + unat sr \<le> unat ?w"
      using commission_split_exact [OF split] floor_split(1) [of "min (unat (commission vs)) 100" "unat ?w"] by simp
    moreover have "calculate_stake_rewards ep stk pv vs h
        = Inr (if ?w = 0 then None else if (vr = 0 \<or> sr = 0) \<and> b then None else Some (sr, vr, c))"
      unfolding calculate_stake_rewards_def pc prod.case Let_def
      using forced p0 P0 pR small split by (simp add: checked_mul_def checked_div_def)
    ultimately show ?thesis
      by (intro that) (auto simp: p w split: if_splits)
  qed
qed

text \<open>The points of a loaded stake account, none when it does not delegate.\<close>

definition stake_points :: "stake_state \<Rightarrow> vote_state \<Rightarrow> stake_history option \<Rightarrow> u128" where
  "stake_points st vs h = (case calculate_points st vs h of Inr p \<Rightarrow> p | Inl _ \<Rightarrow> 0)"

lemma redeem_rewards_share:
  assumes le: "unat (stake_points st vs h) \<le> unat (pv_points pv)"
    and fits: "unat (stake_points st vs h) * unat (pv_rewards pv) < 2 ^ 128"
  shows "redeem_rewards cs ep st a vs pv h \<noteq> Inl Panicked"
    and "redeem_rewards cs ep st a vs pv h = Inr ((s, v), a') \<Longrightarrow>
      unat s + unat v \<le> unat (stake_points st vs h) * unat (pv_rewards pv) div unat (pv_points pv)"
proof -
  have "redeem_rewards cs ep st a vs pv h \<noteq> Inl Panicked \<and> (\<forall>s v a'. redeem_rewards cs ep st a vs pv h = Inr ((s, v), a') \<longrightarrow>
      unat s + unat v \<le> unat (stake_points st vs h) * unat (pv_rewards pv) div unat (pv_points pv))"
  proof (cases st)
    case (Stake m stk)
    then have sp: "stake_points st vs h = calculate_stake_points stk vs h" by (simp add: stake_points_def calculate_points_def)
    from le fits obtain r where r: "calculate_stake_rewards ep stk pv vs h = Inr r" "\<forall>s v c. r = Some (s, v, c) \<longrightarrow>
      unat s + unat v \<le> unat (stake_points st vs h) * unat (pv_rewards pv) div unat (pv_points pv)"
      unfolding sp by (rule stake_rewards_share)
    show ?thesis
    proof (cases r)
      case None
      then show ?thesis
        using r by (simp add: Stake redeem_rewards_def redeem_stake_rewards_def instruction_error_from_small)
    next
      case (Some t)
      obtain s v c where t: "t = (s, v, c)" by (cases t)
      show ?thesis
        using r Some
        by (auto simp: Stake t redeem_rewards_def redeem_stake_rewards_def result_simps bind_r_def map_err_def set_state_def Let_def
            checked_add_lamports_def ok_or_def split: sum.splits option.splits if_splits)
    qed
  qed (simp_all add: redeem_rewards_def)
  then show "redeem_rewards cs ep st a vs pv h \<noteq> Inl Panicked"
    and "redeem_rewards cs ep st a vs pv h = Inr ((s, v), a') \<Longrightarrow>
      unat s + unat v \<le> unat (stake_points st vs h) * unat (pv_rewards pv) div unat (pv_points pv)"
    by auto
qed

text \<open>What a payment does to the account.\<close>

lemma redeem_rewards_effect:
  assumes "codec_ok (stake_codec cs)" and "redeem_rewards cs ep st a vs pv h = Inr ((s, v), a')"
  obtains m stk stk' where "st = Stake m stk" and "unat (lamports a) + unat s < 2 ^ 64" and "lamports a' = lamports a + s"
    and "owner a' = owner a" and "length (data a') = length (data a)" and "state (stake_codec cs) a' = Inr (Stake m stk')"
    and "stake_delegation stk' = (stake_delegation stk)\<lparr>delegated := delegated (stake_delegation stk) + s\<rparr>"
proof -
  obtain m stk where st: "st = Stake m stk" using assms(2) by (cases st) (auto simp: redeem_rewards_def)
  from assms(2) obtain stk' a1 where r: "redeem_stake_rewards ep stk pv vs h = Inr (Some ((s, v), stk'))"
    and a1: "checked_add_lamports a s = Inr a1" and a': "set_state (stake_codec cs) (Stake m stk') a1 = Inr a'"
    by (auto simp: st redeem_rewards_def map_err_Inr elim!: bind_r_InrE split: option.splits)
  have d: "stake_delegation stk' = (stake_delegation stk)\<lparr>delegated := delegated (stake_delegation stk) + s\<rparr>"
    using r by (auto simp: redeem_stake_rewards_def elim!: bind_r_InrE)
  show ?thesis
    using a1 set_state_frame [OF a'] set_state_reads_back [OF assms(1) a'] d
    by (intro that [OF st]) (auto simp: checked_add_lamports_Inr state_Inr)
qed

end
