(* ===== verification/Validator_Rewards.thy ===== *)
theory Validator_Rewards
  imports Stakes Stake_Rewards "HOL-Library.Multiset"
begin

text \<open>
  The payment of validator rewards at an epoch boundary (\<open>pay_validator_rewards_with_thread_pool\<close> of
  \<open>runtime/src/bank.rs\<close>): every delegation in the stakes cache is resolved to its stake account and its
  vote account, the points of all of them are summed, and each stake is paid its share, part of it to
  its vote account. Stakes are loaded and paid by a thread pool; each closure is a step, the loading
  takes the delegations in the order of the cache, and the paying takes the loaded stakes in any order,
  the parameter \<open>sched\<close>.
\<close>

section \<open>The state and its accounts\<close>

datatype reward_type = Fee | Rent | Staking | Voting

record reward_info =
  ri_type :: reward_type
  ri_lamports :: int
  ri_post_balance :: u64
  ri_commission :: "u8 option"

record bank =
  bank_accounts :: store
  bank_stakes :: stakes
  bank_rewards :: "(pubkey \<times> reward_info) list"
  bank_features :: "feature set"
  bank_freeze_started :: bool

text \<open>An account without lamports is not there.\<close>

definition get_account :: "store \<Rightarrow> pubkey \<Rightarrow> account option" where
  "get_account s k = (if 0 < lamports (s k) then Some (s k) else None)"

definition bank_store_account :: "vote_codecs \<Rightarrow> stake_codecs \<Rightarrow> pubkey \<Rightarrow> account \<Rightarrow> bank \<Rightarrow> bank ix_result" where
  "bank_store_account vcs cs k a b =
     bind_r (guard_r (\<not> bank_freeze_started b) Panicked) (\<lambda>_.
     bind_r (check_and_store vcs cs (stakes_remove_delegation_if_inactive \<in> bank_features b) k a (bank_stakes b)) (\<lambda>st.
       Inr (b\<lparr>bank_accounts := (bank_accounts b)(k := a), bank_stakes := st\<rparr>)))"

section \<open>Loading\<close>

datatype invalid_cache_entry_reason = Missing | BadState | WrongOwner

type_synonym loaded_stake = "pubkey \<times> stake_state \<times> account"

record vote_with_stake_delegations =
  vws_vote_state :: vote_state
  vws_vote_account :: account
  vws_delegations :: "loaded_stake list"

record load_result =
  lr_votes :: "(pubkey, vote_with_stake_delegations) hash_map"
  lr_invalid_stakes :: "(pubkey, invalid_cache_entry_reason) hash_map"
  lr_invalid_votes :: "(pubkey, invalid_cache_entry_reason) hash_map"

definition invalid_stake :: "pubkey \<Rightarrow> invalid_cache_entry_reason \<Rightarrow> load_result \<Rightarrow> load_result" where
  "invalid_stake k reason r = r\<lparr>lr_invalid_stakes := hm_insert k reason (lr_invalid_stakes r)\<rparr>"

definition invalid_vote :: "pubkey \<Rightarrow> invalid_cache_entry_reason \<Rightarrow> load_result \<Rightarrow> load_result" where
  "invalid_vote v reason r = r\<lparr>lr_invalid_votes := hm_insert v reason (lr_invalid_votes r)\<rparr>"

definition push_delegation :: "stake_codecs \<Rightarrow> store \<Rightarrow> pubkey \<Rightarrow> loaded_stake \<Rightarrow> load_result \<Rightarrow> load_result" where
  "push_delegation cs s v loaded_delegation r =
     (case map_of (lr_votes r) v of
        Some e \<Rightarrow>
          r\<lparr>lr_votes := hm_insert v (e\<lparr>vws_delegations := vws_delegations e @ [loaded_delegation]\<rparr>) (lr_votes r)\<rparr>
      | None \<Rightarrow>
          (case get_account s v of
             None \<Rightarrow> invalid_vote v Missing r
           | Some vote_account \<Rightarrow>
               if owner vote_account \<noteq> vote_program_id then invalid_vote v WrongOwner r
               else
                 (case state (stake_vote_codec cs) vote_account of
                    Inl _ \<Rightarrow> invalid_vote v BadState r
                  | Inr versions \<Rightarrow>
                      r\<lparr>lr_votes := hm_insert v \<lparr>vws_vote_state = convert_to_current versions,
                         vws_vote_account = vote_account, vws_delegations = [loaded_delegation]\<rparr> (lr_votes r)\<rparr>)))"

definition load_delegation :: "stake_codecs \<Rightarrow> store \<Rightarrow> pubkey \<times> delegation \<Rightarrow> load_result \<Rightarrow> load_result" where
  "load_delegation cs s kd r =
     (let k = fst kd; v = voter_pubkey (snd kd) in
      if map_of (lr_invalid_votes r) v \<noteq> None then r
      else
        (case get_account s k of
           None \<Rightarrow> invalid_stake k Missing r
         | Some stake_account \<Rightarrow>
             if owner stake_account \<noteq> stake_program_id then invalid_stake k WrongOwner r
             else
               (case state (stake_codec cs) stake_account of
                  Inl _ \<Rightarrow> invalid_stake k BadState r
                | Inr st \<Rightarrow> push_delegation cs s v (k, st, stake_account) r)))"

definition load_vote_and_stake_accounts :: "stake_codecs \<Rightarrow> store \<Rightarrow> (pubkey, delegation) hash_map \<Rightarrow> load_result" where
  "load_vote_and_stake_accounts cs s ds =
     fold (load_delegation cs s) ds \<lparr>lr_votes = [], lr_invalid_stakes = [], lr_invalid_votes = []\<rparr>"

section \<open>Paying\<close>

definition total_points :: "stake_history \<Rightarrow> (pubkey, vote_with_stake_delegations) hash_map \<Rightarrow> u128" where
  "total_points h m =
     sum_list (map (\<lambda>(_, e).
       sum_list (map (\<lambda>(_, st, _).
         (case calculate_points st (vws_vote_state e) (Some h) of Inr p \<Rightarrow> p | Inl _ \<Rightarrow> 0)) (vws_delegations e))) m)"

type_synonym payable_stake = "pubkey \<times> vote_state \<times> loaded_stake"
type_synonym vote_reward = "account \<times> u8 \<times> u64 \<times> bool"

definition payable_stakes :: "(pubkey, vote_with_stake_delegations) hash_map \<Rightarrow> payable_stake list" where
  "payable_stakes m = concat (map (\<lambda>(v, e). map (\<lambda>d. (v, vws_vote_state e, d)) (vws_delegations e)) m)"

definition initial_vote_rewards :: "(pubkey, vote_with_stake_delegations) hash_map \<Rightarrow> (pubkey, vote_reward) hash_map" where
  "initial_vote_rewards m = map (\<lambda>(v, e). (v, vws_vote_account e, commission (vws_vote_state e), 0, False)) m"

definition pay_stake ::
  "vote_codecs \<Rightarrow> stake_codecs \<Rightarrow> u64 \<Rightarrow> point_value \<Rightarrow> stake_history \<Rightarrow> payable_stake
     \<Rightarrow> (pubkey, vote_reward) hash_map \<times> bank \<times> (pubkey \<times> reward_info) list
     \<Rightarrow> ((pubkey, vote_reward) hash_map \<times> bank \<times> (pubkey \<times> reward_info) list) ix_result" where
  "pay_stake vcs cs rewarded_epoch pv h p acc =
     (case (p, acc) of ((v, vs, k, st, stake_account), (vote_sums, b, stake_rewards)) \<Rightarrow>
      (case redeem_rewards cs rewarded_epoch st stake_account vs pv (Some h) of
         Inl e \<Rightarrow> if e = Panicked then Inl Panicked else Inr (vote_sums, b, stake_rewards)
       | Inr ((stakers_reward, voters_reward), stake_account') \<Rightarrow>
           (let vote_sums' = (case map_of vote_sums v of
                  Some (vote_account, c, vote_rewards_sum, _) \<Rightarrow>
                    hm_insert v (vote_account, c, saturating_add vote_rewards_sum voters_reward, True) vote_sums
                | None \<Rightarrow> vote_sums)
            in bind_r (bank_store_account vcs cs k stake_account' b) (\<lambda>b'.
                 Inr (vote_sums', b',
                   (if 0 < stakers_reward
                    then stake_rewards @ [(k, \<lparr>ri_type = Staking, ri_lamports = sint stakers_reward,
                      ri_post_balance = lamports stake_account', ri_commission = Some (commission vs)\<rparr>)]
                    else stake_rewards))))))"

definition pay_vote ::
  "vote_codecs \<Rightarrow> stake_codecs \<Rightarrow> pubkey \<times> vote_reward \<Rightarrow> bank \<times> (pubkey \<times> reward_info) list
     \<Rightarrow> (bank \<times> (pubkey \<times> reward_info) list) ix_result" where
  "pay_vote vcs cs p acc =
     (case (p, acc) of ((v, vote_account, c, vote_rewards, vote_needs_store), (b, rewards)) \<Rightarrow>
      (case checked_add_lamports vote_account vote_rewards of
         Inl _ \<Rightarrow> Inr (b, rewards)
       | Inr vote_account' \<Rightarrow>
           bind_r (if vote_needs_store then bank_store_account vcs cs v vote_account' b else Inr b) (\<lambda>b'.
             Inr (b',
               (if 0 < vote_rewards
                then rewards @ [(v, \<lparr>ri_type = Voting, ri_lamports = sint vote_rewards,
                  ri_post_balance = lamports vote_account', ri_commission = Some c\<rparr>)]
                else rewards)))))"

text \<open>The result is the value of a point, none when there are no points.\<close>

definition pay_validator_rewards ::
  "vote_codecs \<Rightarrow> stake_codecs \<Rightarrow> (payable_stake list \<Rightarrow> payable_stake list) \<Rightarrow> u64 \<Rightarrow> u64 \<Rightarrow> bank
     \<Rightarrow> (point_value option \<times> bank) ix_result" where
  "pay_validator_rewards vcs cs sched rewarded_epoch rewards b =
     (let h = st_history (bank_stakes b);
          loaded = load_vote_and_stake_accounts cs (bank_accounts b) (st_stake_delegations (bank_stakes b));
          m = lr_votes loaded
      in
      bind_r (handle_invalid_keys vcs (map fst (lr_invalid_stakes loaded)) (map fst (lr_invalid_votes loaded))
        (evict_invalid_stakes_cache_entries \<in> bank_features b) (bank_stakes b)) (\<lambda>st.
      let b1 = b\<lparr>bank_stakes := st\<rparr>; points = total_points h m in
      if points = 0 then Inr (None, b1)
      else
        (let pv = \<lparr>pv_rewards = rewards, pv_points = points\<rparr> in
         bind_r (run_r (pay_stake vcs cs rewarded_epoch pv h) (sched (payable_stakes m)) (initial_vote_rewards m, b1, []))
           (\<lambda>(vote_sums, b2, stake_rewards).
         bind_r (run_r (pay_vote vcs cs) vote_sums (b2, [])) (\<lambda>(b3, vote_rewards).
           Inr (Some pv, b3\<lparr>bank_rewards := bank_rewards b3 @ vote_rewards @ stake_rewards\<rparr>))))))"

section \<open>What is loaded\<close>

definition stake_loaded :: "stake_codecs \<Rightarrow> store \<Rightarrow> loaded_stake \<Rightarrow> bool" where
  "stake_loaded cs s l \<longleftrightarrow> (case l of (k, st, a) \<Rightarrow>
     s k = a \<and> 0 < lamports a \<and> owner a = stake_program_id \<and> state (stake_codec cs) a = Inr st)"

definition vote_loaded :: "stake_codecs \<Rightarrow> store \<Rightarrow> pubkey \<Rightarrow> vote_with_stake_delegations \<Rightarrow> bool" where
  "vote_loaded cs s v e \<longleftrightarrow> s v = vws_vote_account e \<and> owner (vws_vote_account e) = vote_program_id
     \<and> (\<forall>l \<in> set (vws_delegations e). stake_loaded cs s l)"

definition loaded_ok :: "stake_codecs \<Rightarrow> store \<Rightarrow> (pubkey, vote_with_stake_delegations) hash_map \<Rightarrow> bool" where
  "loaded_ok cs s m \<longleftrightarrow> hm_ok m \<and> (\<forall>v e. map_of m v = Some e \<longrightarrow> vote_loaded cs s v e)"

definition loaded_count :: "pubkey \<Rightarrow> (pubkey, vote_with_stake_delegations) hash_map \<Rightarrow> nat" where
  "loaded_count k m = hm_total (\<lambda>_ e. count_list (map fst (vws_delegations e)) k) m"

lemma push_delegation_ok:
  assumes r: "loaded_ok cs s (lr_votes r)" and l: "stake_loaded cs s l"
  shows "loaded_ok cs s (lr_votes (push_delegation cs s v l r))"
    and "loaded_count k (lr_votes (push_delegation cs s v l r)) \<le> loaded_count k (lr_votes r) + (if k = fst l then 1 else 0)"
proof -
  have ok: "hm_ok (lr_votes r)" using r by (simp add: loaded_ok_def)
  have "loaded_ok cs s (lr_votes (push_delegation cs s v l r)) \<and>
      loaded_count k (lr_votes (push_delegation cs s v l r)) \<le> loaded_count k (lr_votes r) + (if k = fst l then 1 else 0)"
  proof (cases "map_of (lr_votes r) v")
    case None
    then show ?thesis
      using r l ok
      by (auto simp: push_delegation_def loaded_ok_def invalid_vote_def get_account_def vote_loaded_def
          hm.lookup_insert hm.invar_insert loaded_count_def hm_total_insert_new split: option.splits sum.splits if_splits)
  next
    case (Some e)
    let ?e = "e\<lparr>vws_delegations := vws_delegations e @ [l]\<rparr>"
    have "loaded_count k (hm_insert v ?e (lr_votes r)) = loaded_count k (lr_votes r) + (if k = fst l then 1 else 0)"
      using hm.total_update [OF ok, of "\<lambda>_ e. count_list (map fst (vws_delegations e)) k" v ?e] Some
      by (simp add: loaded_count_def)
    moreover have "vote_loaded cs s v e" using r Some by (simp add: loaded_ok_def)
    then have "vote_loaded cs s v ?e" using l by (simp add: vote_loaded_def)
    ultimately show ?thesis
      using r Some ok by (simp add: push_delegation_def loaded_ok_def hm.lookup_insert hm.invar_insert)
  qed
  then show "loaded_ok cs s (lr_votes (push_delegation cs s v l r))"
    and "loaded_count k (lr_votes (push_delegation cs s v l r)) \<le> loaded_count k (lr_votes r) + (if k = fst l then 1 else 0)"
    by auto
qed

lemma load_delegation_ok:
  assumes r: "loaded_ok cs s (lr_votes r)"
  shows "loaded_ok cs s (lr_votes (load_delegation cs s kd r))"
    and "loaded_count k (lr_votes (load_delegation cs s kd r)) \<le> loaded_count k (lr_votes r) + (if k = fst kd then 1 else 0)"
proof -
  define P where "P r' \<longleftrightarrow> loaded_ok cs s (lr_votes r') \<and>
    loaded_count k (lr_votes r') \<le> loaded_count k (lr_votes r) + (if k = fst kd then 1 else 0)" for r' :: load_result
  have "P (push_delegation cs s v (fst kd, st, s (fst kd)) r)" if "stake_loaded cs s (fst kd, st, s (fst kd))" for st v
    unfolding P_def using push_delegation_ok [OF r that] by simp
  moreover have "P r" "\<And>k reason. P (invalid_stake k reason r)" using r by (auto simp: P_def invalid_stake_def)
  ultimately have "P (load_delegation cs s kd r)"
    unfolding load_delegation_def Let_def get_account_def by (auto simp: stake_loaded_def split: option.split sum.split)
  then show "loaded_ok cs s (lr_votes (load_delegation cs s kd r))"
    and "loaded_count k (lr_votes (load_delegation cs s kd r)) \<le> loaded_count k (lr_votes r) + (if k = fst kd then 1 else 0)"
    unfolding P_def by auto
qed

lemma load_all_ok:
  "loaded_ok cs s (lr_votes (load_vote_and_stake_accounts cs s ds))"
  "loaded_count k (lr_votes (load_vote_and_stake_accounts cs s ds)) \<le> count_list (map fst ds) k"
proof -
  have "loaded_ok cs s (lr_votes (fold (load_delegation cs s) ds r)) \<and>
      loaded_count k (lr_votes (fold (load_delegation cs s) ds r)) \<le> loaded_count k (lr_votes r) + count_list (map fst ds) k"
    if "loaded_ok cs s (lr_votes r)" for r
    using that
  proof (induction ds arbitrary: r)
    case (Cons kd ds)
    from Cons.IH [OF load_delegation_ok(1) [OF Cons.prems, of kd]] load_delegation_ok(2) [OF Cons.prems, of k kd]
    show ?case by (auto split: if_splits)
  qed simp
  from this [of "\<lparr>lr_votes = [], lr_invalid_stakes = [], lr_invalid_votes = []\<rparr>"]
  show "loaded_ok cs s (lr_votes (load_vote_and_stake_accounts cs s ds))"
    "loaded_count k (lr_votes (load_vote_and_stake_accounts cs s ds)) \<le> count_list (map fst ds) k"
    by (simp_all add: load_vote_and_stake_accounts_def loaded_ok_def loaded_count_def)
qed

text \<open>What is to be paid: every stake at most once, with its vote account.\<close>

abbreviation payable_key :: "payable_stake \<Rightarrow> pubkey" where
  "payable_key p \<equiv> fst (snd (snd p))"

lemma count_payable: "count_list (map payable_key (payable_stakes m)) k = loaded_count k m"
  by (induction m) (auto simp: payable_stakes_def loaded_count_def comp_def split_beta)

lemma distinct_count_list: "distinct xs \<longleftrightarrow> (\<forall>x. count_list xs x \<le> 1)"
proof (induction xs)
  case (Cons y xs)
  have "count_list xs y = 0 \<longleftrightarrow> y \<notin> set xs" by (rule count_list_0_iff)
  with Cons show ?case by (auto simp: not_less_eq_eq le_Suc_eq)
qed simp

lemma distinct_payable:
  assumes "hm_ok ds"
  shows "distinct (map payable_key (payable_stakes (lr_votes (load_vote_and_stake_accounts cs s ds))))"
proof -
  have "count_list (map fst ds) k \<le> 1" for k using assms by (simp add: hm_ok_def distinct_count_list)
  then have "count_list (map payable_key (payable_stakes (lr_votes (load_vote_and_stake_accounts cs s ds)))) k \<le> 1" for k
    using load_all_ok(2) [of k cs s ds] by (simp add: count_payable) (meson le_trans)
  then show ?thesis by (simp add: distinct_count_list)
qed

section \<open>What is paid\<close>

text \<open>The cache and the accounts agree: every delegation in the cache is that of a stake account.\<close>

definition cache_agrees :: "stake_codecs \<Rightarrow> bank \<Rightarrow> bool" where
  "cache_agrees cs b \<longleftrightarrow> (\<forall>k d. map_of (st_stake_delegations (bank_stakes b)) k = Some d \<longrightarrow>
     0 < lamports (bank_accounts b k) \<and> owner (bank_accounts b k) = stake_program_id
     \<and> delegation_from cs (bank_accounts b k) = Some d)"

definition payable_bank :: "vote_codecs \<Rightarrow> stake_codecs \<Rightarrow> bank \<Rightarrow> bool" where
  "payable_bank vcs cs b \<longleftrightarrow> stakes_ok vcs (bank_stakes b) \<and> cache_agrees cs b \<and> \<not> bank_freeze_started b
     \<and> stakes_remove_delegation_if_inactive \<in> bank_features b"

abbreviation bank_delegated :: "bank \<Rightarrow> nat" where
  "bank_delegated b \<equiv> all_delegated (st_stake_delegations (bank_stakes b))"

lemma bank_store_stake:
  assumes b: "payable_bank vcs cs b" and o: "owner a = stake_program_id" and l: "0 < lamports a"
    and old: "map_of (st_stake_delegations (bank_stakes b)) k = Some d" and new: "delegation_from cs a = Some d'"
    and paid: "delegated d' = delegated d + s" and fits: "bank_delegated b + unat s < 2 ^ 64"
  obtains b' where "bank_store_account vcs cs k a b = Inr b'" and "payable_bank vcs cs b'"
    and "bank_accounts b' = (bank_accounts b)(k := a)" and "bank_delegated b' = bank_delegated b + unat s"
    and "\<And>k'. k' \<noteq> k \<Longrightarrow> map_of (st_stake_delegations (bank_stakes b')) k' = map_of (st_stake_delegations (bank_stakes b)) k'"
proof -
  let ?ds = "st_stake_delegations (bank_stakes b)"
  have ok: "stakes_ok vcs (bank_stakes b)" "hm_ok ?ds" using b by (simp_all add: payable_bank_def stakes_ok_def tracks_def)
  have "unat (delegated d) \<le> all_delegated ?ds" unfolding all_delegated_def by (rule hm.total_member [OF ok(2) old])
  then have u: "unat (delegated d') = unat (delegated d) + unat s" unfolding paid using fits by (intro unat_add_no_wrap) simp
  have after: "delegations_after cs (Stored k a) ?ds = hm_insert k d' ?ds" using o new by (simp add: replaced_def)
  have total: "all_delegated (hm_insert k d' ?ds) = all_delegated ?ds + unat s"
    using hm.total_update [OF ok(2), of "\<lambda>_ d. unat (delegated d)" k d'] old u by (simp add: all_delegated_def)
  have "admissible cs (Stored k a)" using l by auto
  moreover have "fits cs (Stored k a) (bank_stakes b)" using total fits by (simp only: fits_def after)
  ultimately obtain st' where st': "check_and_store vcs cs True k a (bank_stakes b) = Inr st'" "stakes_ok vcs st'"
    "st_stake_delegations st' = hm_insert k d' ?ds"
    using stored_ok [OF ok(1), of cs k a] unfolding after by blast
  have "cache_agrees cs (b\<lparr>bank_accounts := (bank_accounts b)(k := a), bank_stakes := st'\<rparr>)"
    using b o l new st'(3) by (simp add: payable_bank_def cache_agrees_def hm.lookup_insert)
  then show ?thesis
    using b st' total
    by (intro that [of "b\<lparr>bank_accounts := (bank_accounts b)(k := a), bank_stakes := st'\<rparr>"])
      (simp_all add: bank_store_account_def payable_bank_def hm.lookup_insert)
qed

lemma bank_store_vote:
  assumes b: "payable_bank vcs cs b" and o: "owner a = vote_program_id" and old: "owner (bank_accounts b k) = vote_program_id"
  obtains b' where "bank_store_account vcs cs k a b = Inr b'" and "payable_bank vcs cs b'"
    and "bank_accounts b' = (bank_accounts b)(k := a)"
    and "st_stake_delegations (bank_stakes b') = st_stake_delegations (bank_stakes b)"
proof -
  have ok: "stakes_ok vcs (bank_stakes b)" using b by (simp add: payable_bank_def)
  have "admissible cs (Stored k a)" "fits cs (Stored k a) (bank_stakes b)"
    using o ok distinct_programs by (simp_all add: fits_def stakes_ok_def)
  then obtain st' where st': "check_and_store vcs cs True k a (bank_stakes b) = Inr st'" "stakes_ok vcs st'"
    "st_stake_delegations st' = delegations_after cs (Stored k a) (st_stake_delegations (bank_stakes b))"
    using stored_ok [OF ok] by blast
  have "cache_agrees cs (b\<lparr>bank_accounts := (bank_accounts b)(k := a), bank_stakes := st'\<rparr>)"
    using b o old st'(3) distinct_programs
    by (cases "map_of (st_stake_delegations (bank_stakes b)) k") (auto simp: payable_bank_def cache_agrees_def)
  with st' show ?thesis
    using b o distinct_programs
    by (intro that [of "b\<lparr>bank_accounts := (bank_accounts b)(k := a), bank_stakes := st'\<rparr>"])
      (simp_all add: bank_store_account_def payable_bank_def)
qed

text \<open>The share of a stake, and what is owed to all vote accounts.\<close>

definition share :: "point_value \<Rightarrow> stake_history \<Rightarrow> payable_stake \<Rightarrow> nat" where
  "share pv h p = (case p of (_, vs, _, st, _) \<Rightarrow>
     unat (stake_points st vs (Some h)) * unat (pv_rewards pv) div unat (pv_points pv))"

definition owed :: "(pubkey, vote_reward) hash_map \<Rightarrow> nat" where
  "owed m = hm_total (\<lambda>_ (_, _, n, _). unat n) m"

text \<open>The accounts of the vote sums are those in the store.\<close>

definition vote_sums_ok :: "store \<Rightarrow> (pubkey, vote_reward) hash_map \<Rightarrow> bool" where
  "vote_sums_ok s m \<longleftrightarrow> hm_ok m \<and> (\<forall>v a c n b. map_of m v = Some (a, c, n, b) \<longrightarrow> s v = a \<and> owner a = vote_program_id)"

lemma vote_sums_okD:
  "vote_sums_ok s m \<Longrightarrow> map_of m v = Some (a, c, n, b) \<Longrightarrow> s v = a \<and> owner a = vote_program_id"
  unfolding vote_sums_ok_def by blast

lemma vote_sums_ok_Cons:
  assumes "vote_sums_ok s ((v, e) # m)"
  shows "v \<notin> fst ` set m" and "vote_sums_ok s m"
proof -
  have d: "v \<notin> fst ` set m" "hm_ok m" using assms by (simp_all add: vote_sums_ok_def hm_ok_def)
  have "s u = a \<and> owner a = vote_program_id" if u: "map_of m u = Some (a, c, n, b)" for u a c n b
  proof (rule vote_sums_okD [OF assms])
    have "u \<noteq> v" using u d(1) by (metis domI dom_map_of_conv_image_fst)
    then show "map_of ((v, e) # m) u = Some (a, c, n, b)" using u by simp
  qed
  with d show "v \<notin> fst ` set m" and "vote_sums_ok s m" unfolding vote_sums_ok_def by blast+
qed

lemma vote_sums_ok_cong:
  assumes "vote_sums_ok s m" and "\<And>v. v \<in> fst ` set m \<Longrightarrow> s' v = s v"
  shows "vote_sums_ok s' m"
  using assms unfolding vote_sums_ok_def by (metis domI dom_map_of_conv_image_fst)

definition add_vote_sum :: "pubkey \<Rightarrow> u64 \<Rightarrow> (pubkey, vote_reward) hash_map \<Rightarrow> (pubkey, vote_reward) hash_map" where
  "add_vote_sum v n m = (case map_of m v of
     Some (a, c, t, _) \<Rightarrow> hm_insert v (a, c, saturating_add t n, True) m | None \<Rightarrow> m)"

lemma add_vote_sum_ok:
  assumes "vote_sums_ok s m"
  shows "vote_sums_ok s (add_vote_sum v n m)" and "owed (add_vote_sum v n m) \<le> owed m + unat n"
proof -
  have ok: "hm_ok m" using assms by (simp add: vote_sums_ok_def)
  show "vote_sums_ok s (add_vote_sum v n m)"
    using assms by (auto simp: vote_sums_ok_def add_vote_sum_def hm.lookup_insert hm.invar_insert split: option.split if_splits)
  show "owed (add_vote_sum v n m) \<le> owed m + unat n"
  proof (cases "map_of m v")
    case (Some e)
    obtain a c t b where e: "e = (a, c, t, b)" by (cases e)
    have "unat (saturating_add t n) \<le> unat t + unat n" by (simp add: unat_saturating_add)
    then show ?thesis
      using hm.total_update [OF ok, of "\<lambda>_ (_, _, n, _). unat n" v "(a, c, saturating_add t n, True)"] Some
      by (simp add: add_vote_sum_def owed_def e)
  qed (simp add: add_vote_sum_def)
qed

text \<open>
  \<open>pays K n s s'\<close>: between the two stores only accounts in \<open>K\<close> changed, none lost lamports, and any set
  that includes \<open>K\<close> gained \<open>n\<close>.
\<close>

definition pays :: "pubkey set \<Rightarrow> nat \<Rightarrow> store \<Rightarrow> store \<Rightarrow> bool" where
  "pays K n s s' \<longleftrightarrow> (\<forall>k. k \<notin> K \<longrightarrow> s' k = s k) \<and> (\<forall>k. lamports (s k) \<le> lamports (s' k))
     \<and> (\<forall>L. finite L \<longrightarrow> K \<subseteq> L \<longrightarrow> total_lamports L s' = total_lamports L s + n)"

lemma pays_refl: "pays K 0 s s"
  by (simp add: pays_def)

lemma pays_trans: "pays K m s t \<Longrightarrow> pays L n t u \<Longrightarrow> pays (K \<union> L) (m + n) s u"
  unfolding pays_def by (auto intro: order_trans)

lemma pays_one:
  assumes "unat (lamports (s k)) + unat n < 2 ^ 64" and "lamports a = lamports (s k) + n"
  shows "pays {k} (unat n) s (s(k := a))"
proof -
  have u: "unat (lamports a) = unat (lamports (s k)) + unat n" using assms unat_add_no_wrap [of "lamports (s k)" n] by simp
  have "total_lamports L (s(k := a)) = total_lamports L s + unat n" if "finite L" "k \<in> L" for L
    using total_lamports_upd [OF that, of s a] u by simp
  with u show ?thesis by (simp add: pays_def word_le_nat_alt)
qed

text \<open>What paying one stake needs of it.\<close>

definition stake_payable :: "stake_codecs \<Rightarrow> point_value \<Rightarrow> stake_history \<Rightarrow> bank \<Rightarrow> payable_stake \<Rightarrow> bool" where
  "stake_payable cs pv h b p \<longleftrightarrow> (case p of (v, vs, k, st, a) \<Rightarrow>
     stake_loaded cs (bank_accounts b) (k, st, a)
     \<and> (\<exists>d. map_of (st_stake_delegations (bank_stakes b)) k = Some d \<and> state_delegation st = Some d)
     \<and> unat (stake_points st vs (Some h)) \<le> unat (pv_points pv)
     \<and> unat (stake_points st vs (Some h)) * unat (pv_rewards pv) < 2 ^ 128)"

lemma pay_stake_ok:
  assumes c: "codec_ok (stake_codec cs)" and b: "payable_bank vcs cs b" and m: "vote_sums_ok (bank_accounts b) m"
    and p: "stake_payable cs pv h b p" and fits: "bank_delegated b + share pv h p < 2 ^ 64"
  obtains m' b' rs' n where "pay_stake vcs cs ep pv h p (m, b, rs) = Inr (m', b', rs')"
    and "payable_bank vcs cs b'" and "vote_sums_ok (bank_accounts b') m'" and "owed m' + n \<le> owed m + share pv h p"
    and "bank_delegated b' = bank_delegated b + n" and "pays {payable_key p} n (bank_accounts b) (bank_accounts b')"
    and "\<forall>k. k \<noteq> payable_key p \<longrightarrow>
      map_of (st_stake_delegations (bank_stakes b')) k = map_of (st_stake_delegations (bank_stakes b)) k"
    and "n \<le> share pv h p"
proof -
  obtain v vs k st a where pe: "p = (v, vs, k, st, a)" by (cases p) auto
  obtain d where l: "stake_loaded cs (bank_accounts b) (k, st, a)"
    and d: "map_of (st_stake_delegations (bank_stakes b)) k = Some d" "state_delegation st = Some d"
    and pts: "unat (stake_points st vs (Some h)) \<le> unat (pv_points pv)"
      "unat (stake_points st vs (Some h)) * unat (pv_rewards pv) < 2 ^ 128"
    using p by (auto simp: stake_payable_def pe)
  note safe = redeem_rewards_share [OF pts]
  show ?thesis
  proof (cases "redeem_rewards cs ep st a vs pv (Some h)")
    case (Inl e)
    with safe(1) [of cs ep a] have "pay_stake vcs cs ep pv h p (m, b, rs) = Inr (m, b, rs)" by (auto simp: pay_stake_def pe)
    with b m show ?thesis by (intro that [of m b rs 0]) (simp_all add: pays_refl)
  next
    case (Inr r)
    obtain s w a' where r: "r = ((s, w), a')" by (cases r) auto
    note redeemed = Inr [unfolded r]
    have sh: "unat s + unat w \<le> share pv h p" using safe(2) [OF redeemed] by (simp add: share_def pe)
    from c redeemed obtain mt stk stk' where eff: "st = Stake mt stk" "unat (lamports a) + unat s < 2 ^ 64"
      "lamports a' = lamports a + s" "owner a' = owner a" "state (stake_codec cs) a' = Inr (Stake mt stk')"
      "stake_delegation stk' = (stake_delegation stk)\<lparr>delegated := delegated (stake_delegation stk) + s\<rparr>"
      by (rule redeem_rewards_effect)
    have a: "bank_accounts b k = a" "0 < lamports a" "owner a = stake_program_id" using l by (simp_all add: stake_loaded_def)
    have "0 < lamports a'"
      using eff(2,3) a(2) unat_add_no_wrap [of "lamports a" s] by (simp add: word_less_nat_alt)
    moreover have "delegation_from cs a' = Some (stake_delegation stk')" using eff(5) by (simp add: delegation_from_def)
    moreover have "delegated (stake_delegation stk') = delegated d + s" using eff(1,6) d(2) by simp
    moreover have "bank_delegated b + unat s < 2 ^ 64" using fits sh by simp
    ultimately obtain b' where b': "bank_store_account vcs cs k a' b = Inr b'" "payable_bank vcs cs b'"
      "bank_accounts b' = (bank_accounts b)(k := a')" "bank_delegated b' = bank_delegated b + unat s"
      "\<forall>k'. k' \<noteq> k \<longrightarrow> map_of (st_stake_delegations (bank_stakes b')) k' = map_of (st_stake_delegations (bank_stakes b)) k'"
      using bank_store_stake [OF b _ _ d(1), of a' "stake_delegation stk'" s] eff(4) a(3) by metis
    have pay: "pays {k} (unat s) (bank_accounts b) (bank_accounts b')"
      unfolding b'(3) by (rule pays_one) (use eff(2,3) a(1) in auto)
    have "map_of m k = None"
    proof (cases "map_of m k")
      case (Some e)
      then obtain a0 c n t where "map_of m k = Some (a0, c, n, t)" by (cases e) auto
      from vote_sums_okD [OF m this] a distinct_programs show ?thesis by simp
    qed
    then have m': "vote_sums_ok (bank_accounts b') m" using m by (auto simp: vote_sums_ok_def b'(3))
    have "pay_stake vcs cs ep pv h p (m, b, rs) = Inr (add_vote_sum v w m, b',
        (if 0 < s then rs @ [(k, \<lparr>ri_type = Staking, ri_lamports = sint s, ri_post_balance = lamports a',
           ri_commission = Some (commission vs)\<rparr>)] else rs))"
      using redeemed b'(1) by (simp add: pay_stake_def pe add_vote_sum_def Let_def)
    then show ?thesis
      by (rule that [of _ _ _ "unat s"]) (use b' pay add_vote_sum_ok [OF m', of v w] sh pe in auto)
  qed
qed

lemma pay_stakes_ok:
  assumes c: "codec_ok (stake_codec cs)" and b: "payable_bank vcs cs b" and m: "vote_sums_ok (bank_accounts b) m"
    and dist: "distinct (map payable_key ps)" and ps: "\<forall>p \<in> set ps. stake_payable cs pv h b p"
    and fits: "bank_delegated b + (\<Sum>p\<leftarrow>ps. share pv h p) < 2 ^ 64"
  shows "\<exists>m' b' rs' n. run_r (pay_stake vcs cs ep pv h) ps (m, b, rs) = Inr (m', b', rs')
    \<and> payable_bank vcs cs b' \<and> vote_sums_ok (bank_accounts b') m' \<and> owed m' + n \<le> owed m + (\<Sum>p\<leftarrow>ps. share pv h p)
    \<and> pays (payable_key ` set ps) n (bank_accounts b) (bank_accounts b')"
  using b m dist ps fits
proof (induction ps arbitrary: b m rs)
  case Nil
  then show ?case by (auto intro!: exI [of _ 0] simp: pays_refl)
next
  case (Cons p ps)
  have "bank_delegated b + share pv h p < 2 ^ 64" "stake_payable cs pv h b p" using Cons.prems by simp_all
  then obtain m1 b1 rs1 n where s1: "pay_stake vcs cs ep pv h p (m, b, rs) = Inr (m1, b1, rs1)"
    "payable_bank vcs cs b1" "vote_sums_ok (bank_accounts b1) m1" "owed m1 + n \<le> owed m + share pv h p"
    "bank_delegated b1 = bank_delegated b + n" "pays {payable_key p} n (bank_accounts b) (bank_accounts b1)"
    "\<forall>k. k \<noteq> payable_key p \<longrightarrow> map_of (st_stake_delegations (bank_stakes b1)) k = map_of (st_stake_delegations (bank_stakes b)) k"
    "n \<le> share pv h p"
    using pay_stake_ok [OF c Cons.prems(1,2), where ep = ep and pv = pv and h = h and p = p and rs = rs] by blast
  have "stake_payable cs pv h b1 q" if q: "q \<in> set ps" for q
  proof -
    have "payable_key p \<notin> payable_key ` set ps" using Cons.prems(3) by simp
    with q have "payable_key q \<noteq> payable_key p" by (metis image_eqI)
    moreover from this have "bank_accounts b1 (payable_key q) = bank_accounts b (payable_key q)"
      using s1(6) by (simp add: pays_def)
    moreover have "stake_payable cs pv h b q" using Cons.prems(4) q by simp
    ultimately show ?thesis using s1(7) by (cases q) (auto simp: stake_payable_def stake_loaded_def)
  qed
  moreover have "bank_delegated b1 + (\<Sum>p\<leftarrow>ps. share pv h p) < 2 ^ 64"
    using Cons.prems(5) s1(5,8) by simp
  ultimately obtain m2 b2 rs2 n2 where "run_r (pay_stake vcs cs ep pv h) ps (m1, b1, rs1) = Inr (m2, b2, rs2)"
    "payable_bank vcs cs b2" "vote_sums_ok (bank_accounts b2) m2" "owed m2 + n2 \<le> owed m1 + (\<Sum>p\<leftarrow>ps. share pv h p)"
    "pays (payable_key ` set ps) n2 (bank_accounts b1) (bank_accounts b2)"
    using Cons.IH [OF s1(2,3), of rs1] Cons.prems(3) by auto
  moreover from this(5) s1(6) have "pays (payable_key ` set (p # ps)) (n + n2) (bank_accounts b) (bank_accounts b2)"
    using pays_trans by fastforce
  ultimately show ?case using s1(1,4) by (auto intro!: exI [of _ "n + n2"])
qed

lemma pay_votes_ok:
  assumes "payable_bank vcs cs b" and "vote_sums_ok (bank_accounts b) m"
  shows "\<exists>b' rs' n. run_r (pay_vote vcs cs) m (b, rs) = Inr (b', rs') \<and> payable_bank vcs cs b'
    \<and> n \<le> owed m \<and> pays (fst ` set m) n (bank_accounts b) (bank_accounts b')"
  using assms
proof (induction m arbitrary: b rs)
  case Nil
  then show ?case by (auto intro!: exI [of _ 0] simp: pays_refl)
next
  case (Cons e m)
  obtain v a c t needs where e: "e = (v, a, c, t, needs)" by (cases e) auto
  have a: "bank_accounts b v = a" "owner a = vote_program_id"
    using vote_sums_okD [OF Cons.prems(2), of v a c t needs] by (simp_all add: e)
  have v: "v \<notin> fst ` set m" and rest: "vote_sums_ok (bank_accounts b) m"
    using vote_sums_ok_Cons [OF Cons.prems(2) [unfolded e]] .
  obtain b1 rs1 n where s1: "pay_vote vcs cs e (b, rs) = Inr (b1, rs1)" "payable_bank vcs cs b1" "n \<le> unat t"
    "pays {v} n (bank_accounts b) (bank_accounts b1)"
  proof (cases "checked_add_lamports a t")
    case (Inl x)
    then show ?thesis using Cons.prems(1) by (intro that [of b rs 0]) (simp_all add: e pay_vote_def pays_refl)
  next
    case (Inr a')
    have a': "unat (lamports a) + unat t < 2 ^ 64" "a' = a\<lparr>lamports := lamports a + t\<rparr>"
      using Inr by (simp_all add: checked_add_lamports_Inr)
    show ?thesis
    proof (cases needs)
      case True
      have "owner a' = vote_program_id" using a a' by simp
      then obtain b1 where b1: "bank_store_account vcs cs v a' b = Inr b1" "payable_bank vcs cs b1"
        "bank_accounts b1 = (bank_accounts b)(v := a')" using bank_store_vote [OF Cons.prems(1), of a' v thesis] a by auto
      have "pays {v} (unat t) (bank_accounts b) (bank_accounts b1)"
        unfolding b1(3) by (rule pays_one) (use a a' in auto)
      with b1 Inr True that [of b1 _ "unat t"] show ?thesis by (simp add: e pay_vote_def)
    next
      case False
      with Inr Cons.prems(1) that [of b _ 0] show ?thesis by (simp add: e pay_vote_def pays_refl)
    qed
  qed
  have "vote_sums_ok (bank_accounts b1) m"
    by (rule vote_sums_ok_cong [OF rest]) (use s1(4) v in \<open>auto simp: pays_def\<close>)
  then obtain b2 rs2 n2 where s2: "run_r (pay_vote vcs cs) m (b1, rs1) = Inr (b2, rs2)" "payable_bank vcs cs b2"
    "n2 \<le> owed m" "pays (fst ` set m) n2 (bank_accounts b1) (bank_accounts b2)"
    using Cons.IH [OF s1(2), of rs1] by auto
  have "pays (fst ` set (e # m)) (n + n2) (bank_accounts b) (bank_accounts b2)"
    using pays_trans [OF s1(4) s2(4)] by (simp add: e)
  with s1 s2 show ?case by (auto intro!: exI [of _ "n + n2"] simp: e owed_def)
qed

section \<open>The budget\<close>

text \<open>The points of what is to be paid, without wrap-around.\<close>

definition points_of :: "stake_history \<Rightarrow> payable_stake \<Rightarrow> nat" where
  "points_of h p = (case p of (_, vs, _, st, _) \<Rightarrow> unat (stake_points st vs (Some h)))"

definition payable :: "stake_codecs \<Rightarrow> bank \<Rightarrow> payable_stake list" where
  "payable cs b =
     payable_stakes (lr_votes (load_vote_and_stake_accounts cs (bank_accounts b) (st_stake_delegations (bank_stakes b))))"

lemma share_points: "share pv h p = points_of h p * unat (pv_rewards pv) div unat (pv_points pv)"
  by (simp add: share_def points_of_def split: prod.split)

lemma total_points_payable: "total_points h m = of_nat (\<Sum>p\<leftarrow>payable_stakes m. points_of h p)"
proof -
  have "sum_list (map (\<lambda>(_, st, _). stake_points st vs (Some h)) ds) =
      of_nat (\<Sum>p\<leftarrow>map (\<lambda>d. (v, vs, d)) ds. points_of h p)" for v vs and ds :: "loaded_stake list"
    by (induction ds) (auto simp: points_of_def)
  then show ?thesis
    by (induction m) (auto simp: total_points_def payable_stakes_def stake_points_def)
qed

lemma sum_div_le: "(\<Sum>x\<leftarrow>xs. f x div n) \<le> (\<Sum>x\<leftarrow>xs. f x) div (n :: nat)"
proof (induction xs)
  case (Cons x xs)
  have "f x div n + (\<Sum>x\<leftarrow>xs. f x) div n \<le> (f x + (\<Sum>x\<leftarrow>xs. f x)) div n"
    unfolding div_add1_eq [of "f x" "\<Sum>x\<leftarrow>xs. f x" n] by simp
  with Cons show ?case by simp
qed simp

lemma shares_within:
  assumes "unat (pv_points pv) = (\<Sum>p\<leftarrow>ps. points_of h p)"
  shows "(\<Sum>p\<leftarrow>ps. share pv h p) \<le> unat (pv_rewards pv)"
proof -
  have "(\<Sum>p\<leftarrow>ps. share pv h p) \<le> (\<Sum>p\<leftarrow>ps. points_of h p * unat (pv_rewards pv)) div unat (pv_points pv)"
    unfolding share_points by (rule sum_div_le)
  also have "\<dots> = unat (pv_points pv) * unat (pv_rewards pv) div unat (pv_points pv)"
    using assms by (simp add: sum_list_mult_const)
  also have "\<dots> \<le> unat (pv_rewards pv)" by simp
  finally show ?thesis .
qed

text \<open>In a bank whose cache agrees with the accounts, every delegation in the cache has its stake account.\<close>

lemma no_invalid_stakes:
  assumes "cache_agrees cs b" and "hm_ok (st_stake_delegations (bank_stakes b))"
  shows "lr_invalid_stakes (load_vote_and_stake_accounts cs (bank_accounts b) (st_stake_delegations (bank_stakes b))) = []"
proof -
  have "lr_invalid_stakes (fold (load_delegation cs s) ds r) = lr_invalid_stakes r"
    if "\<forall>k d. (k, d) \<in> set ds \<longrightarrow> 0 < lamports (s k) \<and> owner (s k) = stake_program_id \<and> delegation_from cs (s k) = Some d"
    for ds s r
    using that
  proof (induction ds arbitrary: r)
    case (Cons kd ds)
    have "lr_invalid_stakes (load_delegation cs s kd r) = lr_invalid_stakes r"
      using Cons.prems
      by (cases kd) (auto simp: load_delegation_def get_account_def delegation_from_def push_delegation_def
          invalid_vote_def Let_def split: option.split sum.splits)
    moreover have "lr_invalid_stakes (fold (load_delegation cs s) ds (load_delegation cs s kd r)) =
        lr_invalid_stakes (load_delegation cs s kd r)"
      by (rule Cons.IH) (use Cons.prems in simp)
    ultimately show ?case by simp
  qed simp
  moreover have "\<forall>k d. (k, d) \<in> set (st_stake_delegations (bank_stakes b)) \<longrightarrow> 0 < lamports (bank_accounts b k)
      \<and> owner (bank_accounts b k) = stake_program_id \<and> delegation_from cs (bank_accounts b k) = Some d"
    using assms by (simp add: cache_agrees_def hm_ok_def)
  ultimately show ?thesis by (simp add: load_vote_and_stake_accounts_def)
qed

lemma payable_loaded:
  assumes "loaded_ok cs s m" and "p \<in> set (payable_stakes m)"
  shows "stake_loaded cs s (snd (snd p))"
  using assms by (auto simp: payable_stakes_def loaded_ok_def hm_ok_def vote_loaded_def)

lemma payable_stakes_payable:
  assumes b: "payable_bank vcs cs b" and p: "p \<in> set (payable cs b)"
    and points: "unat (pv_points pv) = (\<Sum>p\<leftarrow>payable cs b. points_of h p)"
    and fits: "(\<Sum>p\<leftarrow>payable cs b. points_of h p) * unat (pv_rewards pv) < 2 ^ 128"
  shows "stake_payable cs pv h b p"
proof -
  let ?ds = "st_stake_delegations (bank_stakes b)"
  obtain v vs k st a where pe: "p = (v, vs, k, st, a)" by (cases p) auto
  have l: "stake_loaded cs (bank_accounts b) (k, st, a)"
    using payable_loaded [OF load_all_ok(1) p [unfolded payable_def]] by (simp add: pe)
  have "k \<in> fst ` set ?ds"
  proof -
    have "0 < count_list (map payable_key (payable cs b)) k"
      using p by (force simp: pe count_list_0_iff intro!: Nat.gr0I)
    also have "\<dots> \<le> count_list (map fst ?ds) k"
      unfolding payable_def count_payable by (rule load_all_ok(2))
    finally show ?thesis using count_list_0_iff [of "map fst ?ds" k] by simp
  qed
  then obtain d where d: "map_of ?ds k = Some d" by (cases "map_of ?ds k") (simp_all add: map_of_eq_None_iff)
  with b have "delegation_from cs (bank_accounts b k) = Some d" by (simp add: payable_bank_def cache_agrees_def)
  then have "state_delegation st = Some d" using l by (simp add: stake_loaded_def delegation_from_def)
  moreover have le: "points_of h p \<le> (\<Sum>p\<leftarrow>payable cs b. points_of h p)" using p by (simp add: member_le_sum_list)
  then have "points_of h p * unat (pv_rewards pv) \<le> (\<Sum>p\<leftarrow>payable cs b. points_of h p) * unat (pv_rewards pv)" by simp
  then have "points_of h p * unat (pv_rewards pv) < 2 ^ 128" using fits by linarith
  ultimately show ?thesis using l d le points by (simp add: stake_payable_def pe points_of_def)
qed

lemma pays_within:
  assumes "pays K n s s'" and "finite K" and "finite L"
  shows "total_lamports L s' \<le> total_lamports L s + n"
proof -
  have split: "total_lamports (L \<union> K) t = total_lamports L t + total_lamports (K - L) t" for t
    using assms(2,3) sum.union_disjoint [of L "K - L" "\<lambda>k. unat (lamports (t k))"] by (simp add: total_lamports_def)
  have "total_lamports (K - L) s \<le> total_lamports (K - L) s'"
    unfolding total_lamports_def by (rule sum_mono) (use assms(1) in \<open>simp add: pays_def word_le_nat_alt\<close>)
  moreover have "total_lamports (L \<union> K) s' = total_lamports (L \<union> K) s + n" using assms by (simp add: pays_def)
  ultimately show ?thesis unfolding split by simp
qed

lemma sum_list_sched: "(\<And>ps. mset (sched ps) = mset ps) \<Longrightarrow> sum_list (map (f :: _ \<Rightarrow> nat) (sched ps)) = sum_list (map f ps)"
  by (simp flip: sum_mset_sum_list)

lemma initial_vote_rewards_ok:
  assumes "loaded_ok cs s m"
  shows "vote_sums_ok s (initial_vote_rewards m)" and "owed (initial_vote_rewards m) = 0"
proof -
  have l: "map_of (initial_vote_rewards m) v =
      map_option (\<lambda>e. (vws_vote_account e, commission (vws_vote_state e), 0, False)) (map_of m v)" for v
    unfolding initial_vote_rewards_def by (induction m) auto
  have "map fst (initial_vote_rewards m) = map fst m" by (simp add: initial_vote_rewards_def split_beta)
  then have "hm_ok (initial_vote_rewards m)" using assms by (simp add: loaded_ok_def hm_ok_def)
  then show "vote_sums_ok s (initial_vote_rewards m)"
    using assms by (auto simp: vote_sums_ok_def l loaded_ok_def vote_loaded_def)
  show "owed (initial_vote_rewards m) = 0"
    unfolding owed_def initial_vote_rewards_def by (induction m) (auto simp: hm_total_def)
qed

lemma evicted_ok:
  assumes "payable_bank vcs cs b"
  obtains st where "handle_invalid_keys vcs [] vs evict (bank_stakes b) = Inr st"
    and "payable_bank vcs cs (b\<lparr>bank_stakes := st\<rparr>)" and "st_stake_delegations st = st_stake_delegations (bank_stakes b)"
proof -
  have ok: "stakes_ok vcs (bank_stakes b)" using assms by (simp add: payable_bank_def)
  have "\<exists>st. handle_invalid_keys vcs [] vs evict (bank_stakes b) = Inr st \<and> stakes_ok vcs st
      \<and> st_stake_delegations st = st_stake_delegations (bank_stakes b)"
    using evict_votes_ok [OF ok, of vs] ok by (simp add: handle_invalid_keys_def)
  then obtain st where st: "handle_invalid_keys vcs [] vs evict (bank_stakes b) = Inr st" "stakes_ok vcs st"
    "st_stake_delegations st = st_stake_delegations (bank_stakes b)" by blast
  then have "payable_bank vcs cs (b\<lparr>bank_stakes := st\<rparr>)" using assms by (simp add: payable_bank_def cache_agrees_def)
  with st show ?thesis by (intro that)
qed

text \<open>What a run of the payment comes to.\<close>

lemma payments_ok:
  assumes c: "codec_ok (stake_codec cs)" and b: "payable_bank vcs cs b" and m: "vote_sums_ok (bank_accounts b) m" "owed m = 0"
    and dist: "distinct (map payable_key ps)" and ps: "\<forall>p \<in> set ps. stake_payable cs pv h b p"
    and fits: "bank_delegated b + (\<Sum>p\<leftarrow>ps. share pv h p) < 2 ^ 64"
  obtains m' b2 rs b3 vr n where "run_r (pay_stake vcs cs ep pv h) ps (m, b, []) = Inr (m', b2, rs)"
    and "run_r (pay_vote vcs cs) m' (b2, []) = Inr (b3, vr)" and "payable_bank vcs cs b3"
    and "pays (payable_key ` set ps \<union> fst ` set m') n (bank_accounts b) (bank_accounts b3)"
    and "n \<le> (\<Sum>p\<leftarrow>ps. share pv h p)"
proof -
  from pay_stakes_ok [OF c b m(1) dist ps fits, of ep "[]"] obtain m' b2 rs n where
    s: "run_r (pay_stake vcs cs ep pv h) ps (m, b, []) = Inr (m', b2, rs)" "payable_bank vcs cs b2"
      "vote_sums_ok (bank_accounts b2) m'" "owed m' + n \<le> owed m + (\<Sum>p\<leftarrow>ps. share pv h p)"
      "pays (payable_key ` set ps) n (bank_accounts b) (bank_accounts b2)" by blast
  from pay_votes_ok [OF s(2,3), of "[]"] obtain b3 vr n' where
    v: "run_r (pay_vote vcs cs) m' (b2, []) = Inr (b3, vr)" "payable_bank vcs cs b3" "n' \<le> owed m'"
      "pays (fst ` set m') n' (bank_accounts b2) (bank_accounts b3)" by blast
  show ?thesis by (rule that [OF s(1) v(1,2) pays_trans [OF s(5) v(4)]]) (use s(4) v(3) m(2) in simp)
qed

lemma pay_validator_rewards_ok:
  assumes c: "codec_ok (stake_codec cs)" and b: "payable_bank vcs cs b"
    and sched: "\<And>ps. mset (sched ps) = mset ps"
    and fits: "bank_delegated b + unat rewards < 2 ^ 64"
    and points: "(\<Sum>p\<leftarrow>payable cs b. points_of (st_history (bank_stakes b)) p) * (unat rewards + 1) < 2 ^ 128"
  obtains pv b' K n where "pay_validator_rewards vcs cs sched ep rewards b = Inr (pv, b')"
    and "payable_bank vcs cs b'" and "finite K" and "pays K n (bank_accounts b) (bank_accounts b')" and "n \<le> unat rewards"
proof -
  let ?h = "st_history (bank_stakes b)" and ?ps = "payable cs b"
  define loaded where "loaded = load_vote_and_stake_accounts cs (bank_accounts b) (st_stake_delegations (bank_stakes b))"
  let ?m = "lr_votes loaded" and ?P = "\<Sum>p\<leftarrow>?ps. points_of ?h p"
  have ps: "?ps = payable_stakes ?m" by (simp add: payable_def loaded_def)
  have ds: "hm_ok (st_stake_delegations (bank_stakes b))" and agrees: "cache_agrees cs b"
    using b by (simp_all add: payable_bank_def stakes_ok_def tracks_def)
  have l: "loaded_ok cs (bank_accounts b) ?m" unfolding loaded_def by (rule load_all_ok)
  have none: "lr_invalid_stakes loaded = []" unfolding loaded_def by (rule no_invalid_stakes [OF agrees ds])
  obtain st where st: "handle_invalid_keys vcs [] (map fst (lr_invalid_votes loaded))
      (evict_invalid_stakes_cache_entries \<in> bank_features b) (bank_stakes b) = Inr st"
    "payable_bank vcs cs (b\<lparr>bank_stakes := st\<rparr>)" "st_stake_delegations st = st_stake_delegations (bank_stakes b)"
    using b by (rule evicted_ok)
  define b1 where "b1 = b\<lparr>bank_stakes := st\<rparr>"
  have total: "total_points ?h ?m = of_nat ?P" by (simp add: total_points_payable ps)
  show ?thesis
  proof (cases "total_points ?h ?m = 0")
    case True
    then have "pay_validator_rewards vcs cs sched ep rewards b = Inr (None, b1)"
      unfolding pay_validator_rewards_def Let_def loaded_def [symmetric] none by (simp add: st(1) b1_def)
    then show ?thesis by (rule that [of _ _ "{}" 0]) (use st(2) in \<open>simp_all add: b1_def pays_refl\<close>)
  next
    case False
    define pv where "pv = \<lparr>pv_rewards = rewards, pv_points = total_points ?h ?m\<rparr>"
    have "?P < 2 ^ 128" using points by (simp add: algebra_simps)
    then have P: "unat (pv_points pv) = ?P" by (simp add: pv_def total unat_of_nat_fits)
    have R: "pv_rewards pv = rewards" by (simp add: pv_def)
    have shares: "(\<Sum>p\<leftarrow>sched ?ps. share pv ?h p) \<le> unat rewards"
      using shares_within [OF P] by (simp add: R sum_list_sched [OF sched])
    have sums: "vote_sums_ok (bank_accounts b1) (initial_vote_rewards ?m)" "owed (initial_vote_rewards ?m) = 0"
      using initial_vote_rewards_ok [OF l] by (simp_all add: b1_def)
    have "distinct (map payable_key (sched ?ps))"
      using distinct_payable [OF ds] mset_eq_imp_distinct_iff [of "map payable_key (sched ?ps)" "map payable_key ?ps"]
      by (simp add: sched payable_def)
    moreover have "\<forall>p \<in> set (sched ?ps). stake_payable cs pv ?h b1 p"
      using payable_stakes_payable [OF b _ P] points st(3) mset_eq_setD [OF sched, of ?ps]
      by (simp add: R stake_payable_def b1_def)
    moreover have "bank_delegated b1 + (\<Sum>p\<leftarrow>sched ?ps. share pv ?h p) < 2 ^ 64"
      using fits shares st(3) by (simp add: b1_def)
    ultimately obtain m' b2 rs b3 vr n where run: "run_r (pay_stake vcs cs ep pv ?h) (sched ?ps) (initial_vote_rewards ?m, b1, []) = Inr (m', b2, rs)"
      "run_r (pay_vote vcs cs) m' (b2, []) = Inr (b3, vr)" "payable_bank vcs cs b3"
      "pays (payable_key ` set (sched ?ps) \<union> fst ` set m') n (bank_accounts b1) (bank_accounts b3)"
      "n \<le> (\<Sum>p\<leftarrow>sched ?ps. share pv ?h p)"
      using payments_ok [OF c st(2) [folded b1_def] sums, where ep = ep and pv = pv and h = ?h] by blast
    have "pay_validator_rewards vcs cs sched ep rewards b = Inr (Some pv, b3\<lparr>bank_rewards := bank_rewards b3 @ vr @ rs\<rparr>)"
      unfolding pay_validator_rewards_def Let_def loaded_def [symmetric] none
      using False run(1,2) by (simp add: st(1) b1_def pv_def ps)
    then show ?thesis
      by (rule that [of _ _ "payable_key ` set (sched ?ps) \<union> fst ` set m'" n])
        (use run(3-5) shares in \<open>simp_all add: b1_def payable_bank_def cache_agrees_def\<close>)
  qed
qed

end
