(* ===== verification/Stakes_Safety.thy ===== *)
theory Stakes_Safety
  imports Stakes Stake_Safety
begin

text \<open>
  The properties of the stakes cache: it is exact while inactive delegations are removed, and panics
  when they are not.
\<close>

section \<open>A vote account, a stake account and what becomes of it\<close>

definition cache_vote_codecs :: vote_codecs where
  "cache_vote_codecs =
     \<lparr>versions_codec = \<lparr>deserialize = (\<lambda>_. Some (Current (vote_state_default\<lparr>node_pubkey := 5\<rparr>))), serialize = (\<lambda>_. [])\<rparr>,
      vote_state_size_of = 90, vote_instruction_decode = (\<lambda>_. None),
      clock_codec = \<lparr>deserialize = (\<lambda>_. None), serialize = (\<lambda>_. [])\<rparr>\<rparr>"

definition boot_stake :: stake where
  "boot_stake = \<lparr>stake_delegation = delegation_new 9 1000 max_val DEFAULT_WARMUP_COOLDOWN_RATE, credits_observed = 0\<rparr>"

definition cache_stake_codecs :: stake_codecs where
  "cache_stake_codecs = example_stake_codecs\<lparr>stake_codec :=
     \<lparr>deserialize = (\<lambda>bs. Some (if bs = [1] then Stake example_meta boot_stake else Uninitialized)), serialize = (\<lambda>_. [])\<rparr>\<rparr>"

definition cached_vote_account :: account where
  "cached_vote_account = account_default\<lparr>owner := vote_program_id, lamports := 1, data := replicate 90 1\<rparr>"

definition cached_stake_account :: "u64 \<Rightarrow> u8 list \<Rightarrow> account" where
  "cached_stake_account l bs = account_default\<lparr>owner := stake_program_id, lamports := l, data := bs\<rparr>"

definition one_vote_cache :: "u64 \<Rightarrow> (pubkey, delegation) hash_map \<Rightarrow> stakes" where
  "one_vote_cache s ds = stakes_default\<lparr>st_stake_delegations := ds,
     st_vote_accounts := \<lparr>va_accounts = [(9, s, cached_vote_account)], va_staked_nodes = None\<rparr>\<rparr>"

lemma epoch_zero_below_max: "(0 :: u64) < max_val"
  by (simp add: word_less_nat_alt unat_max_val)

lemma boot_delegation [simp]:
  "voter_pubkey (stake_delegation boot_stake) = 9" "delegated (stake_delegation boot_stake) = 1000"
  "delegation_stake (stake_delegation boot_stake) 0 h = 1000"
  using epoch_zero_below_max
  by (simp_all add: boot_stake_def delegation_new_def delegation_default_def delegation_stake_def
      stake_activating_and_deactivating_def stake_and_activating_def is_bootstrap_def with_effective_def)

lemma cached_delegation [simp]:
  "delegation_from cache_stake_codecs (cached_stake_account l bs) = (if bs = [1] then Some (stake_delegation boot_stake) else None)"
  by (simp add: delegation_from_def state_def cache_stake_codecs_def cached_stake_account_def)

lemma cached_vote_account_valid: "is_correct_size_and_initialized cache_vote_codecs (data cached_vote_account)"
  by (simp add: is_correct_size_and_initialized_def cache_vote_codecs_def cached_vote_account_def
      VERSION_OFFSET_def DEFAULT_PRIOR_VOTERS_OFFSET_def replicate_eq_replicate)

lemma store_vote:
  "check_and_store cache_vote_codecs cache_stake_codecs b 9 cached_vote_account stakes_default = Inr (one_vote_cache 0 [])"
  using cached_vote_account_valid
  by (simp add: check_and_store_def update_vote_account_def vote_accounts_remove_def vote_accounts_insert_def
      add_node_stake_def calculate_stake_def stakes_default_def vote_accounts_default_def one_vote_cache_def
      hm_remove_def hm_insert_def Let_def) (simp add: cached_vote_account_def)

lemma store_stake_account:
  "check_and_store cache_vote_codecs cache_stake_codecs b 3 (cached_stake_account l bs) (one_vote_cache s ds) =
     update_stake_delegation cache_vote_codecs 3
       (if bs = [1] then Some (if l \<noteq> 0 then 1000 else 0, stake_delegation boot_stake) else None)
       (if b then bs \<noteq> [1] else l = 0) (one_vote_cache s ds)"
  using distinct_programs
  by (simp add: check_and_store_def Let_def one_vote_cache_def stakes_default_def) (simp add: cached_stake_account_def)

lemma update_example:
  "update_stake_delegation cache_vote_codecs 3 (Some (1000, stake_delegation boot_stake)) False (one_vote_cache 0 [])
     = Inr (one_vote_cache 1000 [(3, stake_delegation boot_stake)])"
  "update_stake_delegation cache_vote_codecs 3 None False (one_vote_cache 1000 [(3, stake_delegation boot_stake)])
     = Inr (one_vote_cache 0 [(3, stake_delegation boot_stake)])"
  "update_stake_delegation cache_vote_codecs 3 (Some (0, stake_delegation boot_stake)) False
     (one_vote_cache 1000 [(3, stake_delegation boot_stake)]) = Inr (one_vote_cache 0 [(3, stake_delegation boot_stake)])"
  "update_stake_delegation cache_vote_codecs 3 None b (one_vote_cache 0 [(3, stake_delegation boot_stake)]) = Inl Panicked"
  by (simp_all add: update_stake_delegation_def Let_def one_vote_cache_def stakes_default_def add_stake_def sub_stake_def
      add_node_stake_def sub_node_stake_def checked_sub_def ok_or_def hm_insert_def)

lemma example_cache_reachable:
  "cache_reachable cache_vote_codecs cache_stake_codecs (one_vote_cache 1000 [(3, stake_delegation boot_stake)])"
proof -
  have o: "owner cached_vote_account = vote_program_id" "\<And>l bs. owner (cached_stake_account l bs) = stake_program_id"
    "\<And>l bs. lamports (cached_stake_account l bs) = l"
    by (simp_all add: cached_vote_account_def cached_stake_account_def)
  have "fits cache_stake_codecs (Stored 9 cached_vote_account) stakes_default"
    using o distinct_programs by (simp add: fits_def all_delegated_def stakes_default_def)
  then have r: "cache_reachable cache_vote_codecs cache_stake_codecs (one_vote_cache 0 [])"
    by (rule cache_reachable.step [OF cache_reachable.start, rotated])
      (use o distinct_programs in \<open>simp_all add: store_vote\<close>)
  have "fits cache_stake_codecs (Stored 3 (cached_stake_account 1050 [1])) (one_vote_cache 0 [])"
    using o by (simp add: fits_def all_delegated_def replaced_def one_vote_cache_def hm_insert_def)
  then show ?thesis
    by (rule cache_reachable.step [OF r, rotated]) (use o in \<open>simp_all add: store_stake_account update_example\<close>)
qed

section \<open>The properties\<close>




end
