(* ===== verification/Rewards_Safety.thy ===== *)
theory Rewards_Safety
  imports Validator_Rewards Stakes_Safety
begin

text \<open>The properties of rewards: what one stake is paid, and what all of them are paid together.\<close>

section \<open>A bank with one stake and one vote account\<close>

definition rewarded_votes :: vote_state where
  "rewarded_votes = vote_state_default\<lparr>epoch_credits := [(0, 10, 0)]\<rparr>"

definition reward_stake_codecs :: stake_codecs where
  "reward_stake_codecs = example_stake_codecs\<lparr>stake_codec := tagged_codec (Stake example_meta boot_stake) Uninitialized,
     stake_vote_codec := \<lparr>deserialize = (\<lambda>_. Some (Current rewarded_votes)), serialize = (\<lambda>_. [])\<rparr>\<rparr>"

definition rewarded_bank :: bank where
  "rewarded_bank =
     \<lparr>bank_accounts = (\<lambda>_. account_default)(3 := cached_stake_account 1050 [1], 9 := cached_vote_account),
      bank_stakes = one_vote_cache 1000 [(3, stake_delegation boot_stake)], bank_rewards = [],
      bank_features = {stakes_remove_delegation_if_inactive}, bank_freeze_started = False\<rparr>"

lemma rewarded_codec_ok: "codec_ok (stake_codec reward_stake_codecs)"
  by (simp add: reward_stake_codecs_def codec_ok_tagged)

lemma rewarded_codecs:
  "state (stake_codec reward_stake_codecs) (cached_stake_account l [1]) = Inr (Stake example_meta boot_stake)"
  "state (stake_vote_codec reward_stake_codecs) a = Inr (Current rewarded_votes)"
  by (simp_all add: reward_stake_codecs_def state_def tagged_codec_def cached_stake_account_def)

lemma rewarded_accounts:
  "owner cached_vote_account = vote_program_id" "lamports cached_vote_account = 1"
  "owner (cached_stake_account l bs) = stake_program_id" "lamports (cached_stake_account l bs) = l"
  by (simp_all add: cached_vote_account_def cached_stake_account_def)

lemma rewarded_points: "calculate_stake_points boot_stake rewarded_votes h = 10000"
  by (simp add: calculate_stake_points_def calculate_stake_points_and_credits_def credits_def rewarded_votes_def
      earned_credits_def Let_def) (simp add: boot_stake_def)

lemma rewarded_payable:
  "payable reward_stake_codecs rewarded_bank =
     [(9, rewarded_votes, 3, Stake example_meta boot_stake, cached_stake_account 1050 [1])]"
  by (simp add: payable_def rewarded_bank_def load_vote_and_stake_accounts_def one_vote_cache_def load_delegation_def Let_def
      get_account_def rewarded_codecs rewarded_accounts push_delegation_def payable_stakes_def hm_insert_def)

lemma rewarded_bank_ok: "payable_bank cache_vote_codecs reward_stake_codecs rewarded_bank"
  using cache_reachable_ok [OF example_cache_reachable]
  by (simp add: payable_bank_def rewarded_bank_def cache_agrees_def one_vote_cache_def delegation_from_def
      rewarded_codecs rewarded_accounts)

section \<open>The properties\<close>

text \<open>
  C9: the rewards of an epoch stay within their budget, in whatever order the stakes are paid. From a bank
  whose stakes cache is exact and agrees with the accounts, the payment does not panic; afterwards the cache
  is again exact and agrees with the accounts, no account has lost lamports, and no set of accounts has gained
  more than the rewards of the epoch. This asks that the delegated lamports and the rewards together fit 64
  bits, and that the points times the rewards fit the 128 bits of the computation.
\<close>

theorem rewards_within_budget:
  assumes "codec_ok (stake_codec cs)" and "payable_bank vcs cs b" and "\<And>ps. mset (sched ps) = mset ps"
    and "bank_delegated b + unat rewards < 2 ^ 64"
    and "(\<Sum>p\<leftarrow>payable cs b. points_of (st_history (bank_stakes b)) p) * (unat rewards + 1) < 2 ^ 128"
  shows "\<exists>pv b'. pay_validator_rewards vcs cs sched ep rewards b = Inr (pv, b') \<and> payable_bank vcs cs b'
    \<and> (\<forall>k. lamports (bank_accounts b k) \<le> lamports (bank_accounts b' k))
    \<and> (\<forall>L. finite L \<longrightarrow> total_lamports L (bank_accounts b') \<le> total_lamports L (bank_accounts b) + unat rewards)"
proof -
  obtain pv b' K n where p: "pay_validator_rewards vcs cs sched ep rewards b = Inr (pv, b')" "payable_bank vcs cs b'"
    "finite K" "pays K n (bank_accounts b) (bank_accounts b')" "n \<le> unat rewards"
    using assms by (rule pay_validator_rewards_ok)
  have "total_lamports L (bank_accounts b') \<le> total_lamports L (bank_accounts b) + unat rewards" if "finite L" for L
    using pays_within [OF p(4,3) that] p(5) by simp
  with p show ?thesis by (auto simp: pays_def)
qed

theorem rewards_within_budget_witness:
  "(\<Sum>p\<leftarrow>payable reward_stake_codecs rewarded_bank. points_of [] p) = 10000
    \<and> (\<exists>pv b'. pay_validator_rewards cache_vote_codecs reward_stake_codecs rev 0 500 rewarded_bank = Inr (pv, b')
        \<and> payable_bank cache_vote_codecs reward_stake_codecs b'
        \<and> total_lamports {3, 9} (bank_accounts b') \<le> total_lamports {3, 9} (bank_accounts rewarded_bank) + 500)"
proof -
  have h: "st_history (bank_stakes rewarded_bank) = []"
    by (simp add: rewarded_bank_def one_vote_cache_def stakes_default_def)
  have P: "(\<Sum>p\<leftarrow>payable reward_stake_codecs rewarded_bank. points_of [] p) = 10000"
    by (simp add: rewarded_payable points_of_def stake_points_def calculate_points_def rewarded_points)
  have d: "bank_delegated rewarded_bank = 1000"
    by (simp add: rewarded_bank_def one_vote_cache_def all_delegated_def)
  from rewards_within_budget [OF rewarded_codec_ok rewarded_bank_ok, of rev 500 0] P d show ?thesis
    unfolding h by auto
qed

text \<open>
  C21: a stake is paid once for every credit. With a ledger of credits that never falls, the points of a stake
  are, over the epochs, its stake times the credits it has not yet been paid for; what is paid to the staker
  and the voter is at most that share of the rewards, the staker's part is added to the delegation, and the same
  vote state earns the stake no further points.
\<close>

theorem credits_are_paid_once:
  assumes "ledger_rises (epoch_credits vs)" and "points_owed stk h (epoch_credits vs) \<le> unat (pv_points pv)"
    and "points_owed stk h (epoch_credits vs) * unat (pv_rewards pv) < 2 ^ 128"
    and "redeem_stake_rewards ep stk pv vs h = Inr (Some ((stakers, voters), stk'))"
  shows "unat (calculate_stake_points stk vs h) = points_owed stk h (epoch_credits vs)
    \<and> unat stakers + unat voters \<le> points_owed stk h (epoch_credits vs) * unat (pv_rewards pv) div unat (pv_points pv)
    \<and> delegated (stake_delegation stk') = delegated (stake_delegation stk) + stakers
    \<and> calculate_stake_points stk' vs h = 0"
proof -
  note owed = points_and_credits_owed [OF assms(1), of stk h]
  have "points_owed stk h (epoch_credits vs) < 2 ^ 128"
    using assms(2) unat_less_exp [of "pv_points pv"] by simp
  then have p: "unat (calculate_stake_points stk vs h) = points_owed stk h (epoch_credits vs)"
    by (simp add: calculate_stake_points_def owed unat_of_nat_fits)
  have "unat (calculate_stake_points stk vs h) \<le> unat (pv_points pv)"
    "unat (calculate_stake_points stk vs h) * unat (pv_rewards pv) < 2 ^ 128" using assms(2,3) by (simp_all add: p)
  then obtain r where r: "calculate_stake_rewards ep stk pv vs h = Inr r" "\<forall>s v c. r = Some (s, v, c) \<longrightarrow>
      unat s + unat v \<le> unat (calculate_stake_points stk vs h) * unat (pv_rewards pv) div unat (pv_points pv)"
    by (rule stake_rewards_share)
  obtain c where c: "r = Some (stakers, voters, c)" and stk': "stk' = stk\<lparr>credits_observed := c,
      stake_delegation := (stake_delegation stk)\<lparr>delegated := delegated (stake_delegation stk) + stakers\<rparr>\<rparr>"
    using assms(4) by (auto simp: redeem_stake_rewards_def r(1))
  have "c = max (credits_observed stk) (credits vs)"
    using r(1) unfolding c calculate_stake_rewards_def owed
    by (auto simp: Let_def split_beta elim!: bind_r_InrE split: if_splits)
  then have "calculate_stake_points stk' vs h = 0"
    by (simp add: stk' calculate_stake_points_def calculate_stake_points_and_credits_def)
  with p r(2) c show ?thesis by (simp add: stk')
qed

theorem credits_are_paid_once_witness:
  "redeem_stake_rewards 0 boot_stake \<lparr>pv_rewards = 500, pv_points = 20000\<rparr> rewarded_votes None
     = Inr (Some ((250, 0), boot_stake\<lparr>credits_observed := 10, stake_delegation := (stake_delegation boot_stake)\<lparr>delegated := 1250\<rparr>\<rparr>))
    \<and> calculate_stake_points (boot_stake\<lparr>credits_observed := 10,
        stake_delegation := (stake_delegation boot_stake)\<lparr>delegated := 1250\<rparr>\<rparr>) rewarded_votes None = 0"
proof -
  have commission_free: "commission rewarded_votes = 0" by (simp add: rewarded_votes_def vote_state_default_def)
  have pc: "calculate_stake_points_and_credits boot_stake rewarded_votes None = (10000, 10)"
    by (simp add: calculate_stake_points_and_credits_def credits_def rewarded_votes_def earned_credits_def Let_def)
      (simp add: boot_stake_def)
  have "activation_epoch (stake_delegation boot_stake) \<noteq> 0"
    using epoch_zero_below_max by (simp add: boot_stake_def delegation_new_def)
  then have run: "redeem_stake_rewards 0 boot_stake \<lparr>pv_rewards = 500, pv_points = 20000\<rparr> rewarded_votes None
     = Inr (Some ((250, 0), boot_stake\<lparr>credits_observed := 10, stake_delegation := (stake_delegation boot_stake)\<lparr>delegated := 1250\<rparr>\<rparr>))"
    by (simp add: redeem_stake_rewards_def calculate_stake_rewards_def pc checked_mul_def checked_div_def ok_or_def unat_div
        commission_split_def commission_free)
  have "points_owed boot_stake None (epoch_credits rewarded_votes) = 10000"
    by (simp add: points_owed_def rewarded_votes_def) (simp add: boot_stake_def)
  moreover have "ledger_rises (epoch_credits rewarded_votes)"
    by (simp add: ledger_rises_def credits_ok_def rewarded_votes_def MAX_EPOCH_CREDITS_HISTORY_def)
  ultimately show ?thesis using credits_are_paid_once [OF _ _ _ run] run by simp
qed

end
