(* ===== verification/Rolling_Bits.thy ===== *)
theory Rolling_Bits
  imports Accounts
begin

text \<open>
  \<open>RollingBitField\<close> of \<open>runtime/src/accounts_index.rs\<close>, a set of slots as a window of bits with a hash set
  for what falls out of the window, and what it promises: to be that set. The vector of bits comes from a library and is a parameter (\<open>bit_ops\<close>); the hash set
  of excess items is a list without duplicates, in its order of iteration.
\<close>

section \<open>The operations\<close>

record 'v bit_ops =
  bv_new_fill :: "bool \<Rightarrow> u64 \<Rightarrow> 'v"
  bv_len :: "'v \<Rightarrow> u64"
  bv_get :: "'v \<Rightarrow> u64 \<Rightarrow> bool"
  bv_set :: "'v \<Rightarrow> u64 \<Rightarrow> bool \<Rightarrow> 'v"

text \<open>What the code relies on: a vector of the length asked for, whose bits change only when set.\<close>

definition bit_ops_ok :: "'v bit_ops \<Rightarrow> bool" where
  "bit_ops_ok ops \<longleftrightarrow>
     (\<forall>b n. bv_len ops (bv_new_fill ops b n) = n) \<and> (\<forall>b n i. i < n \<longrightarrow> bv_get ops (bv_new_fill ops b n) i = b)
     \<and> (\<forall>v i b. i < bv_len ops v \<longrightarrow> bv_len ops (bv_set ops v i b) = bv_len ops v)
     \<and> (\<forall>v i j b. i < bv_len ops v \<longrightarrow> j < bv_len ops v \<longrightarrow>
          bv_get ops (bv_set ops v i b) j = (if j = i then b else bv_get ops v j))"

record 'v rolling_bit_field =
  rb_max_width :: u64
  rb_min :: u64
  rb_max :: u64
  rb_bits :: 'v
  rb_count :: nat
  rb_excess :: "u64 list"

definition is_power_of_two :: "u64 \<Rightarrow> bool" where
  "is_power_of_two w \<longleftrightarrow> (\<exists>n < 64. w = 2 ^ n)"

definition rolling_new :: "'v bit_ops \<Rightarrow> u64 \<Rightarrow> 'v rolling_bit_field ix_result" where
  "rolling_new ops w =
     bind_r (guard_r (0 < w) Panicked) (\<lambda>_.
     bind_r (guard_r (is_power_of_two w) Panicked) (\<lambda>_.
       Inr \<lparr>rb_max_width = w, rb_min = 0, rb_max = 0, rb_bits = bv_new_fill ops False w, rb_count = 0, rb_excess = []\<rparr>))"

definition get_address :: "'v rolling_bit_field \<Rightarrow> u64 \<Rightarrow> u64" where
  "get_address r k = k mod rb_max_width r"

definition range_width :: "'v rolling_bit_field \<Rightarrow> u64" where
  "range_width r = rb_max r - rb_min r"

definition all_items_in_excess :: "'v rolling_bit_field \<Rightarrow> bool" where
  "all_items_in_excess r \<longleftrightarrow> length (rb_excess r) = rb_count r"

definition contains_assume_in_range :: "'v bit_ops \<Rightarrow> 'v rolling_bit_field \<Rightarrow> u64 \<Rightarrow> bool" where
  "contains_assume_in_range ops r k = bv_get ops (rb_bits r) (get_address r k)"

definition rolling_contains :: "'v bit_ops \<Rightarrow> 'v rolling_bit_field \<Rightarrow> u64 \<Rightarrow> bool" where
  "rolling_contains ops r k \<longleftrightarrow>
     (if k < rb_max r then
        if rb_min r \<le> k then contains_assume_in_range ops r k else k \<in> set (rb_excess r)
      else False)"

definition u64_range :: "u64 \<Rightarrow> u64 \<Rightarrow> u64 list" where
  "u64_range a b = map of_nat [unat a..<unat b]"

definition purge :: "'v bit_ops \<Rightarrow> u64 \<Rightarrow> 'v rolling_bit_field \<Rightarrow> 'v rolling_bit_field" where
  "purge ops k r =
     (if 0 < rb_count r \<and> \<not> all_items_in_excess r then
        if k = rb_min r then
          (case find (contains_assume_in_range ops r) (u64_range (rb_min r + 1) (rb_max r)) of
             Some j \<Rightarrow> r\<lparr>rb_min := j\<rparr>
           | None \<Rightarrow> r)
        else r
      else r\<lparr>rb_min := rb_max r\<rparr>)"

text \<open>
  The loop of \<open>insert\<close> that moves items out of the window; \<open>None\<close> would be a loop that does not end. The
  flag says that no item is left in the bits.
\<close>

partial_function (option) make_room ::
  "'v bit_ops \<Rightarrow> u64 \<Rightarrow> 'v rolling_bit_field \<Rightarrow> ('v rolling_bit_field \<times> bool) ix_result option" where
  "make_room ops new_max r =
     (if saturating_sub new_max (rb_min r) \<le> rb_max_width r then Some (Inr (r, False))
      else if rb_min r \<in> set (rb_excess r) then Some (Inl Panicked)
      else
        (let k = rb_min r;
             r1 = r\<lparr>rb_excess := k # rb_excess r, rb_bits := bv_set ops (rb_bits r) (get_address r k) False\<rparr>;
             r2 = purge ops k r1
         in if all_items_in_excess r2 then Some (Inr (r2, True)) else make_room ops new_max r2))"

definition set_bit_of :: "'v bit_ops \<Rightarrow> u64 \<Rightarrow> bool \<Rightarrow> 'v rolling_bit_field \<Rightarrow> 'v rolling_bit_field ix_result" where
  "set_bit_of ops k bits_empty r =
     (let address = get_address r k in
      if bv_get ops (rb_bits r) address then Inr r
      else
        (let r1 = r\<lparr>rb_bits := bv_set ops (rb_bits r) address True\<rparr>;
             r2 = (if bits_empty then r1\<lparr>rb_min := k, rb_max := k + 1\<rparr>
                   else r1\<lparr>rb_min := min (rb_min r) k, rb_max := max (rb_max r) (k + 1)\<rparr>)
         in bind_r (guard_r (bits_empty \<or> rb_max r2 \<le> rb_min r2 + rb_max_width r2) Panicked) (\<lambda>_.
              Inr (r2\<lparr>rb_count := rb_count r2 + 1\<rparr>))))"

definition rolling_insert ::
  "'v bit_ops \<Rightarrow> u64 \<Rightarrow> 'v rolling_bit_field \<Rightarrow> 'v rolling_bit_field ix_result option" where
  "rolling_insert ops k r =
     (let bits_empty = rb_count r = 0 \<or> all_items_in_excess r in
      if bits_empty then Some (set_bit_of ops k True r)
      else if k < rb_min r then
        Some (Inr (if k \<in> set (rb_excess r) then r
          else r\<lparr>rb_excess := k # rb_excess r, rb_count := rb_count r + 1\<rparr>))
      else if k < rb_max r then Some (set_bit_of ops k False r)
      else map_option (\<lambda>res. bind_r res (\<lambda>(r', emptied). set_bit_of ops k emptied r')) (make_room ops (k + 1) r))"

definition rolling_remove :: "'v bit_ops \<Rightarrow> u64 \<Rightarrow> 'v rolling_bit_field \<Rightarrow> bool \<times> 'v rolling_bit_field" where
  "rolling_remove ops k r =
     (if rb_min r \<le> k then
        if k < rb_max r then
          (let address = get_address r k in
           if bv_get ops (rb_bits r) address
           then (True, purge ops k (r\<lparr>rb_count := rb_count r - 1, rb_bits := bv_set ops (rb_bits r) address False\<rparr>))
           else (False, r))
        else (False, r)
      else if k \<in> set (rb_excess r)
      then (True, r\<lparr>rb_excess := removeAll k (rb_excess r), rb_count := rb_count r - 1\<rparr>)
      else (False, r))"

definition rolling_min :: "'v rolling_bit_field \<Rightarrow> u64 option" where
  "rolling_min r =
     (if rb_count r = 0 then None
      else if rb_excess r = [] then Some (rb_min r)
      else Some (fold min (rb_excess r) (if all_items_in_excess r then max_val else rb_min r)))"

definition rolling_get_all :: "'v bit_ops \<Rightarrow> 'v rolling_bit_field \<Rightarrow> u64 list" where
  "rolling_get_all ops r = rb_excess r @ filter (contains_assume_in_range ops r) (u64_range (rb_min r) (rb_max r))"

definition rolling_clear :: "'v bit_ops \<Rightarrow> 'v rolling_bit_field \<Rightarrow> 'v rolling_bit_field ix_result" where
  "rolling_clear ops r = rolling_new ops (rb_max_width r)"

definition rolling_eq :: "'v bit_ops \<Rightarrow> 'v rolling_bit_field \<Rightarrow> 'v rolling_bit_field \<Rightarrow> bool" where
  "rolling_eq ops r s \<longleftrightarrow> rb_count r = rb_count s \<and> list_all (rolling_contains ops s) (rolling_get_all ops r)"

section \<open>The loop of insertion ends\<close>

lemma purge_excess [simp]: "rb_excess (purge ops k r) = rb_excess r"
  by (simp add: purge_def split: option.split)

lemma make_room_total: "\<exists>res. make_room ops new_max r = Some res"
proof (induction "card (- set (rb_excess r))" arbitrary: r rule: less_induct)
  case less
  let ?r1 = "r\<lparr>rb_excess := rb_min r # rb_excess r, rb_bits := bv_set ops (rb_bits r) (get_address r (rb_min r)) False\<rparr>"
  show ?case
  proof (cases "rb_min r \<in> set (rb_excess r)")
    case False
    then have "card (- set (rb_excess ?r1)) < card (- set (rb_excess r))"
      by (intro psubset_card_mono) auto
    then have "\<exists>res. make_room ops new_max (purge ops (rb_min r) ?r1) = Some res" by (intro less) simp
    then show ?thesis by (subst make_room.simps) (simp add: Let_def)
  qed (subst make_room.simps, simp)
qed

section \<open>The set that the bits and the excess stand for\<close>

definition bit_items :: "'v bit_ops \<Rightarrow> 'v rolling_bit_field \<Rightarrow> u64 set" where
  "bit_items ops r = {k. rb_min r \<le> k \<and> k < rb_max r \<and> contains_assume_in_range ops r k}"

definition items :: "'v bit_ops \<Rightarrow> 'v rolling_bit_field \<Rightarrow> u64 set" where
  "items ops r = set (rb_excess r) \<union> bit_items ops r"

text \<open>Well-formed up to the position of the minimum; well-formed.\<close>

definition window_ok :: "'v bit_ops \<Rightarrow> 'v rolling_bit_field \<Rightarrow> bool" where
  "window_ok ops r \<longleftrightarrow> 0 < rb_max_width r \<and> bv_len ops (rb_bits r) = rb_max_width r \<and> rb_min r \<le> rb_max r
     \<and> unat (rb_max r) \<le> unat (rb_min r) + unat (rb_max_width r)
     \<and> distinct (rb_excess r) \<and> (\<forall>x \<in> set (rb_excess r). x \<le> rb_min r \<and> x < rb_max r \<and> x \<notin> bit_items ops r)
     \<and> (\<forall>a < rb_max_width r. bv_get ops (rb_bits r) a \<longrightarrow> (\<exists>k \<in> bit_items ops r. get_address r k = a))
     \<and> rb_count r = length (rb_excess r) + card (bit_items ops r)"

definition rolling_ok :: "'v bit_ops \<Rightarrow> 'v rolling_bit_field \<Rightarrow> bool" where
  "rolling_ok ops r \<longleftrightarrow> window_ok ops r \<and> (\<forall>x \<in> set (rb_excess r). x < rb_min r)
     \<and> (if bit_items ops r = {} then rb_min r = rb_max r else rb_min r \<in> bit_items ops r)"

lemma set_u64_range: "set (u64_range a b) = {k. a \<le> k \<and> k < b}"
proof -
  have "k \<in> of_nat ` {unat a..<unat b}" if "a \<le> k" "k < b" for k :: u64
    using that by (intro image_eqI [of _ _ "unat k"]) (simp_all add: word_le_nat_alt word_less_nat_alt)
  moreover have "a \<le> of_nat n \<and> of_nat n < b" if "unat a \<le> n" "n < unat b" for n
    using that unat_less_exp [of b] unat_of_nat_fits [of n, where 'a = 64] by (simp add: word_le_nat_alt word_less_nat_alt)
  ultimately show ?thesis by (auto simp: u64_range_def)
qed

lemma distinct_u64_range: "distinct (u64_range a b)"
proof -
  have "inj_on (of_nat :: nat \<Rightarrow> u64) {unat a..<unat b}"
    using unat_less_exp [of b] by (intro inj_on_inverseI [of _ unat]) (simp add: unat_of_nat_fits)
  then show ?thesis by (simp add: u64_range_def distinct_map)
qed

lemma find_u64_range:
  assumes "find P (u64_range a b) = Some k"
  shows "a \<le> k" and "k < b" and "P k" and "\<And>j. a \<le> j \<Longrightarrow> j < k \<Longrightarrow> \<not> P j"
proof -
  obtain i where i: "i < unat b - unat a" "P k" "k = of_nat (unat a + i)"
    and first: "\<And>j. j < i \<Longrightarrow> \<not> P (of_nat (unat a + j))"
    using assms unfolding find_Some_iff by (auto simp: u64_range_def)
  have k: "unat k = unat a + i"
    unfolding i(3) by (rule unat_of_nat_fits) (use i(1) unat_less_exp [of b] in simp)
  then show "a \<le> k" "k < b" "P k" using i(1,2) by (simp_all add: word_le_nat_alt word_less_nat_alt)
  show "\<not> P j" if "a \<le> j" "j < k" for j
    using first [of "unat j - unat a"] that k by (simp add: word_le_nat_alt word_less_nat_alt)
qed

lemma address_inj:
  assumes "get_address r j = get_address r k" and "unat k < unat j + unat (rb_max_width r)" and "j \<le> k"
  shows "j = k"
proof -
  have "unat j mod unat (rb_max_width r) = unat k mod unat (rb_max_width r)"
    using assms(1) unfolding get_address_def by (metis unat_mod)
  then have "unat (rb_max_width r) dvd unat k - unat j"
    using assms(3) mod_eq_dvd_iff_nat [of "unat j" "unat k" "unat (rb_max_width r)"] by (simp add: word_le_nat_alt)
  then have "unat k - unat j = 0" using assms(2,3) by (metis dvd_imp_le less_diff_conv2 not_le word_le_nat_alt add.commute gr0I)
  then show ?thesis using assms(3) by (simp add: word_le_nat_alt word_unat_eq_iff)
qed

lemma address_less: "0 < rb_max_width r \<Longrightarrow> get_address r k < rb_max_width r"
  by (simp add: get_address_def word_less_nat_alt unat_mod)

lemma finite_bit_items [simp]: "finite (bit_items ops r)"
  by (rule finite_subset [OF subset_UNIV finite])

lemma window_all_excess: "window_ok ops r \<Longrightarrow> all_items_in_excess r \<longleftrightarrow> bit_items ops r = {}"
  by (auto simp: window_ok_def all_items_in_excess_def)

text \<open>Two keys in the window have different addresses.\<close>

lemma window_address_inj:
  assumes "window_ok ops r" and "j \<in> bit_items ops r" and "k \<in> bit_items ops r" and "get_address r j = get_address r k"
  shows "j = k"
proof -
  have *: "j = k" if "j \<in> bit_items ops r" "k \<in> bit_items ops r" "get_address r j = get_address r k" "j \<le> k" for j k
    using address_inj [OF that(3) _ that(4)] that(1,2) assms(1)
    by (simp add: bit_items_def window_ok_def word_le_nat_alt word_less_nat_alt)
  show ?thesis using *[of j k] *[of k j] assms by (metis linear)
qed

lemma contains_items:
  assumes "rolling_ok ops r"
  shows "rolling_contains ops r k \<longleftrightarrow> k \<in> items ops r"
proof -
  have "k < rb_min r \<and> k < rb_max r" if "k \<in> set (rb_excess r)"
    using assms that by (simp add: rolling_ok_def window_ok_def)
  then show ?thesis by (auto simp: rolling_contains_def items_def bit_items_def)
qed

lemma get_all_items: "set (rolling_get_all ops r) = items ops r"
  by (auto simp: rolling_get_all_def items_def bit_items_def set_u64_range)

lemma window_disjoint: "window_ok ops r \<Longrightarrow> set (rb_excess r) \<inter> bit_items ops r = {}"
  by (auto simp: window_ok_def)

lemma count_items: "window_ok ops r \<Longrightarrow> rb_count r = card (items ops r)"
  using window_disjoint [of ops r] by (simp add: items_def card_Un_disjoint window_ok_def distinct_card)

section \<open>Every operation is that of the set\<close>

lemma rolling_new_ok:
  assumes "bit_ops_ok ops" and "rolling_new ops w = Inr r"
  shows "rolling_ok ops r" and "items ops r = {}" and "rb_max_width r = w"
proof -
  have r: "r = \<lparr>rb_max_width = w, rb_min = 0, rb_max = 0, rb_bits = bv_new_fill ops False w, rb_count = 0, rb_excess = []\<rparr>" "0 < w"
    using assms(2) by (auto simp: rolling_new_def result_simps)
  then show "rolling_ok ops r" "items ops r = {}" "rb_max_width r = w"
    using assms(1) by (simp_all add: rolling_ok_def window_ok_def items_def bit_items_def bit_ops_ok_def)
qed

text \<open>Moving the minimum up to the first bit that is set.\<close>

lemma first_bit:
  assumes "bit_items ops r \<noteq> {}" and gone: "rb_min r \<notin> bit_items ops r"
  obtains j where "find (contains_assume_in_range ops r) (u64_range (rb_min r + 1) (rb_max r)) = Some j"
    and "j \<in> bit_items ops r" and "\<forall>i \<in> bit_items ops r. j \<le> i"
proof -
  have lt: "rb_min r < rb_max r" using assms(1) by (auto simp: bit_items_def)
  have start: "rb_min r + 1 \<le> j \<longleftrightarrow> rb_min r < j" for j
    using lt unat_add_no_wrap [of "rb_min r" 1] unat_less_exp [of "rb_max r"]
    by (simp add: word_le_nat_alt word_less_nat_alt Suc_le_eq)
  have above: "rb_min r < i" if "i \<in> bit_items ops r" for i
    using that gone by (cases "i = rb_min r") (auto simp: bit_items_def)
  obtain i where "i \<in> bit_items ops r" using assms(1) by auto
  with above have "i \<in> set (u64_range (rb_min r + 1) (rb_max r))" "contains_assume_in_range ops r i"
    by (auto simp: set_u64_range start bit_items_def)
  then obtain j where j: "find (contains_assume_in_range ops r) (u64_range (rb_min r + 1) (rb_max r)) = Some j"
    by (metis find_None_iff option.exhaust)
  note first = find_u64_range [OF j]
  have "j \<in> bit_items ops r" using first by (simp add: bit_items_def start)
  moreover have "j \<le> i" if "i \<in> bit_items ops r" for i
    using first(4) [of i] above [OF that] that by (cases "j \<le> i") (auto simp: start bit_items_def)
  ultimately show ?thesis using j that by blast
qed

lemma window_raise_min:
  assumes ok: "window_ok ops r" and j: "rb_min r \<le> j" "j \<le> rb_max r" "\<forall>i \<in> bit_items ops r. j \<le> i"
  shows "window_ok ops (r\<lparr>rb_min := j\<rparr>)" and "bit_items ops (r\<lparr>rb_min := j\<rparr>) = bit_items ops r"
proof -
  show same: "bit_items ops (r\<lparr>rb_min := j\<rparr>) = bit_items ops r"
    using j by (auto simp: bit_items_def contains_assume_in_range_def get_address_def)
  have "unat (rb_max r) \<le> unat j + unat (rb_max_width r)" using ok j(1) by (simp add: window_ok_def word_le_nat_alt)
  moreover have "\<forall>x \<in> set (rb_excess r). x \<le> j" using ok j(1) by (auto simp: window_ok_def intro: order_trans)
  ultimately show "window_ok ops (r\<lparr>rb_min := j\<rparr>)"
    using ok j(2) by (simp add: window_ok_def same get_address_def)
qed

lemma purge_ok:
  assumes ok: "window_ok ops r" and k: "if k = rb_min r then k \<notin> bit_items ops r else rb_min r \<in> bit_items ops r"
  shows "rolling_ok ops (purge ops k r)" and "bit_items ops (purge ops k r) = bit_items ops r"
    and "rb_count (purge ops k r) = rb_count r" and "rb_max (purge ops k r) = rb_max r"
    and "rb_max_width (purge ops k r) = rb_max_width r"
proof -
  have "rolling_ok ops (purge ops k r) \<and> bit_items ops (purge ops k r) = bit_items ops r"
  proof (cases "bit_items ops r = {}")
    case True
    then have p: "purge ops k r = r\<lparr>rb_min := rb_max r\<rparr>" using window_all_excess [OF ok] by (simp add: purge_def)
    have "rb_min r \<le> rb_max r" "\<forall>x \<in> set (rb_excess r). x < rb_max r" using ok by (simp_all add: window_ok_def)
    then show ?thesis using window_raise_min [OF ok, of "rb_max r"] True by (simp add: p rolling_ok_def)
  next
    case ne: False
    then have busy: "0 < rb_count r" "\<not> all_items_in_excess r"
      using window_all_excess [OF ok] ok by (auto simp: window_ok_def card_gt_0_iff)
    show ?thesis
    proof (cases "k = rb_min r")
      case True
      with k have "rb_min r \<notin> bit_items ops r" by simp
      with ne obtain j where j: "find (contains_assume_in_range ops r) (u64_range (rb_min r + 1) (rb_max r)) = Some j"
        "j \<in> bit_items ops r" "\<forall>i \<in> bit_items ops r. j \<le> i" by (rule first_bit)
      then have "rb_min r \<le> j" "j \<le> rb_max r" by (auto simp: bit_items_def)
      moreover have "\<forall>x \<in> set (rb_excess r). x < j"
        using ok j(2) \<open>rb_min r \<le> j\<close> by (auto simp: window_ok_def order.strict_iff_order intro: order_trans)
      moreover have "purge ops k r = r\<lparr>rb_min := j\<rparr>" using busy True j(1) by (simp add: purge_def)
      ultimately show ?thesis using window_raise_min [OF ok _ _ j(3)] j(2) ne by (simp add: rolling_ok_def)
    next
      case False
      then have "rb_min r \<in> bit_items ops r" "purge ops k r = r" using k busy by (simp_all add: purge_def)
      moreover from this(1) have "\<forall>x \<in> set (rb_excess r). x < rb_min r"
        using ok by (auto simp: window_ok_def order.strict_iff_order)
      ultimately show ?thesis using ok ne by (simp add: rolling_ok_def)
    qed
  qed
  then show "rolling_ok ops (purge ops k r)" and "bit_items ops (purge ops k r) = bit_items ops r" by auto
qed (simp_all add: purge_def split: option.split)

text \<open>Clearing the bit of an item, which leaves the bits for the excess (\<open>e\<close> the item) or for good.\<close>

lemma bits_after_clear:
  assumes ops: "bit_ops_ok ops" and ok: "window_ok ops r" and k: "k \<in> bit_items ops r"
  shows "bit_items ops (r\<lparr>rb_bits := bv_set ops (rb_bits r) (get_address r k) False\<rparr>) = bit_items ops r - {k}"
proof -
  let ?r = "r\<lparr>rb_bits := bv_set ops (rb_bits r) (get_address r k) False\<rparr>"
  have w: "0 < rb_max_width r" "bv_len ops (rb_bits r) = rb_max_width r" using ok by (simp_all add: window_ok_def)
  have get: "contains_assume_in_range ops ?r j \<longleftrightarrow> contains_assume_in_range ops r j \<and> get_address r j \<noteq> get_address r k" for j
    using ops address_less [OF w(1)] w(2)
    by (auto simp: contains_assume_in_range_def bit_ops_ok_def get_address_def)
  show ?thesis
  proof (intro set_eqI iffI)
    fix j assume "j \<in> bit_items ops ?r"
    then show "j \<in> bit_items ops r - {k}" by (auto simp: bit_items_def get)
  next
    fix j assume j: "j \<in> bit_items ops r - {k}"
    then have "get_address r j \<noteq> get_address r k" using window_address_inj [OF ok _ k, of j] by auto
    with j show "j \<in> bit_items ops ?r" by (auto simp: bit_items_def get)
  qed
qed

lemma bits_stay_in_window:
  assumes ops: "bit_ops_ok ops" and ok: "window_ok ops r" and k: "k \<in> bit_items ops r" and a: "a < rb_max_width r"
    and get: "bv_get ops (bv_set ops (rb_bits r) (get_address r k) False) a"
  shows "\<exists>j \<in> bit_items ops r - {k}. get_address r j = a"
proof -
  have w: "0 < rb_max_width r" "bv_len ops (rb_bits r) = rb_max_width r" using ok by (simp_all add: window_ok_def)
  then have "a \<noteq> get_address r k" "bv_get ops (rb_bits r) a"
    using get a ops address_less [OF w(1), of k] by (auto simp: bit_ops_ok_def split: if_splits)
  with ok a show ?thesis by (auto simp: window_ok_def)
qed

text \<open>
  The states between clearing the bit of \<open>k\<close> and purging: \<open>k\<close> has gone, or it is the minimum and has moved
  to the excess.
\<close>

lemma window_cleared:
  assumes ops: "bit_ops_ok ops" and ok: "window_ok ops r" and k: "k \<in> bit_items ops r"
  shows "window_ok ops (r\<lparr>rb_count := rb_count r - 1, rb_bits := bv_set ops (rb_bits r) (get_address r k) False\<rparr>)"
proof -
  let ?b = "bv_set ops (rb_bits r) (get_address r k) False"
  have w: "0 < rb_max_width r" "bv_len ops (rb_bits r) = rb_max_width r" using ok by (simp_all add: window_ok_def)
  have "bv_len ops ?b = rb_max_width r"
    using ops address_less [OF w(1), of k] w(2) by (simp add: bit_ops_ok_def)
  moreover have "bit_items ops (r\<lparr>rb_count := rb_count r - 1, rb_bits := ?b\<rparr>) = bit_items ops r - {k}"
    using bits_after_clear [OF ops ok k] by (simp add: bit_items_def contains_assume_in_range_def get_address_def)
  moreover have "rb_count r - 1 = length (rb_excess r) + card (bit_items ops r - {k})"
    using ok k card_gt_0_iff [of "bit_items ops r"] by (auto simp: window_ok_def card_Diff_singleton)
  ultimately show ?thesis
    using ok bits_stay_in_window [OF ops ok k] by (simp add: window_ok_def get_address_def)
qed

lemma window_moved_to_excess:
  assumes ops: "bit_ops_ok ops" and ok: "window_ok ops r" and k: "rb_min r \<in> bit_items ops r"
  shows "window_ok ops (r\<lparr>rb_excess := rb_min r # rb_excess r, rb_bits := bv_set ops (rb_bits r) (get_address r (rb_min r)) False\<rparr>)"
proof -
  let ?b = "bv_set ops (rb_bits r) (get_address r (rb_min r)) False"
  have w: "0 < rb_max_width r" "bv_len ops (rb_bits r) = rb_max_width r" using ok by (simp_all add: window_ok_def)
  have "bv_len ops ?b = rb_max_width r"
    using ops address_less [OF w(1), of "rb_min r"] w(2) by (simp add: bit_ops_ok_def)
  moreover have "bit_items ops (r\<lparr>rb_excess := rb_min r # rb_excess r, rb_bits := ?b\<rparr>) = bit_items ops r - {rb_min r}"
    using bits_after_clear [OF ops ok k] by (simp add: bit_items_def contains_assume_in_range_def get_address_def)
  moreover have "rb_count r = Suc (length (rb_excess r)) + card (bit_items ops r - {rb_min r})"
    using ok k card_Suc_Diff1 [of "bit_items ops r" "rb_min r"] by (simp add: window_ok_def)
  moreover have "rb_min r < rb_max r" "rb_min r \<notin> set (rb_excess r)" using ok k by (auto simp: window_ok_def bit_items_def)
  ultimately show ?thesis
    using ok bits_stay_in_window [OF ops ok k] by (simp add: window_ok_def get_address_def)
qed

text \<open>Making room moves items from the bits to the excess, and the set stays the same.\<close>

lemma make_room_ok:
  assumes ops: "bit_ops_ok ops" and "rolling_ok ops r" and "bit_items ops r \<noteq> {}" and "rb_max r < new_max"
  shows "\<exists>r' emptied. make_room ops new_max r = Some (Inr (r', emptied)) \<and> rolling_ok ops r' \<and> items ops r' = items ops r
    \<and> rb_max r' = rb_max r \<and> rb_max_width r' = rb_max_width r \<and> (emptied \<longleftrightarrow> bit_items ops r' = {})
    \<and> (\<not> emptied \<longrightarrow> unat new_max \<le> unat (rb_min r') + unat (rb_max_width r'))"
  using assms(2-)
proof (induction "card (bit_items ops r)" arbitrary: r rule: less_induct)
  case less
  have win: "window_ok ops r" and k: "rb_min r \<in> bit_items ops r" using less.prems(1,2) by (auto simp: rolling_ok_def)
  show ?case
  proof (cases "saturating_sub new_max (rb_min r) \<le> rb_max_width r")
    case True
    then have "unat new_max \<le> unat (rb_min r) + unat (rb_max_width r)"
      by (simp add: word_le_nat_alt unat_saturating_sub)
    with True less.prems show ?thesis by (subst make_room.simps) auto
  next
    case False
    let ?r1 = "r\<lparr>rb_excess := rb_min r # rb_excess r, rb_bits := bv_set ops (rb_bits r) (get_address r (rb_min r)) False\<rparr>"
    let ?r2 = "purge ops (rb_min r) ?r1"
    have b1: "bit_items ops ?r1 = bit_items ops r - {rb_min r}"
      using bits_after_clear [OF ops win k] by (simp add: bit_items_def contains_assume_in_range_def get_address_def)
    have new: "rb_min r \<notin> set (rb_excess r)" using win k by (auto simp: window_ok_def)
    have r2: "rolling_ok ops ?r2" "bit_items ops ?r2 = bit_items ops r - {rb_min r}" "rb_max ?r2 = rb_max r"
      "rb_max_width ?r2 = rb_max_width r"
      using purge_ok [OF window_moved_to_excess [OF ops win k], of "rb_min r"] by (simp_all add: b1)
    have same: "items ops ?r2 = items ops r" using r2(2) k by (auto simp: items_def)
    have empty: "all_items_in_excess ?r2 \<longleftrightarrow> bit_items ops ?r2 = {}"
      using r2(1) by (intro window_all_excess) (simp add: rolling_ok_def)
    have step: "make_room ops new_max r = (if all_items_in_excess ?r2 then Some (Inr (?r2, True)) else make_room ops new_max ?r2)"
      using False new by (subst make_room.simps) (simp add: Let_def)
    show ?thesis
    proof (cases "bit_items ops ?r2 = {}")
      case True
      with r2 same empty step show ?thesis by auto
    next
      case ne: False
      have "card (bit_items ops ?r2) < card (bit_items ops r)" using k unfolding r2(2) by (intro psubset_card_mono) auto
      from less.hyps [OF this r2(1) ne] less.prems(3) r2(3,4) same empty ne step show ?thesis by simp
    qed
  qed
qed

text \<open>Setting the bit of a key, in a window that takes it.\<close>

lemma bits_after_set:
  assumes ops: "bit_ops_ok ops" and w: "0 < rb_max_width r" "bv_len ops (rb_bits r) = rb_max_width r" and a: "a < rb_max_width r"
  shows "bv_len ops (bv_set ops (rb_bits r) (get_address r k) True) = rb_max_width r"
    and "bv_get ops (bv_set ops (rb_bits r) (get_address r k) True) a \<longleftrightarrow> bv_get ops (rb_bits r) a \<or> a = get_address r k"
  using ops a w(2) address_less [OF w(1), of k] by (auto simp: bit_ops_ok_def)

lemma rolling_okI:
  assumes "0 < rb_max_width r" and "bv_len ops (rb_bits r) = rb_max_width r"
    and "unat (rb_max r) \<le> unat (rb_min r) + unat (rb_max_width r)" and "distinct (rb_excess r)"
    and "\<forall>x \<in> set (rb_excess r). x < rb_min r" and "rb_min r \<in> bit_items ops r"
    and "\<forall>a < rb_max_width r. bv_get ops (rb_bits r) a \<longrightarrow> (\<exists>k \<in> bit_items ops r. get_address r k = a)"
    and "rb_count r = length (rb_excess r) + card (bit_items ops r)"
  shows "rolling_ok ops r"
proof -
  have "rb_min r < rb_max r" using assms(6) by (simp add: bit_items_def)
  moreover have "x \<le> rb_min r \<and> x < rb_max r \<and> x \<notin> bit_items ops r" if "x \<in> set (rb_excess r)" for x
    using assms(5) that \<open>rb_min r < rb_max r\<close> by (auto simp: bit_items_def)
  ultimately show ?thesis using assms by (auto simp: rolling_ok_def window_ok_def)
qed

lemma set_bit_empty:
  assumes ops: "bit_ops_ok ops" and ok: "rolling_ok ops r" and none: "bit_items ops r = {}"
    and above: "\<forall>x \<in> set (rb_excess r). x < k" and k: "unat k + unat (rb_max_width r) < 2 ^ 64"
  shows "\<exists>r'. set_bit_of ops k True r = Inr r' \<and> rolling_ok ops r' \<and> items ops r' = insert k (items ops r)
    \<and> k \<in> bit_items ops r' \<and> rb_max_width r' = rb_max_width r"
proof -
  define r' where "r' = r\<lparr>rb_bits := bv_set ops (rb_bits r) (get_address r k) True, rb_min := k, rb_max := k + 1,
    rb_count := rb_count r + 1\<rparr>"
  have f: "rb_max_width r' = rb_max_width r" "rb_min r' = k" "rb_max r' = k + 1" "rb_count r' = rb_count r + 1"
    "rb_bits r' = bv_set ops (rb_bits r) (get_address r k) True" "rb_excess r' = rb_excess r"
    "\<And>j. get_address r' j = get_address r j"
    by (simp_all add: r'_def get_address_def)
  have win: "window_ok ops r" using ok by (simp add: rolling_ok_def)
  then have w: "0 < rb_max_width r" "bv_len ops (rb_bits r) = rb_max_width r" by (simp_all add: window_ok_def)
  note set = bits_after_set [OF ops w, of _ k] and addr = address_less [OF w(1)]
  have clear: "\<not> bv_get ops (rb_bits r) a" if "a < rb_max_width r" for a
    using win none that by (auto simp: window_ok_def)
  have k1: "unat (k + 1) = unat k + 1" using k w(1) unat_add_no_wrap [of k 1] by (simp add: word_less_nat_alt)
  have "j = k" if "k \<le> j" "j < k + 1" for j
    using that by (simp add: word_le_nat_alt word_less_nat_alt k1 word_unat_eq_iff)
  then have bits: "bit_items ops r' = {k}"
    using set(2) [OF addr] k1 by (auto simp: bit_items_def contains_assume_in_range_def f word_less_nat_alt)
  have "\<forall>a < rb_max_width r'. bv_get ops (rb_bits r') a \<longrightarrow> (\<exists>j \<in> bit_items ops r'. get_address r' j = a)"
    using set(2) clear by (auto simp: f bits)
  then have "rolling_ok ops r'"
    using w win above none set(1) [OF addr] by (intro rolling_okI) (simp_all add: f bits k1 window_ok_def word_less_nat_alt Suc_le_eq)
  moreover have "set_bit_of ops k True r = Inr r'"
    using clear [OF addr] by (simp add: set_bit_of_def Let_def r'_def)
  ultimately show ?thesis using bits none f(6) by (auto simp: items_def f(1))
qed

lemma window_inj:
  assumes "get_address r j = get_address r k"
    and "rb_min r \<le> j" "unat j < unat (rb_min r) + unat (rb_max_width r)"
    and "rb_min r \<le> k" "unat k < unat (rb_min r) + unat (rb_max_width r)"
  shows "j = k"
proof (cases "j \<le> k")
  case True
  then show ?thesis using address_inj [OF assms(1)] assms(2,5) by (simp add: word_le_nat_alt)
next
  case False
  then show ?thesis using address_inj [OF assms(1) [symmetric]] assms(3,4) by (simp add: word_le_nat_alt)
qed

lemma window_takes:
  assumes ok: "rolling_ok ops r" and fits: "rb_min r \<le> k" "unat k < unat (rb_min r) + unat (rb_max_width r)"
  shows "bv_get ops (rb_bits r) (get_address r k) \<longleftrightarrow> k \<in> bit_items ops r"
proof
  assume "k \<in> bit_items ops r"
  then show "bv_get ops (rb_bits r) (get_address r k)" by (simp add: bit_items_def contains_assume_in_range_def)
next
  assume get: "bv_get ops (rb_bits r) (get_address r k)"
  have win: "window_ok ops r" using ok by (simp add: rolling_ok_def)
  then have "get_address r k < rb_max_width r" by (intro address_less) (simp add: window_ok_def)
  with win get obtain j where j: "j \<in> bit_items ops r" "get_address r j = get_address r k" by (auto simp: window_ok_def)
  have jw: "rb_min r \<le> j" "unat j < unat (rb_min r) + unat (rb_max_width r)"
    using j(1) win by (auto simp: bit_items_def window_ok_def word_less_nat_alt)
  have "j = k" by (rule window_inj [OF j(2) jw fits])
  with j show "k \<in> bit_items ops r" by simp
qed

lemma set_bit_within:
  assumes ops: "bit_ops_ok ops" and ok: "rolling_ok ops r" and ne: "bit_items ops r \<noteq> {}"
    and fits: "rb_min r \<le> k" "unat k < unat (rb_min r) + unat (rb_max_width r)" and k: "unat k + unat (rb_max_width r) < 2 ^ 64"
  shows "\<exists>r'. set_bit_of ops k False r = Inr r' \<and> rolling_ok ops r' \<and> items ops r' = insert k (items ops r)
    \<and> k \<in> bit_items ops r' \<and> rb_max_width r' = rb_max_width r"
proof (cases "k \<in> bit_items ops r")
  case True
  then have "set_bit_of ops k False r = Inr r" using window_takes [OF ok fits] by (simp add: set_bit_of_def Let_def)
  with True ok show ?thesis by (auto simp: items_def)
next
  case False
  define r' where "r' = r\<lparr>rb_bits := bv_set ops (rb_bits r) (get_address r k) True, rb_min := min (rb_min r) k,
    rb_max := max (rb_max r) (k + 1), rb_count := rb_count r + 1\<rparr>"
  have f: "rb_max_width r' = rb_max_width r" "rb_min r' = rb_min r" "rb_max r' = max (rb_max r) (k + 1)"
    "rb_count r' = rb_count r + 1" "rb_bits r' = bv_set ops (rb_bits r) (get_address r k) True"
    "rb_excess r' = rb_excess r" "\<And>j. get_address r' j = get_address r j"
    using fits(1) by (simp_all add: r'_def get_address_def min_def)
  have win: "window_ok ops r" and m: "rb_min r \<in> bit_items ops r" using ok ne by (simp_all add: rolling_ok_def)
  then have w: "0 < rb_max_width r" "bv_len ops (rb_bits r) = rb_max_width r" by (simp_all add: window_ok_def)
  note set = bits_after_set [OF ops w, of _ k] and addr = address_less [OF w(1)]
  have k1: "unat (k + 1) = unat k + 1" using k w(1) unat_add_no_wrap [of k 1] by (simp add: word_less_nat_alt)
  have bound: "unat (max (rb_max r) (k + 1)) \<le> unat (rb_min r) + unat (rb_max_width r)"
    using win fits(2) by (simp add: max_def k1 window_ok_def)
  have bits: "bit_items ops r' = insert k (bit_items ops r)"
  proof (intro set_eqI)
    fix j
    have small: "unat j < unat (rb_min r) + unat (rb_max_width r)" if "j < max (rb_max r) (k + 1)"
      using that bound by (simp add: word_less_nat_alt)
    have "j \<in> bit_items ops r' \<longleftrightarrow> rb_min r \<le> j \<and> j < max (rb_max r) (k + 1) \<and> (j \<in> bit_items ops r \<or> j = k)"
      using small set(2) [OF addr, of j] window_takes [OF ok, of j] window_inj [of r j k] fits
      by (auto simp: bit_items_def [of ops r'] contains_assume_in_range_def f)
    moreover have "k < k + 1" by (simp add: word_less_nat_alt k1)
    ultimately show "j \<in> bit_items ops r' \<longleftrightarrow> j \<in> insert k (bit_items ops r)"
      using fits(1) by (auto simp: bit_items_def less_max_iff_disj)
  qed
  have "\<forall>a < rb_max_width r'. bv_get ops (rb_bits r') a \<longrightarrow> (\<exists>j \<in> bit_items ops r'. get_address r' j = a)"
    using set(2) win by (auto simp: f bits window_ok_def)
  then have "rolling_ok ops r'"
    using w win m False bound set(1) [OF addr] ok
    by (intro rolling_okI) (simp_all add: f bits window_ok_def rolling_ok_def)
  moreover have "set_bit_of ops k False r = Inr r'"
  proof -
    have "unat (rb_min r + rb_max_width r) = unat (rb_min r) + unat (rb_max_width r)"
      using k fits(1) by (intro unat_add_no_wrap) (simp add: word_le_nat_alt)
    then have "max (rb_max r) (k + 1) \<le> rb_min r + rb_max_width r" using bound by (simp add: word_le_nat_alt)
    then show ?thesis using window_takes [OF ok fits] False fits(1) by (simp add: set_bit_of_def Let_def r'_def min_def)
  qed
  ultimately show ?thesis using f(1,6) bits by (auto simp: items_def)
qed

lemma excess_insert:
  assumes ok: "rolling_ok ops r" and ne: "bit_items ops r \<noteq> {}" and k: "k < rb_min r" "k \<notin> set (rb_excess r)"
  defines "r' \<equiv> r\<lparr>rb_excess := k # rb_excess r, rb_count := rb_count r + 1\<rparr>"
  shows "rolling_ok ops r'" and "bit_items ops r' = bit_items ops r" and "items ops r' = insert k (items ops r)"
proof -
  show bits: "bit_items ops r' = bit_items ops r"
    by (simp add: r'_def bit_items_def contains_assume_in_range_def get_address_def)
  then show "items ops r' = insert k (items ops r)" by (simp add: items_def r'_def)
  have "window_ok ops r" "rb_min r \<in> bit_items ops r" using ok ne by (simp_all add: rolling_ok_def)
  with ok k show "rolling_ok ops r'"
    by (intro rolling_okI; simp only: bits) (simp_all add: r'_def window_ok_def rolling_ok_def get_address_def)
qed

lemma insert_above:
  assumes ops: "bit_ops_ok ops" and ok: "rolling_ok ops r" and ne: "bit_items ops r \<noteq> {}" and above: "rb_max r \<le> k"
    and k: "unat k + unat (rb_max_width r) < 2 ^ 64"
  shows "\<exists>r1 emptied r'. make_room ops (k + 1) r = Some (Inr (r1, emptied)) \<and> set_bit_of ops k emptied r1 = Inr r'
    \<and> rolling_ok ops r' \<and> items ops r' = insert k (items ops r) \<and> k \<in> bit_items ops r' \<and> rb_max_width r' = rb_max_width r"
proof -
  have "0 < rb_max_width r" using ok by (simp add: rolling_ok_def window_ok_def)
  then have k1: "unat (k + 1) = unat k + 1" using k unat_add_no_wrap [of k 1] by (simp add: word_less_nat_alt)
  then have "rb_max r < k + 1" using above by (simp add: word_le_nat_alt word_less_nat_alt)
  from make_room_ok [OF ops ok ne this] obtain r1 emptied where
    room: "make_room ops (k + 1) r = Some (Inr (r1, emptied))" "rolling_ok ops r1" "items ops r1 = items ops r"
      "rb_max r1 = rb_max r" "rb_max_width r1 = rb_max_width r" "emptied \<longleftrightarrow> bit_items ops r1 = {}"
      "\<not> emptied \<longrightarrow> unat (k + 1) \<le> unat (rb_min r1) + unat (rb_max_width r1)" by blast
  have "\<exists>r'. set_bit_of ops k emptied r1 = Inr r' \<and> rolling_ok ops r' \<and> items ops r' = insert k (items ops r1)
      \<and> k \<in> bit_items ops r' \<and> rb_max_width r' = rb_max_width r1"
  proof (cases emptied)
    case True
    have "\<forall>x \<in> set (rb_excess r1). x < k"
      using room(2,4) above by (auto simp: rolling_ok_def window_ok_def intro: less_le_trans)
    with True set_bit_empty [OF ops room(2), of k] room(5,6) k show ?thesis by simp
  next
    case False
    have "rb_min r1 \<le> k"
      using False room(2,4,6) above by (auto simp: rolling_ok_def window_ok_def intro: order_trans)
    moreover have "unat k < unat (rb_min r1) + unat (rb_max_width r1)" using False room(7) k1 by simp
    ultimately show ?thesis using False set_bit_within [OF ops room(2), of k] room(5,6) k by simp
  qed
  with room show ?thesis by auto
qed

text \<open>
  Inserting and removing are those of the set, as long as a key that meets empty bits is above all excess
  items and the window of a key does not reach the end of the 64 bits.
\<close>

lemma rolling_insert_ok:
  assumes ops: "bit_ops_ok ops" and ok: "rolling_ok ops r" and above: "bit_items ops r = {} \<longrightarrow> (\<forall>x \<in> items ops r. x < k)"
    and k: "unat k + unat (rb_max_width r) < 2 ^ 64"
  shows "\<exists>r'. rolling_insert ops k r = Some (Inr r') \<and> rolling_ok ops r' \<and> items ops r' = insert k (items ops r)
    \<and> bit_items ops r' \<noteq> {} \<and> rb_max_width r' = rb_max_width r"
proof -
  have win: "window_ok ops r" using ok by (simp add: rolling_ok_def)
  have empty: "rb_count r = 0 \<or> all_items_in_excess r \<longleftrightarrow> bit_items ops r = {}"
    using window_all_excess [OF win] win by (auto simp: window_ok_def)
  show ?thesis
  proof (cases "bit_items ops r = {}")
    case True
    then have "rolling_insert ops k r = Some (set_bit_of ops k True r)" using empty by (simp add: rolling_insert_def)
    with set_bit_empty [OF ops ok True _ k] above True show ?thesis by (auto simp: items_def)
  next
    case ne: False
    have min: "rb_min r \<in> bit_items ops r" using ok ne by (simp add: rolling_ok_def)
    consider "k < rb_min r" | "rb_min r \<le> k" "k < rb_max r" | "rb_max r \<le> k" by fastforce
    then show ?thesis
    proof cases
      case 1
      then have "rolling_insert ops k r = Some (Inr (if k \<in> set (rb_excess r) then r
          else r\<lparr>rb_excess := k # rb_excess r, rb_count := rb_count r + 1\<rparr>))"
        using empty ne by (simp add: rolling_insert_def)
      then show ?thesis using excess_insert [OF ok ne 1] ok ne by (auto simp: items_def)
    next
      case 2
      then have "rolling_insert ops k r = Some (set_bit_of ops k False r)"
        using empty ne by (simp add: rolling_insert_def) auto
      moreover have "unat k < unat (rb_min r) + unat (rb_max_width r)"
        using 2(2) win by (simp add: window_ok_def word_less_nat_alt)
      ultimately show ?thesis using set_bit_within [OF ops ok ne 2(1) _ k] by auto
    next
      case 3
      then have "\<not> k < rb_min r" "\<not> k < rb_max r" using win by (auto simp: window_ok_def)
      then have "rolling_insert ops k r =
          map_option (\<lambda>res. bind_r res (\<lambda>(r', emptied). set_bit_of ops k emptied r')) (make_room ops (k + 1) r)"
        using empty ne by (simp add: rolling_insert_def)
      with insert_above [OF ops ok ne 3 k] show ?thesis by auto
    qed
  qed
qed

lemma excess_remove:
  assumes ok: "rolling_ok ops r" and k: "k \<in> set (rb_excess r)"
  defines "r' \<equiv> r\<lparr>rb_excess := removeAll k (rb_excess r), rb_count := rb_count r - 1\<rparr>"
  shows "rolling_ok ops r'" and "items ops r' = items ops r - {k}"
proof -
  have win: "window_ok ops r" using ok by (simp add: rolling_ok_def)
  have bits: "bit_items ops r' = bit_items ops r"
    by (simp add: r'_def bit_items_def contains_assume_in_range_def get_address_def)
  show "items ops r' = items ops r - {k}" using window_disjoint [OF win] k unfolding items_def bits by (auto simp: r'_def)
  have "length (removeAll k (rb_excess r)) = length (rb_excess r) - 1"
    using win k distinct_card [of "rb_excess r"] distinct_card [of "removeAll k (rb_excess r)"]
    by (simp add: window_ok_def distinct_removeAll card_Diff_singleton)
  moreover have "0 < length (rb_excess r)" using k by (auto intro: length_pos_if_in_set)
  moreover have "rb_count r = length (rb_excess r) + card (bit_items ops r)" using win by (simp add: window_ok_def)
  ultimately have "rb_count r - 1 = length (removeAll k (rb_excess r)) + card (bit_items ops r)" by linarith
  then have "rb_count r' = length (rb_excess r') + card (bit_items ops r')" unfolding bits by (simp add: r'_def)
  with ok show "rolling_ok ops r'"
    unfolding rolling_ok_def window_ok_def bits
    by (auto simp: r'_def get_address_def distinct_removeAll)
qed

lemma rolling_remove_ok:
  assumes ops: "bit_ops_ok ops" and ok: "rolling_ok ops r"
  shows "fst (rolling_remove ops k r) \<longleftrightarrow> k \<in> items ops r" and "rolling_ok ops (snd (rolling_remove ops k r))"
    and "items ops (snd (rolling_remove ops k r)) = items ops r - {k}"
proof -
  have win: "window_ok ops r" using ok by (simp add: rolling_ok_def)
  have low: "x < rb_min r" if "x \<in> set (rb_excess r)" for x using ok that by (simp add: rolling_ok_def)
  have "(fst (rolling_remove ops k r) \<longleftrightarrow> k \<in> items ops r) \<and> rolling_ok ops (snd (rolling_remove ops k r))
      \<and> items ops (snd (rolling_remove ops k r)) = items ops r - {k}"
  proof (cases "k \<in> bit_items ops r")
    case True
    define r1 where "r1 = r\<lparr>rb_count := rb_count r - 1, rb_bits := bv_set ops (rb_bits r) (get_address r k) False\<rparr>"
    have run: "rolling_remove ops k r = (True, purge ops k r1)"
      using True by (simp add: rolling_remove_def bit_items_def contains_assume_in_range_def Let_def r1_def)
    have f: "rb_min r1 = rb_min r" "rb_excess r1 = rb_excess r" "bit_items ops r1 = bit_items ops r - {k}"
      using bits_after_clear [OF ops win True]
      by (simp_all add: r1_def bit_items_def contains_assume_in_range_def get_address_def)
    have "rb_min r \<in> bit_items ops r" using ok True by (auto simp: rolling_ok_def split: if_splits)
    then have "if k = rb_min r1 then k \<notin> bit_items ops r1 else rb_min r1 \<in> bit_items ops r1" by (simp add: f)
    note purged = purge_ok [OF window_cleared [OF ops win True, folded r1_def] this]
    have "k \<notin> set (rb_excess r)" using win True by (auto simp: window_ok_def)
    then show ?thesis unfolding run using purged(1,2) True by (auto simp: items_def f)
  next
    case out: False
    show ?thesis
    proof (cases "k \<in> set (rb_excess r)")
      case True
      have "\<not> rb_min r \<le> k" using low [OF True] by simp
      with True have "rolling_remove ops k r =
          (True, r\<lparr>rb_excess := removeAll k (rb_excess r), rb_count := rb_count r - 1\<rparr>)"
        by (simp add: rolling_remove_def)
      with excess_remove [OF ok True] True show ?thesis by (simp add: items_def)
    next
      case False
      with out have "rolling_remove ops k r = (False, r)"
        by (auto simp: rolling_remove_def bit_items_def contains_assume_in_range_def Let_def)
      with ok out False show ?thesis by (simp add: items_def)
    qed
  qed
  then show "fst (rolling_remove ops k r) \<longleftrightarrow> k \<in> items ops r" "rolling_ok ops (snd (rolling_remove ops k r))"
    "items ops (snd (rolling_remove ops k r)) = items ops r - {k}" by auto
qed

lemma distinct_get_all: "rolling_ok ops r \<Longrightarrow> distinct (rolling_get_all ops r)"
  by (auto simp: rolling_get_all_def rolling_ok_def window_ok_def set_u64_range distinct_u64_range)

lemma fold_min: "fold min xs m = Min (insert (m :: 'a::linorder) (set xs))"
  by (simp add: Min.set_eq_fold [symmetric] insert_commute)

lemma rolling_min_items:
  assumes ok: "rolling_ok ops r"
  shows "rolling_min r = (if items ops r = {} then None else Some (Min (items ops r)))"
proof -
  have win: "window_ok ops r" using ok by (simp add: rolling_ok_def)
  have fin: "finite (items ops r)" by (simp add: items_def)
  show ?thesis
  proof (cases "items ops r = {}")
    case True
    then show ?thesis using count_items [OF win] by (simp add: rolling_min_def)
  next
    case ne: False
    then have count: "rb_count r \<noteq> 0" using count_items [OF win] fin by simp
    show ?thesis
    proof (cases "bit_items ops r = {}")
      case True
      then have i: "items ops r = set (rb_excess r)" "rb_excess r \<noteq> []" using ne by (auto simp: items_def)
      have "all_items_in_excess r" using window_all_excess [OF win] True by simp
      moreover have "Min (insert max_val (set (rb_excess r))) = Min (set (rb_excess r))"
        using i(2) by (simp add: min_absorb2)
      ultimately show ?thesis using ne i count by (simp add: rolling_min_def fold_min)
    next
      case False
      then have m: "rb_min r \<in> bit_items ops r" and "\<not> all_items_in_excess r"
        using ok window_all_excess [OF win] by (simp_all add: rolling_ok_def)
      have "Min (items ops r) = Min (insert (rb_min r) (set (rb_excess r)))"
      proof (rule Min_eqI)
        show "Min (insert (rb_min r) (set (rb_excess r))) \<le> y" if "y \<in> items ops r" for y
          using that by (subst Min_le_iff) (auto simp: items_def bit_items_def)
        show "Min (insert (rb_min r) (set (rb_excess r))) \<in> items ops r"
          using Min_in [of "insert (rb_min r) (set (rb_excess r))"] m by (auto simp: items_def)
      qed (simp add: fin)
      then show ?thesis using ne count \<open>\<not> all_items_in_excess r\<close> by (simp add: rolling_min_def fold_min)
    qed
  qed
qed

end
