(* ===== verification/Ancestors.thy ===== *)
theory Ancestors
  imports Rolling_Bits
begin

text \<open>
  \<open>Ancestors\<close> of \<open>runtime/src/ancestors.rs\<close>, the slots a bank descends from, on a rolling bit field; and
  the properties of the bit field over whole runs of insertions and removals.
\<close>

section \<open>The operations\<close>

type_synonym 'v ancestors = "'v rolling_bit_field"

definition ANCESTORS_HASH_MAP_SIZE :: u64 where
  "ANCESTORS_HASH_MAP_SIZE = 8192"

definition ancestors_default :: "'v bit_ops \<Rightarrow> 'v ancestors ix_result" where
  "ancestors_default ops = rolling_new ops ANCESTORS_HASH_MAP_SIZE"

fun insert_all :: "'v bit_ops \<Rightarrow> u64 list \<Rightarrow> 'v ancestors \<Rightarrow> 'v ancestors ix_result option" where
  "insert_all ops [] r = Some (Inr r)"
| "insert_all ops (k # ks) r =
     (case rolling_insert ops k r of
        None \<Rightarrow> None
      | Some (Inl e) \<Rightarrow> Some (Inl e)
      | Some (Inr r') \<Rightarrow> insert_all ops ks r')"

definition ancestors_from :: "'v bit_ops \<Rightarrow> u64 list \<Rightarrow> 'v ancestors ix_result option" where
  "ancestors_from ops source =
     (case ancestors_default ops of Inl e \<Rightarrow> Some (Inl e) | Inr r \<Rightarrow> insert_all ops (sort source) r)"

definition ancestors_keys :: "'v bit_ops \<Rightarrow> 'v ancestors \<Rightarrow> u64 list" where
  "ancestors_keys = rolling_get_all"

definition ancestors_get :: "'v bit_ops \<Rightarrow> 'v ancestors \<Rightarrow> u64 \<Rightarrow> bool" where
  "ancestors_get = rolling_contains"

definition ancestors_remove :: "'v bit_ops \<Rightarrow> u64 \<Rightarrow> 'v ancestors \<Rightarrow> 'v ancestors" where
  "ancestors_remove ops slot a = snd (rolling_remove ops slot a)"

definition ancestors_len :: "'v ancestors \<Rightarrow> nat" where
  "ancestors_len a = rb_count a"

definition max_slot :: "'v ancestors \<Rightarrow> u64" where
  "max_slot a = rb_max a - 1"

section \<open>Ancestors are the slots they were made from\<close>

lemma insert_all_ok:
  assumes "bit_ops_ok ops" and "rolling_ok ops r" and "sorted ks" and "\<forall>k \<in> set ks. unat k + unat (rb_max_width r) < 2 ^ 64"
    and "items ops r = {} \<or> bit_items ops r \<noteq> {}"
  shows "\<exists>r'. insert_all ops ks r = Some (Inr r') \<and> rolling_ok ops r' \<and> items ops r' = items ops r \<union> set ks"
  using assms(2-)
proof (induction ks arbitrary: r)
  case (Cons k ks)
  have "bit_items ops r = {} \<longrightarrow> (\<forall>x \<in> items ops r. x < k)" using Cons.prems(4) by auto
  moreover have "unat k + unat (rb_max_width r) < 2 ^ 64" using Cons.prems(3) by simp
  ultimately obtain r1 where r1: "rolling_insert ops k r = Some (Inr r1)" "rolling_ok ops r1"
    "items ops r1 = insert k (items ops r)" "bit_items ops r1 \<noteq> {}" "rb_max_width r1 = rb_max_width r"
    using rolling_insert_ok [OF assms(1) Cons.prems(1)] by blast
  with Cons.IH [of r1] Cons.prems(2,3) show ?case by simp
qed simp

lemma ancestors_from_ok:
  assumes ops: "bit_ops_ok ops" and "\<forall>k \<in> set source. unat k + 8192 < 2 ^ 64"
  shows "\<exists>a. ancestors_from ops source = Some (Inr a) \<and> rolling_ok ops a \<and> items ops a = set source"
proof -
  have "is_power_of_two 8192" by (auto simp: is_power_of_two_def intro!: exI [of _ 13])
  then obtain r where r: "ancestors_default ops = Inr r"
    by (simp add: ancestors_default_def rolling_new_def ANCESTORS_HASH_MAP_SIZE_def)
  have "rolling_ok ops r" "items ops r = {}" "rb_max_width r = 8192"
    using rolling_new_ok [OF ops r [unfolded ancestors_default_def]] by (simp_all add: ANCESTORS_HASH_MAP_SIZE_def)
  with insert_all_ok [OF ops, of r "sort source"] assms(2) show ?thesis by (simp add: ancestors_from_def r)
qed

section \<open>Runs of insertions and removals\<close>

datatype rolling_op = Insert u64 | Remove u64

fun rolling_step :: "'v bit_ops \<Rightarrow> rolling_op \<Rightarrow> 'v rolling_bit_field \<Rightarrow> 'v rolling_bit_field ix_result option" where
  "rolling_step ops (Insert k) r = rolling_insert ops k r"
| "rolling_step ops (Remove k) r = Some (Inr (snd (rolling_remove ops k r)))"

fun rolling_run :: "'v bit_ops \<Rightarrow> rolling_op list \<Rightarrow> 'v rolling_bit_field \<Rightarrow> 'v rolling_bit_field ix_result option" where
  "rolling_run ops [] r = Some (Inr r)"
| "rolling_run ops (e # es) r =
     (case rolling_step ops e r of
        None \<Rightarrow> None
      | Some (Inl err) \<Rightarrow> Some (Inl err)
      | Some (Inr r') \<Rightarrow> rolling_run ops es r')"

fun set_step :: "rolling_op \<Rightarrow> u64 set \<Rightarrow> u64 set" where
  "set_step (Insert k) s = insert k s"
| "set_step (Remove k) s = s - {k}"

text \<open>A run in which every new key is above those there are, and leaves room for the window.\<close>

fun growing :: "u64 \<Rightarrow> rolling_op list \<Rightarrow> u64 set \<Rightarrow> bool" where
  "growing w [] s \<longleftrightarrow> True"
| "growing w (Insert k # es) s \<longleftrightarrow> (\<forall>x \<in> s. x < k) \<and> unat k + unat w < 2 ^ 64 \<and> growing w es (insert k s)"
| "growing w (Remove k # es) s \<longleftrightarrow> growing w es (s - {k})"

lemma remove_width [simp]: "rb_max_width (snd (rolling_remove ops k r)) = rb_max_width r"
  by (simp add: rolling_remove_def purge_def Let_def split: option.split)

lemma rolling_run_ok:
  assumes "bit_ops_ok ops" and "rolling_ok ops r" and "growing (rb_max_width r) es (items ops r)"
  shows "\<exists>r'. rolling_run ops es r = Some (Inr r') \<and> rolling_ok ops r' \<and> items ops r' = fold set_step es (items ops r)"
  using assms(2,3)
proof (induction es arbitrary: r)
  case (Cons e es)
  show ?case
  proof (cases e)
    case (Insert k)
    with Cons.prems obtain r1 where "rolling_insert ops k r = Some (Inr r1)" "rolling_ok ops r1"
      "items ops r1 = insert k (items ops r)" "rb_max_width r1 = rb_max_width r"
      using rolling_insert_ok [OF assms(1) Cons.prems(1), of k] by auto
    with Cons.IH [of r1] Cons.prems(2) show ?thesis by (simp add: Insert)
  next
    case (Remove k)
    with Cons.IH [of "snd (rolling_remove ops k r)"] rolling_remove_ok [OF assms(1) Cons.prems(1), of k] Cons.prems(2) show ?thesis by simp
  qed
qed simp

section \<open>The properties\<close>

definition fun_bits :: "(u64 \<times> (u64 \<Rightarrow> bool)) bit_ops" where
  "fun_bits = \<lparr>bv_new_fill = (\<lambda>b n. (n, \<lambda>_. b)), bv_len = fst, bv_get = snd, bv_set = (\<lambda>v i b. (fst v, (snd v)(i := b)))\<rparr>"

definition empty_field :: "(u64 \<times> (u64 \<Rightarrow> bool)) rolling_bit_field" where
  "empty_field = \<lparr>rb_max_width = 8, rb_min = 0, rb_max = 0, rb_bits = (8, \<lambda>_. False), rb_count = 0, rb_excess = []\<rparr>"

lemma fun_bits_ok: "bit_ops_ok fun_bits"
  by (simp add: bit_ops_ok_def fun_bits_def)

lemma empty_field_new: "rolling_new fun_bits 8 = Inr empty_field"
proof -
  have "is_power_of_two 8" by (auto simp: is_power_of_two_def intro!: exI [of _ 3])
  then show ?thesis by (simp add: rolling_new_def empty_field_def fun_bits_def)
qed



text \<open>
  C34: an insertion always ends. Whatever state the field is in, well-formed or not, the loop that makes room
  for a new key terminates, with a result or a panic.
\<close>

theorem rolling_insert_terminates: "\<exists>res. rolling_insert ops k r = Some res"
  using make_room_total [of ops "k + 1" r] by (auto simp: rolling_insert_def Let_def)


end
