(* ===== verification/Messages.thy ===== *)
theory Messages
  imports Invocation
begin

text \<open>
  Messages of transactions (\<open>sdk/program/src/message\<close>): the legacy message with its compilation from
  instructions, the message of version 0 with the addresses it loads, the sanitised message the runtime
  works on, and the accounts a transaction locks (\<open>sdk/src/transaction/sanitized.rs\<close>). A sanitised
  message is seen by the message processor as its keys with their privileges (\<open>sanitized_view\<close>).
\<close>

section \<open>Program and sysvar ids\<close>

definition config_program_id :: pubkey where
  "config_program_id = pubkey_of_base58 ''Config1111111111111111111111111111111111111''"

definition feature_program_id :: pubkey where
  "feature_program_id = pubkey_of_base58 ''Feature111111111111111111111111111111111111''"

definition bpf_loader_id :: pubkey where
  "bpf_loader_id = pubkey_of_base58 ''BPFLoader2111111111111111111111111111111111''"

definition bpf_loader_deprecated_id :: pubkey where
  "bpf_loader_deprecated_id = pubkey_of_base58 ''BPFLoader1111111111111111111111111111111111''"

definition bpf_loader_upgradeable_id :: pubkey where
  "bpf_loader_upgradeable_id = pubkey_of_base58 ''BPFLoaderUpgradeab1e11111111111111111111111''"

definition epoch_schedule_id :: pubkey where
  "epoch_schedule_id = pubkey_of_base58 ''SysvarEpochSchedu1e111111111111111111111111''"

definition fees_id :: pubkey where
  "fees_id = pubkey_of_base58 ''SysvarFees111111111111111111111111111111111''"

definition rewards_id :: pubkey where
  "rewards_id = pubkey_of_base58 ''SysvarRewards111111111111111111111111111111''"

definition slot_history_id :: pubkey where
  "slot_history_id = pubkey_of_base58 ''SysvarS1otHistory11111111111111111111111111''"

definition BUILTIN_PROGRAMS_KEYS :: "pubkey list" where
  "BUILTIN_PROGRAMS_KEYS = [config_program_id, feature_program_id, native_loader_id, stake_program_id, stake_config_id,
     vote_program_id, system_program_id, bpf_loader_id, bpf_loader_deprecated_id, bpf_loader_upgradeable_id]"

definition is_sysvar_id :: "pubkey \<Rightarrow> bool" where
  "is_sysvar_id k \<longleftrightarrow> k \<in> set [clock_id, epoch_schedule_id, fees_id, recent_blockhashes_id, rent_id, rewards_id,
     slot_hashes_id, slot_history_id, stake_history_id, instructions_sysvar_id]"

lemma base58_more_digits:
  "index_of CHR ''2'' base58_alphabet = 1"
  "index_of CHR ''E'' base58_alphabet = 13"
  "index_of CHR ''F'' base58_alphabet = 14"
  "index_of CHR ''L'' base58_alphabet = 19"
  "index_of CHR ''N'' base58_alphabet = 21"
  "index_of CHR ''P'' base58_alphabet = 22"
  "index_of CHR ''U'' base58_alphabet = 27"
  "index_of CHR ''b'' base58_alphabet = 34"
  "index_of CHR ''h'' base58_alphabet = 40"
  "index_of CHR ''w'' base58_alphabet = 54"
  by (simp_all add: base58_alphabet_def)

lemma message_ids_numeral:
  "slot_hashes_id = 3010411246020387390845657635421930170267332101929006271628180992244983005184"
  "recent_blockhashes_id = 3010411246019275183202241475159751154561037627022909547359528646525818241024"
  "native_loader_id = 2501004778692694513383192626365552564445537874725049955997982167012726538240"
  "config_program_id = 1368054751858961187610615744159202396902912294346696811737198408170517561344"
  "feature_program_id = 1697283009773004509314654261529545701582471225670895602380440637121876721664"
  "bpf_loader_id = 1203157751113443873660160097494192217694197863828223470469643324391874887680"
  "bpf_loader_deprecated_id = 1203157751113443858060189220861420229533383809681776218343720119607431790592"
  "bpf_loader_upgradeable_id = 1203157751113444292085578490895711631870746999416992000355168191203933945856"
  "epoch_schedule_id = 3010411245986328729646169808388022824879167805765813351222839694649813106688"
  "fees_id = 3010411245988839768080938779134895012715399673910392426883968584161274363904"
  "rewards_id = 3010411246019292312979761209880469183404341140736143741603546036852764966912"
  "slot_history_id = 3010411246020387390882771635765924662261524573769583470181990702897938038784"
  by (simp_all add: slot_hashes_id_def recent_blockhashes_id_def native_loader_id_def config_program_id_def feature_program_id_def bpf_loader_id_def bpf_loader_deprecated_id_def bpf_loader_upgradeable_id_def epoch_schedule_id_def fees_id_def rewards_id_def slot_history_id_def pubkey_of_base58_def base58_digits base58_more_digits)

section \<open>The legacy message\<close>

record message_header =
  num_required_signatures :: u8
  num_readonly_signed_accounts :: u8
  num_readonly_unsigned_accounts :: u8

record legacy_message =
  lm_header :: message_header
  lm_account_keys :: "pubkey list"
  lm_recent_blockhash :: hash
  lm_instructions :: "compiled_instruction list"

datatype sanitize_error = IndexOutOfBounds | ValueOutOfBounds | InvalidValue

definition legacy_sanitize :: "legacy_message \<Rightarrow> (sanitize_error, unit) result" where
  "legacy_sanitize m =
     (let h = lm_header m; n = length (lm_account_keys m) in
      if unat (num_required_signatures h) + unat (num_readonly_unsigned_accounts h) > n then Inl IndexOutOfBounds
      else if num_readonly_signed_accounts h \<ge> num_required_signatures h then Inl IndexOutOfBounds
      else if list_ex (\<lambda>ci. unat (program_id_index ci) \<ge> n \<or> program_id_index ci = 0 \<or> list_ex (\<lambda>ai. unat ai \<ge> n) (ix_accounts ci))
        (lm_instructions m) then Inl IndexOutOfBounds
      else Inr ())"

text \<open>\<open>key_index as u8\<close> when it fits.\<close>

definition u8_index :: "nat \<Rightarrow> u8 option" where
  "u8_index i = (if i < 256 then Some (of_nat i) else None)"

definition called_as_program :: "compiled_instruction list \<Rightarrow> nat \<Rightarrow> bool" where
  "called_as_program ixs i \<longleftrightarrow>
     (case u8_index i of Some j \<Rightarrow> list_ex (\<lambda>ix. program_id_index ix = j) ixs | None \<Rightarrow> False)"

definition passed_to_program :: "compiled_instruction list \<Rightarrow> nat \<Rightarrow> bool" where
  "passed_to_program ixs i \<longleftrightarrow>
     (case u8_index i of Some j \<Rightarrow> list_ex (\<lambda>ix. j \<in> set (ix_accounts ix)) ixs | None \<Rightarrow> False)"

definition upgradeable_loader_present :: "pubkey list \<Rightarrow> bool" where
  "upgradeable_loader_present ks \<longleftrightarrow> bpf_loader_upgradeable_id \<in> set ks"

definition legacy_is_writable :: "legacy_message \<Rightarrow> nat \<Rightarrow> bool ix_result" where
  "legacy_is_writable m i =
     (let h = lm_header m;
          ks = lm_account_keys m;
          demote_program_id = called_as_program (lm_instructions m) i \<and> \<not> upgradeable_loader_present ks
      in if i < unat (num_required_signatures h - num_readonly_signed_accounts h)
            \<or> unat (num_required_signatures h) \<le> i
              \<and> i < unat (of_nat (length ks) - ucast (num_readonly_unsigned_accounts h) :: u64)
         then bind_r (index_r ks i) (\<lambda>k. Inr (\<not> (is_sysvar_id k \<or> k \<in> set BUILTIN_PROGRAMS_KEYS) \<and> \<not> demote_program_id))
         else Inr False)"

fun legacy_has_duplicates :: "pubkey list \<Rightarrow> bool" where
  "legacy_has_duplicates [] = False"
| "legacy_has_duplicates (k # ks) = (k \<in> set ks \<or> legacy_has_duplicates ks)"

subsection \<open>Compilation\<close>

fun position :: "pubkey list \<Rightarrow> pubkey \<Rightarrow> nat option" where
  "position [] k = None"
| "position (x # xs) k = (if x = k then Some 0 else map_option Suc (position xs k))"

definition key_position :: "pubkey list \<Rightarrow> pubkey \<Rightarrow> u8 ix_result" where
  "key_position ks k = bind_r (ok_or (position ks k) Panicked) (\<lambda>i. Inr (of_nat i))"

definition compile_instruction :: "pubkey list \<Rightarrow> instruction \<Rightarrow> compiled_instruction ix_result" where
  "compile_instruction ks ix =
     bind_r (map_r (\<lambda>m. key_position ks (meta_pubkey m)) (instruction_accounts ix)) (\<lambda>accs.
     bind_r (key_position ks (instruction_program_id ix)) (\<lambda>p.
       Inr \<lparr>program_id_index = p, ix_accounts = accs, ix_data = instruction_data ix\<rparr>))"

definition compile_instructions :: "instruction list \<Rightarrow> pubkey list \<Rightarrow> compiled_instruction list ix_result" where
  "compile_instructions ixs ks = map_r (compile_instruction ks) ixs"

definition get_program_ids :: "instruction list \<Rightarrow> pubkey list" where
  "get_program_ids ixs =
     fold (\<lambda>p ps. if p \<in> set ps then ps else ps @ [p]) (map instruction_program_id ixs) []"

record instruction_keys =
  signed_keys :: "pubkey list"
  unsigned_keys :: "pubkey list"
  ik_readonly_signed :: u8
  ik_readonly_unsigned :: u8

text \<open>The order of the accounts: signers first, then writable ones, otherwise as they come.\<close>

definition meta_rank :: "account_meta \<Rightarrow> nat" where
  "meta_rank m = (if meta_is_signer m then 0 else 2) + (if meta_is_writable m then 0 else 1)"

fun promote :: "account_meta \<Rightarrow> account_meta list \<Rightarrow> account_meta list" where
  "promote m [] = [m]"
| "promote m (x # xs) =
     (if meta_pubkey x = meta_pubkey m then x\<lparr>meta_is_writable := meta_is_writable x \<or> meta_is_writable m\<rparr> # xs
      else x # promote m xs)"

definition unique_metas :: "account_meta list \<Rightarrow> account_meta list" where
  "unique_metas ms = fold promote ms []"

definition sorted_metas :: "instruction list \<Rightarrow> pubkey option \<Rightarrow> account_meta list" where
  "sorted_metas ixs payer =
     (let programs = map (\<lambda>p. \<lparr>meta_pubkey = p, meta_is_signer = False, meta_is_writable = False\<rparr>) (get_program_ids ixs);
          ms = sort_key meta_rank (concat (map instruction_accounts ixs) @ programs)
      in case payer of
           Some p \<Rightarrow> \<lparr>meta_pubkey = p, meta_is_signer = True, meta_is_writable = True\<rparr> # ms
         | None \<Rightarrow> ms)"

definition get_keys :: "instruction list \<Rightarrow> pubkey option \<Rightarrow> instruction_keys" where
  "get_keys ixs payer =
     (let us = unique_metas (sorted_metas ixs payer);
          signed = filter meta_is_signer us;
          unsigned = filter (\<lambda>m. \<not> meta_is_signer m) us
      in \<lparr>signed_keys = map meta_pubkey signed, unsigned_keys = map meta_pubkey unsigned,
          ik_readonly_signed = of_nat (length (filter (\<lambda>m. \<not> meta_is_writable m) signed)),
          ik_readonly_unsigned = of_nat (length (filter (\<lambda>m. \<not> meta_is_writable m) unsigned))\<rparr>)"

definition new_with_blockhash :: "instruction list \<Rightarrow> pubkey option \<Rightarrow> hash \<Rightarrow> legacy_message ix_result" where
  "new_with_blockhash ixs payer bh =
     (let keys = get_keys ixs payer;
          ks = signed_keys keys @ unsigned_keys keys
      in bind_r (compile_instructions ixs ks) (\<lambda>cis.
         Inr \<lparr>lm_header = \<lparr>num_required_signatures = of_nat (length (signed_keys keys)),
                num_readonly_signed_accounts = ik_readonly_signed keys,
                num_readonly_unsigned_accounts = ik_readonly_unsigned keys\<rparr>,
              lm_account_keys = ks, lm_recent_blockhash = bh, lm_instructions = cis\<rparr>))"

section \<open>The message of version 0\<close>

record message_address_table_lookup =
  lookup_account_key :: pubkey
  writable_indexes :: "u8 list"
  readonly_indexes :: "u8 list"

record v0_message =
  v0_header :: message_header
  v0_account_keys :: "pubkey list"
  v0_recent_blockhash :: hash
  v0_instructions :: "compiled_instruction list"
  v0_address_table_lookups :: "message_address_table_lookup list"

record loaded_addresses =
  la_writable :: "pubkey list"
  la_readonly :: "pubkey list"

record loaded_message =
  loaded_v0 :: v0_message
  loaded_keys :: loaded_addresses

definition v0_sanitize :: "v0_message \<Rightarrow> (sanitize_error, unit) result" where
  "v0_sanitize m =
     (let h = v0_header m;
          table_sizes = map (\<lambda>l. length (writable_indexes l) + length (readonly_indexes l)) (v0_address_table_lookups m);
          n = length (v0_account_keys m) + sum_list table_sizes
      in if unat (num_required_signatures h) + unat (num_readonly_unsigned_accounts h) > length (v0_account_keys m)
         then Inl IndexOutOfBounds
         else if num_readonly_signed_accounts h \<ge> num_required_signatures h then Inl InvalidValue
         else if 0 \<in> set table_sizes then Inl InvalidValue
         else if n > 256 then Inl IndexOutOfBounds
         else if list_ex (\<lambda>ci. unat (program_id_index ci) \<ge> n \<or> program_id_index ci = 0 \<or> list_ex (\<lambda>ai. unat ai \<ge> n) (ix_accounts ci))
           (v0_instructions m) then Inl IndexOutOfBounds
         else Inr ())"

definition segments :: "loaded_message \<Rightarrow> pubkey list list" where
  "segments m = [v0_account_keys (loaded_v0 m), la_writable (loaded_keys m), la_readonly (loaded_keys m)]"

fun segment_key :: "pubkey list list \<Rightarrow> nat \<Rightarrow> pubkey option" where
  "segment_key [] i = None"
| "segment_key (s # ss) i = (if i < length s then Some (s ! i) else segment_key ss (i - length s))"

definition is_writable_index :: "loaded_message \<Rightarrow> nat \<Rightarrow> bool" where
  "is_writable_index m i =
     (let h = v0_header (loaded_v0 m);
          num_account_keys = length (v0_account_keys (loaded_v0 m));
          num_signed_accounts = unat (num_required_signatures h)
      in if num_account_keys \<le> i then i - num_account_keys < length (la_writable (loaded_keys m))
         else if num_signed_accounts \<le> i then
           i - num_signed_accounts < (num_account_keys - num_signed_accounts) - unat (num_readonly_unsigned_accounts h)
         else i < num_signed_accounts - unat (num_readonly_signed_accounts h))"

definition loaded_is_writable :: "loaded_message \<Rightarrow> nat \<Rightarrow> bool" where
  "loaded_is_writable m i =
     (if is_writable_index m i then
        (case segment_key (segments m) i of
           Some k \<Rightarrow>
             (let demote_program_id = called_as_program (v0_instructions (loaded_v0 m)) i
                    \<and> \<not> upgradeable_loader_present (concat (segments m))
              in \<not> (is_sysvar_id k \<or> k \<in> set BUILTIN_PROGRAMS_KEYS \<or> demote_program_id))
         | None \<Rightarrow> False)
      else False)"

section \<open>The sanitised message\<close>

datatype sanitized_message = Legacy legacy_message | V0 loaded_message

fun message_header_of :: "sanitized_message \<Rightarrow> message_header" where
  "message_header_of (Legacy m) = lm_header m"
| "message_header_of (V0 m) = v0_header (loaded_v0 m)"

fun recent_blockhash :: "sanitized_message \<Rightarrow> hash" where
  "recent_blockhash (Legacy m) = lm_recent_blockhash m"
| "recent_blockhash (V0 m) = v0_recent_blockhash (loaded_v0 m)"

fun message_instructions :: "sanitized_message \<Rightarrow> compiled_instruction list" where
  "message_instructions (Legacy m) = lm_instructions m"
| "message_instructions (V0 m) = v0_instructions (loaded_v0 m)"

fun message_account_keys :: "sanitized_message \<Rightarrow> pubkey list" where
  "message_account_keys (Legacy m) = lm_account_keys m"
| "message_account_keys (V0 m) = concat (segments m)"

fun get_account_key :: "sanitized_message \<Rightarrow> nat \<Rightarrow> pubkey option" where
  "get_account_key (Legacy m) i = (if i < length (lm_account_keys m) then Some (lm_account_keys m ! i) else None)"
| "get_account_key (V0 m) i = segment_key (segments m) i"

definition fee_payer :: "sanitized_message \<Rightarrow> pubkey ix_result" where
  "fee_payer m = ok_or (get_account_key m 0) Panicked"

fun has_duplicates :: "sanitized_message \<Rightarrow> bool" where
  "has_duplicates (Legacy m) = legacy_has_duplicates (lm_account_keys m)"
| "has_duplicates (V0 m) = (\<not> distinct (concat (segments m)))"

definition is_invoked :: "sanitized_message \<Rightarrow> nat \<Rightarrow> bool" where
  "is_invoked m i = called_as_program (message_instructions m) i"

definition is_non_loader_key :: "sanitized_message \<Rightarrow> nat \<Rightarrow> bool" where
  "is_non_loader_key m i \<longleftrightarrow> \<not> is_invoked m i \<or> passed_to_program (message_instructions m) i"

fun sanitized_is_writable :: "sanitized_message \<Rightarrow> nat \<Rightarrow> bool ix_result" where
  "sanitized_is_writable (Legacy m) i = legacy_is_writable m i"
| "sanitized_is_writable (V0 m) i = Inr (loaded_is_writable m i)"

definition sanitized_is_signer :: "sanitized_message \<Rightarrow> nat \<Rightarrow> bool" where
  "sanitized_is_signer m i \<longleftrightarrow> i < unat (num_required_signatures (message_header_of m))"

definition get_ix_signers :: "sanitized_message \<Rightarrow> nat \<Rightarrow> pubkey list" where
  "get_ix_signers m ix_index =
     (if ix_index < length (message_instructions m)
      then List.map_filter (get_account_key m)
        (filter (sanitized_is_signer m) (map unat (ix_accounts (message_instructions m ! ix_index))))
      else [])"

text \<open>What the message processor is given.\<close>

definition sanitized_view :: "sanitized_message \<Rightarrow> message" where
  "sanitized_view m = \<lparr>message_keys = message_account_keys m, message_is_signer = sanitized_is_signer m,
     message_is_writable = (\<lambda>i. sanitized_is_writable m i = Inr True)\<rparr>"

section \<open>The locks of a transaction\<close>

definition MAX_TX_ACCOUNT_LOCKS :: nat where
  "MAX_TX_ACCOUNT_LOCKS = 64"

record sanitized_transaction =
  stx_message :: sanitized_message
  stx_message_hash :: hash
  stx_is_simple_vote_tx :: bool
  stx_signatures :: "u8 list list"

record transaction_account_locks =
  tl_readonly :: "pubkey list"
  tl_writable :: "pubkey list"

definition get_account_locks_unchecked :: "sanitized_message \<Rightarrow> transaction_account_locks ix_result" where
  "get_account_locks_unchecked m =
     bind_r (map_r (\<lambda>(i, k). bind_r (sanitized_is_writable m i) (\<lambda>w. Inr (k, w))) (enumerate 0 (message_account_keys m))) (\<lambda>kws.
       Inr \<lparr>tl_readonly = map fst (filter (\<lambda>(k, w). \<not> w) kws), tl_writable = map fst (filter snd kws)\<rparr>)"

definition get_account_locks ::
  "feature set \<Rightarrow> sanitized_message \<Rightarrow> (transaction_error, transaction_account_locks) result ix_result" where
  "get_account_locks features m =
     (if has_duplicates m then Inr (Inl AccountLoadedTwice)
      else if max_tx_account_locks \<in> features \<and> length (message_account_keys m) > MAX_TX_ACCOUNT_LOCKS
      then Inr (Inl TooManyAccountLocks)
      else bind_r (get_account_locks_unchecked m) (\<lambda>l. Inr (Inr l)))"

section \<open>Indices and keys\<close>

lemma legacy_has_duplicates_distinct: "legacy_has_duplicates ks \<longleftrightarrow> \<not> distinct ks"
  by (induction ks) auto

lemma segment_key_concat: "segment_key ss i = (if i < length (concat ss) then Some (concat ss ! i) else None)"
  by (induction ss arbitrary: i) (auto simp: nth_append)

lemma get_account_key_keys:
  "get_account_key m i = (if i < length (message_account_keys m) then Some (message_account_keys m ! i) else None)"
  by (cases m) (simp_all add: segment_key_concat)

lemma has_duplicates_keys: "has_duplicates m \<longleftrightarrow> \<not> distinct (message_account_keys m)"
  by (cases m) (simp_all add: legacy_has_duplicates_distinct)

lemma position_Some: "position ks k = Some i \<Longrightarrow> i < length ks \<and> ks ! i = k"
  by (induction ks arbitrary: i) (auto split: if_splits)

lemma position_mem: "k \<in> set ks \<Longrightarrow> \<exists>i. position ks k = Some i"
  by (induction ks) auto

lemma position_distinct: "distinct ks \<Longrightarrow> i < length ks \<Longrightarrow> position ks (ks ! i) = Some i"
proof (induction ks arbitrary: i)
  case (Cons x xs)
  then show ?case by (cases i) auto
qed simp

section \<open>What compilation keeps\<close>

lemma map_r_all:
  assumes "\<And>x. x \<in> set xs \<Longrightarrow> f x = Inr (g x)"
  shows "map_r f xs = Inr (map g xs)"
  using assms by (induction xs) auto

lemma map_r_map: "map_r f (map g xs) = map_r (\<lambda>x. f (g x)) xs"
  by (induction xs) auto

text \<open>Promoting keeps one entry for each key: its first one, with the privileges to write of all.\<close>

lemma promote_keys: "map meta_pubkey (promote m us) = (if meta_pubkey m \<in> meta_pubkey ` set us
    then map meta_pubkey us else map meta_pubkey us @ [meta_pubkey m])"
  by (induction us) auto

lemma promote_first:
  assumes "meta_pubkey m \<in> meta_pubkey ` set us"
    and "\<And>x. x \<in> set us \<Longrightarrow> meta_pubkey x = meta_pubkey m \<Longrightarrow> meta_is_writable m \<Longrightarrow> meta_is_writable x"
  shows "promote m us = us"
  using assms
proof (induction us)
  case (Cons x us)
  show ?case
  proof (cases "meta_pubkey x = meta_pubkey m")
    case True
    then have "(meta_is_writable x \<or> meta_is_writable m) = meta_is_writable x" using Cons.prems(2) [of x] by auto
    then show ?thesis using True by simp
  next
    case False
    then have "promote m us = us" using Cons.prems by (intro Cons.IH) auto
    with False show ?thesis by simp
  qed
qed simp

lemma promote_new: "meta_pubkey m \<notin> meta_pubkey ` set us \<Longrightarrow> promote m us = us @ [m]"
  by (induction us) auto

text \<open>A key that some account signs with and some account writes to has an account that does both.\<close>

definition consistent_metas :: "account_meta list \<Rightarrow> bool" where
  "consistent_metas ms \<longleftrightarrow> (\<forall>x \<in> set ms. \<forall>y \<in> set ms. meta_pubkey x = meta_pubkey y \<and> meta_is_signer x \<and> meta_is_writable y \<longrightarrow>
     (\<exists>z \<in> set ms. meta_pubkey z = meta_pubkey x \<and> meta_is_signer z \<and> meta_is_writable z))"

lemma meta_rank_simps:
  "meta_rank m < 2 \<longleftrightarrow> meta_is_signer m" "meta_rank m = 0 \<longleftrightarrow> meta_is_signer m \<and> meta_is_writable m"
  "meta_rank m < 3 \<longleftrightarrow> meta_is_signer m \<or> meta_is_writable m"
  by (simp_all add: meta_rank_def)

lemma consistent_prefix:
  assumes "sorted (map meta_rank (ms @ [m]))" and "consistent_metas (ms @ [m])"
  shows "consistent_metas ms"
  unfolding consistent_metas_def
proof (intro ballI impI)
  fix x y assume xy: "x \<in> set ms" "y \<in> set ms" and k: "meta_pubkey x = meta_pubkey y \<and> meta_is_signer x \<and> meta_is_writable y"
  then obtain z where z: "z \<in> set (ms @ [m])" "meta_pubkey z = meta_pubkey x" "meta_is_signer z" "meta_is_writable z"
    using assms(2) unfolding consistent_metas_def by (metis UnCI set_append)
  show "\<exists>z \<in> set ms. meta_pubkey z = meta_pubkey x \<and> meta_is_signer z \<and> meta_is_writable z"
  proof (cases "z \<in> set ms")
    case False
    then have "meta_rank m = 0" using z by (simp add: meta_rank_simps)
    then have "meta_rank x = 0" using assms(1) xy(1) by (auto simp: sorted_append)
    with xy k show ?thesis by (auto simp: meta_rank_simps)
  qed (use z in auto)
qed

definition firsts_ok :: "account_meta list \<Rightarrow> account_meta list \<Rightarrow> bool" where
  "firsts_ok ms us \<longleftrightarrow> distinct (map meta_pubkey us) \<and> meta_pubkey ` set us = meta_pubkey ` set ms \<and> set us \<subseteq> set ms
     \<and> sorted (map meta_rank us) \<and> (\<forall>u \<in> set us. \<forall>x \<in> set ms. meta_pubkey x = meta_pubkey u \<longrightarrow> meta_rank u \<le> meta_rank x)"

lemma first_writes:
  assumes us: "firsts_ok ms us" and ms: "consistent_metas ms'" "set ms \<subseteq> set ms'"
    and u: "u \<in> set us" and m: "m \<in> set ms'" "meta_pubkey m = meta_pubkey u" "meta_is_writable m" "meta_rank u \<le> meta_rank m"
    and rest: "set ms' \<subseteq> insert m (set ms)"
  shows "meta_is_writable u"
proof (rule ccontr)
  assume ro: "\<not> meta_is_writable u"
  have um: "u \<in> set ms" using us u by (auto simp: firsts_ok_def)
  have "meta_is_signer u" and "\<not> meta_is_signer m" using ro m(3,4) by (auto simp: meta_rank_def split: if_splits)
  then obtain z where z: "z \<in> set ms'" "meta_pubkey z = meta_pubkey u" "meta_rank z = 0"
    using ms(1) um ms(2) m(1-3) unfolding consistent_metas_def meta_rank_simps by (metis subsetD)
  then have "z \<in> set ms" using rest \<open>\<not> meta_is_signer m\<close> by (auto simp: meta_rank_simps)
  then have "meta_rank u \<le> meta_rank z" using us u z(2) unfolding firsts_ok_def by blast
  then have "meta_rank u = 0" using z(3) by simp
  with ro show False by (simp add: meta_rank_simps)
qed

lemma unique_metas_firsts:
  assumes "sorted (map meta_rank ms)" and "consistent_metas ms"
  shows "firsts_ok ms (unique_metas ms)"
  using assms
proof (induction ms rule: rev_induct)
  case Nil
  show ?case by (simp add: firsts_ok_def unique_metas_def)
next
  case (snoc m ms)
  let ?us = "unique_metas ms"
  have above: "meta_rank x \<le> meta_rank m" if "x \<in> set ms" for x using snoc.prems(1) that by (auto simp: sorted_append)
  have us: "firsts_ok ms ?us"
    using snoc.IH snoc.prems(1) consistent_prefix [OF snoc.prems] by (simp add: sorted_append)
  have step: "unique_metas (ms @ [m]) = promote m ?us" by (simp add: unique_metas_def)
  show ?case
  proof (cases "meta_pubkey m \<in> meta_pubkey ` set ?us")
    case True
    have "promote m ?us = ?us"
    proof (rule promote_first [OF True])
      fix x assume x: "x \<in> set ?us" "meta_pubkey x = meta_pubkey m" "meta_is_writable m"
      have "x \<in> set ms" using us x(1) by (auto simp: firsts_ok_def)
      then show "meta_is_writable x"
        using first_writes [OF us snoc.prems(2) _ x(1), of m] x above by auto
    qed
    moreover have "meta_rank u \<le> meta_rank m" if "u \<in> set ?us" for u using us that above by (auto simp: firsts_ok_def)
    ultimately show ?thesis using us True unfolding step firsts_ok_def by auto
  next
    case False
    then have "promote m ?us = ?us @ [m]" by (rule promote_new)
    moreover have "meta_rank u \<le> meta_rank m" if "u \<in> set ?us" for u using us that above by (auto simp: firsts_ok_def)
    moreover have "meta_pubkey m \<noteq> meta_pubkey x \<and> meta_pubkey x \<noteq> meta_pubkey m" if "x \<in> set ms" for x
      using us False that unfolding firsts_ok_def by (metis imageI)
    ultimately show ?thesis using us unfolding step firsts_ok_def by (auto simp: sorted_append)
  qed
qed

lemma sorted_filter_split:
  assumes "sorted (map f xs)"
  shows "filter (\<lambda>x. f x < c) xs @ filter (\<lambda>x. \<not> f x < (c :: nat)) xs = xs"
    and "i < length xs \<Longrightarrow> i < length (filter (\<lambda>x. f x < c) xs) \<longleftrightarrow> f (xs ! i) < c"
proof -
  have "filter (\<lambda>x. f x < c) xs @ filter (\<lambda>x. \<not> f x < c) xs = xs
      \<and> (i < length xs \<longrightarrow> (i < length (filter (\<lambda>x. f x < c) xs) \<longleftrightarrow> f (xs ! i) < c))"
    using assms
  proof (induction xs arbitrary: i)
    case (Cons x xs)
    show ?case
    proof (cases "f x < c")
      case True
      with Cons show ?thesis by (cases i) auto
    next
      case False
      then have "filter (\<lambda>x. f x < c) xs = []" using Cons.prems by (auto simp: filter_empty_conv)
      moreover have "\<not> f ((x # xs) ! i) < c" if "i < length (x # xs)"
        using False Cons.prems that nth_mem [OF that] by auto
      ultimately show ?thesis using False by (auto simp: filter_id_conv filter_empty_conv)
    qed
  qed simp
  then show "filter (\<lambda>x. f x < c) xs @ filter (\<lambda>x. \<not> f x < c) xs = xs"
    "i < length xs \<Longrightarrow> i < length (filter (\<lambda>x. f x < c) xs) \<longleftrightarrow> f (xs ! i) < c" by auto
qed

text \<open>What the instructions and the payer ask of a key.\<close>

definition asks_sign :: "instruction list \<Rightarrow> pubkey \<Rightarrow> pubkey \<Rightarrow> bool" where
  "asks_sign ixs payer k \<longleftrightarrow> k = payer \<or> (\<exists>ix \<in> set ixs. \<exists>m \<in> set (instruction_accounts ix). meta_pubkey m = k \<and> meta_is_signer m)"

definition asks_write :: "instruction list \<Rightarrow> pubkey \<Rightarrow> pubkey \<Rightarrow> bool" where
  "asks_write ixs payer k \<longleftrightarrow> k = payer \<or> (\<exists>ix \<in> set ixs. \<exists>m \<in> set (instruction_accounts ix). meta_pubkey m = k \<and> meta_is_writable m)"

definition privileges_consistent :: "instruction list \<Rightarrow> pubkey \<Rightarrow> bool" where
  "privileges_consistent ixs payer \<longleftrightarrow> (\<forall>k. asks_sign ixs payer k \<and> asks_write ixs payer k \<longrightarrow>
     k = payer \<or> (\<exists>ix \<in> set ixs. \<exists>m \<in> set (instruction_accounts ix). meta_pubkey m = k \<and> meta_is_signer m \<and> meta_is_writable m))"

lemma set_get_program_ids: "set (get_program_ids ixs) = instruction_program_id ` set ixs"
proof -
  have "set (fold (\<lambda>p ps. if p \<in> set ps then ps else ps @ [p]) xs ps) = set ps \<union> set xs" for xs ps :: "pubkey list"
    by (induction xs arbitrary: ps) auto
  then show ?thesis by (simp add: get_program_ids_def)
qed

lemma set_sorted_metas:
  "set (sorted_metas ixs (Some payer)) = insert \<lparr>meta_pubkey = payer, meta_is_signer = True, meta_is_writable = True\<rparr>
     (\<Union>(set ` instruction_accounts ` set ixs) \<union>
      (\<lambda>p. \<lparr>meta_pubkey = p, meta_is_signer = False, meta_is_writable = False\<rparr>) ` instruction_program_id ` set ixs)"
  by (simp add: sorted_metas_def Let_def set_get_program_ids)

lemma sorted_sorted_metas: "sorted (map meta_rank (sorted_metas ixs (Some payer)))"
  by (simp add: sorted_metas_def Let_def meta_rank_def)

lemma sorted_metas_asks:
  "(\<exists>m \<in> set (sorted_metas ixs (Some payer)). meta_pubkey m = k \<and> meta_is_signer m) \<longleftrightarrow> asks_sign ixs payer k"
  "(\<exists>m \<in> set (sorted_metas ixs (Some payer)). meta_pubkey m = k \<and> meta_is_writable m) \<longleftrightarrow> asks_write ixs payer k"
  by (auto simp: set_sorted_metas asks_sign_def asks_write_def)

lemma sorted_metas_consistent: "privileges_consistent ixs payer \<Longrightarrow> consistent_metas (sorted_metas ixs (Some payer))"
  unfolding consistent_metas_def
proof (intro ballI impI)
  fix x y assume ok: "privileges_consistent ixs payer"
    and xy: "x \<in> set (sorted_metas ixs (Some payer))" "y \<in> set (sorted_metas ixs (Some payer))"
    "meta_pubkey x = meta_pubkey y \<and> meta_is_signer x \<and> meta_is_writable y"
  have "asks_sign ixs payer (meta_pubkey x)" "asks_write ixs payer (meta_pubkey x)"
    unfolding sorted_metas_asks [symmetric] using xy by auto
  then consider "meta_pubkey x = payer"
    | "\<exists>ix \<in> set ixs. \<exists>m \<in> set (instruction_accounts ix). meta_pubkey m = meta_pubkey x \<and> meta_is_signer m \<and> meta_is_writable m"
    using ok unfolding privileges_consistent_def by blast
  then show "\<exists>z \<in> set (sorted_metas ixs (Some payer)). meta_pubkey z = meta_pubkey x \<and> meta_is_signer z \<and> meta_is_writable z"
    by cases (auto simp: set_sorted_metas)
qed

text \<open>The header counts the four groups of the keys.\<close>

lemma group_counts:
  fixes us :: "account_meta list"
  shows "length (filter meta_is_signer us) = length (filter (\<lambda>m. meta_rank m < 1) us) + length (filter (\<lambda>m. \<not> meta_is_writable m) (filter meta_is_signer us))"
    and "length us = length (filter (\<lambda>m. meta_rank m < 3) us) + length (filter (\<lambda>m. \<not> meta_is_writable m) (filter (\<lambda>m. \<not> meta_is_signer m) us))"
proof -
  have eqs: "(\<lambda>m. meta_rank m < 1) = (\<lambda>m. meta_is_signer m \<and> meta_is_writable m)"
    "(\<lambda>m. \<not> meta_rank m < 3) = (\<lambda>m. \<not> meta_is_signer m \<and> \<not> meta_is_writable m)"
    by (auto simp: fun_eq_iff meta_rank_def)
  show "length (filter meta_is_signer us) = length (filter (\<lambda>m. meta_rank m < 1) us) + length (filter (\<lambda>m. \<not> meta_is_writable m) (filter meta_is_signer us))"
    using sum_length_filter_compl [of meta_is_writable "filter meta_is_signer us"] unfolding eqs filter_filter by simp
  show "length us = length (filter (\<lambda>m. meta_rank m < 3) us) + length (filter (\<lambda>m. \<not> meta_is_writable m) (filter (\<lambda>m. \<not> meta_is_signer m) us))"
    using sum_length_filter_compl [of "\<lambda>m. meta_rank m < 3" us] unfolding eqs filter_filter by simp
qed

lemma group_index:
  assumes "sorted (map meta_rank us)" and "i < length us"
  shows "i < length (filter meta_is_signer us) \<longleftrightarrow> meta_is_signer (us ! i)"
    and "i < length (filter (\<lambda>m. meta_rank m < 1) us) \<longleftrightarrow> meta_is_signer (us ! i) \<and> meta_is_writable (us ! i)"
    and "i < length (filter (\<lambda>m. meta_rank m < 3) us) \<longleftrightarrow> meta_is_signer (us ! i) \<or> meta_is_writable (us ! i)"
  using sorted_filter_split(2) [OF assms, of 2] sorted_filter_split(2) [OF assms, of 1] sorted_filter_split(2) [OF assms, of 3]
  by (simp_all add: meta_rank_simps)

lemma grouped_keys:
  assumes "sorted (map meta_rank us)"
  shows "filter meta_is_signer us @ filter (\<lambda>m. \<not> meta_is_signer m) us = us"
  using sorted_filter_split(1) [OF assms, of 2] by (simp add: meta_rank_simps)

definition compiled_header :: "account_meta list \<Rightarrow> message_header" where
  "compiled_header us = \<lparr>num_required_signatures = of_nat (length (filter meta_is_signer us)),
     num_readonly_signed_accounts = of_nat (length (filter (\<lambda>m. \<not> meta_is_writable m) (filter meta_is_signer us))),
     num_readonly_unsigned_accounts = of_nat (length (filter (\<lambda>m. \<not> meta_is_writable m) (filter (\<lambda>m. \<not> meta_is_signer m) us)))\<rparr>"

lemma compiled_header_counts:
  assumes "length us \<le> 255"
  shows "unat (num_required_signatures (compiled_header us)) = length (filter meta_is_signer us)"
    and "unat (num_required_signatures (compiled_header us) - num_readonly_signed_accounts (compiled_header us))
      = length (filter (\<lambda>m. meta_rank m < 1) us)"
    and "unat (num_readonly_unsigned_accounts (compiled_header us)) = length us - length (filter (\<lambda>m. meta_rank m < 3) us)"
    and "unat (num_readonly_signed_accounts (compiled_header us)) = length (filter meta_is_signer us) - length (filter (\<lambda>m. meta_rank m < 1) us)"
    and "unat (of_nat (length us) - ucast (num_readonly_unsigned_accounts (compiled_header us)) :: u64)
      = length (filter (\<lambda>m. meta_rank m < 3) us)"
proof -
  note counts = group_counts [of us]
  have fits: "unat (of_nat (length (filter P xs)) :: u8) = length (filter P xs)" if "length xs \<le> 255" for P :: "account_meta \<Rightarrow> bool" and xs
    using le_trans [OF length_filter_le [of P xs] that] by (simp add: unat_of_nat_fits)
  have inner: "length (filter P us) \<le> 255" for P by (rule le_trans [OF length_filter_le assms])
  show req: "unat (num_required_signatures (compiled_header us)) = length (filter meta_is_signer us)"
    using fits [OF assms] by (simp add: compiled_header_def)
  have ros: "unat (num_readonly_signed_accounts (compiled_header us)) = length (filter (\<lambda>m. \<not> meta_is_writable m) (filter meta_is_signer us))"
    using fits [OF inner] by (simp add: compiled_header_def)
  then show "unat (num_readonly_signed_accounts (compiled_header us)) = length (filter meta_is_signer us) - length (filter (\<lambda>m. meta_rank m < 1) us)"
    using counts(1) by simp
  have rou: "unat (num_readonly_unsigned_accounts (compiled_header us))
      = length (filter (\<lambda>m. \<not> meta_is_writable m) (filter (\<lambda>m. \<not> meta_is_signer m) us))"
    using fits [OF inner] by (simp add: compiled_header_def)
  then show "unat (num_readonly_unsigned_accounts (compiled_header us)) = length us - length (filter (\<lambda>m. meta_rank m < 3) us)"
    using counts(2) by simp
  show "unat (num_required_signatures (compiled_header us) - num_readonly_signed_accounts (compiled_header us))
      = length (filter (\<lambda>m. meta_rank m < 1) us)"
    using req ros counts(1) by (subst unat_sub) (simp_all add: word_le_nat_alt)
  have "unat (of_nat (length us) :: u64) = length us" using assms by (simp add: unat_of_nat_fits)
  moreover have "unat (ucast (num_readonly_unsigned_accounts (compiled_header us)) :: u64) = unat (num_readonly_unsigned_accounts (compiled_header us))"
    by (simp add: unat_ucast_wider)
  ultimately show "unat (of_nat (length us) - ucast (num_readonly_unsigned_accounts (compiled_header us)) :: u64)
      = length (filter (\<lambda>m. meta_rank m < 3) us)"
    using rou counts(2) by (subst unat_sub) (simp_all add: word_le_nat_alt)
qed

lemma get_keys_compiled:
  assumes "sorted (map meta_rank (unique_metas (sorted_metas ixs payer)))"
    and "us = unique_metas (sorted_metas ixs payer)"
  shows "new_with_blockhash ixs payer bh = bind_r (compile_instructions ixs (map meta_pubkey us)) (\<lambda>cis.
    Inr \<lparr>lm_header = compiled_header us, lm_account_keys = map meta_pubkey us, lm_recent_blockhash = bh, lm_instructions = cis\<rparr>)"
  using grouped_keys [OF assms(1)] unfolding assms(2)
  by (simp add: new_with_blockhash_def get_keys_def Let_def compiled_header_def flip: map_append)

text \<open>Every key is compiled to its place.\<close>

lemma key_position_ok:
  assumes "k \<in> set ks" and "length ks \<le> 255"
  shows "\<exists>j. key_position ks k = Inr j \<and> unat j < length ks \<and> ks ! unat j = k"
proof -
  obtain i where i: "position ks k = Some i" using position_mem [OF assms(1)] by blast
  then have "i < length ks" "ks ! i = k" using position_Some by blast+
  then show ?thesis using i assms(2) by (auto simp: key_position_def unat_of_nat_fits)
qed

definition place :: "pubkey list \<Rightarrow> pubkey \<Rightarrow> u8" where
  "place ks k = (case key_position ks k of Inr j \<Rightarrow> j | Inl _ \<Rightarrow> 0)"

lemma place_ok:
  assumes "k \<in> set ks" and "length ks \<le> 255"
  shows "key_position ks k = Inr (place ks k)" "unat (place ks k) < length ks" "ks ! unat (place ks k) = k"
  using key_position_ok [OF assms] by (auto simp: place_def)

definition placed :: "pubkey list \<Rightarrow> instruction \<Rightarrow> compiled_instruction" where
  "placed ks ix = \<lparr>program_id_index = place ks (instruction_program_id ix),
     ix_accounts = map (\<lambda>m. place ks (meta_pubkey m)) (instruction_accounts ix), ix_data = instruction_data ix\<rparr>"

definition mentioned :: "instruction list \<Rightarrow> pubkey \<Rightarrow> pubkey set" where
  "mentioned ixs payer = insert payer (instruction_program_id ` set ixs \<union> meta_pubkey ` \<Union>(set ` instruction_accounts ` set ixs))"

lemma compile_instructions_placed:
  assumes "set ks = mentioned ixs payer" and "length ks \<le> 255"
  shows "compile_instructions ixs ks = Inr (map (placed ks) ixs)"
  unfolding compile_instructions_def
proof (rule map_r_all)
  fix ix assume ix: "ix \<in> set ixs"
  have "map_r (\<lambda>m. key_position ks (meta_pubkey m)) (instruction_accounts ix) = Inr (map (\<lambda>m. place ks (meta_pubkey m)) (instruction_accounts ix))"
    using ix assms by (intro map_r_all place_ok(1)) (auto simp: mentioned_def)
  moreover have "key_position ks (instruction_program_id ix) = Inr (place ks (instruction_program_id ix))"
    using ix assms by (intro place_ok(1)) (auto simp: mentioned_def)
  ultimately show "compile_instruction ks ix = Inr (placed ks ix)" by (simp add: compile_instruction_def placed_def)
qed

lemma called_placed:
  assumes ks: "set ks = mentioned ixs payer" "length ks \<le> 255" "distinct ks" and i: "i < length ks"
  shows "called_as_program (map (placed ks) ixs) i \<longleftrightarrow> ks ! i \<in> instruction_program_id ` set ixs"
proof -
  have u8: "u8_index i = Some (of_nat i)" "unat (of_nat i :: u8) = i" using i ks(2) by (simp_all add: u8_index_def unat_of_nat_fits)
  have "place ks (instruction_program_id ix) = of_nat i \<longleftrightarrow> instruction_program_id ix = ks ! i" if ix: "ix \<in> set ixs" for ix
  proof -
    have "instruction_program_id ix \<in> set ks" using ks(1) ix by (auto simp: mentioned_def)
    note at = place_ok [OF this ks(2)]
    have "place ks (instruction_program_id ix) = of_nat i \<longleftrightarrow> unat (place ks (instruction_program_id ix)) = i"
      using u8(2) by (metis word_unat_eq_iff)
    also have "\<dots> \<longleftrightarrow> instruction_program_id ix = ks ! i"
      using at ks(3) i nth_eq_iff_index_eq [OF ks(3) at(2) i] by auto
    finally show ?thesis .
  qed
  then show ?thesis by (auto simp: called_as_program_def u8(1) list_ex_iff placed_def) (metis imageI)
qed

text \<open>What a key is granted: what was asked for it, except that sysvars, builtin programs and programs that are called are not written.\<close>

definition write_demoted :: "instruction list \<Rightarrow> pubkey \<Rightarrow> pubkey \<Rightarrow> bool" where
  "write_demoted ixs payer k \<longleftrightarrow> is_sysvar_id k \<or> k \<in> set BUILTIN_PROGRAMS_KEYS
     \<or> k \<in> instruction_program_id ` set ixs \<and> bpf_loader_upgradeable_id \<notin> mentioned ixs payer"

definition granted :: "instruction list \<Rightarrow> pubkey \<Rightarrow> instruction \<Rightarrow> instruction" where
  "granted ixs payer ix = ix\<lparr>instruction_accounts := map (\<lambda>m. \<lparr>meta_pubkey = meta_pubkey m,
     meta_is_signer = asks_sign ixs payer (meta_pubkey m),
     meta_is_writable = asks_write ixs payer (meta_pubkey m) \<and> \<not> write_demoted ixs payer (meta_pubkey m)\<rparr>) (instruction_accounts ix)\<rparr>"

lemma first_privileges:
  assumes us: "firsts_ok (sorted_metas ixs (Some payer)) us" and ok: "privileges_consistent ixs payer" and u: "u \<in> set us"
  shows "meta_is_signer u = asks_sign ixs payer (meta_pubkey u)" "meta_is_writable u = asks_write ixs payer (meta_pubkey u)"
proof -
  let ?ms = "sorted_metas ixs (Some payer)"
  have le: "meta_rank u \<le> meta_rank x" if "x \<in> set ?ms" "meta_pubkey x = meta_pubkey u" for x
    using us u that unfolding firsts_ok_def by blast
  have in_ms: "u \<in> set ?ms" using us u unfolding firsts_ok_def by blast
  have sig: "meta_is_signer u" if "x \<in> set ?ms" "meta_pubkey x = meta_pubkey u" "meta_is_signer x" for x
    using le [OF that(1,2)] that(3) by (auto simp: meta_rank_def split: if_splits)
  have wr: "meta_is_writable u" if "x \<in> set ?ms" "meta_pubkey x = meta_pubkey u" "meta_is_writable x" for x
    by (rule first_writes [OF us sorted_metas_consistent [OF ok] subset_refl u that le [OF that(1,2)]]) auto
  show "meta_is_signer u = asks_sign ixs payer (meta_pubkey u)"
    unfolding sorted_metas_asks [symmetric] using in_ms sig by blast
  show "meta_is_writable u = asks_write ixs payer (meta_pubkey u)"
    unfolding sorted_metas_asks [symmetric] using in_ms wr by blast
qed

lemma sorted_metas_mentioned: "meta_pubkey ` set (sorted_metas ixs (Some payer)) = mentioned ixs payer"
  by (auto simp: set_sorted_metas mentioned_def image_image image_Un)

lemma unique_metas_head: "\<exists>r. unique_metas (sorted_metas ixs (Some payer)) = \<lparr>meta_pubkey = payer, meta_is_signer = True, meta_is_writable = True\<rparr> # r"
proof -
  have "\<exists>r. fold promote ms (u # us) = u # r" if "u = \<lparr>meta_pubkey = payer, meta_is_signer = True, meta_is_writable = True\<rparr>" for ms us u
    using that by (induction ms arbitrary: us) auto
  then show ?thesis by (simp add: unique_metas_def sorted_metas_def Let_def)
qed

text \<open>The privileges the processor sees at the place of a key.\<close>

lemma compiled_privileges:
  assumes us: "firsts_ok (sorted_metas ixs (Some payer)) us" and ok: "privileges_consistent ixs payer"
    and len: "length us \<le> 255" and i: "i < length us"
    and m: "m = \<lparr>lm_header = compiled_header us, lm_account_keys = map meta_pubkey us, lm_recent_blockhash = bh,
      lm_instructions = map (placed (map meta_pubkey us)) ixs\<rparr>"
  shows "message_is_signer (sanitized_view (Legacy m)) i = asks_sign ixs payer (meta_pubkey (us ! i))"
    and "message_is_writable (sanitized_view (Legacy m)) i
      = (asks_write ixs payer (meta_pubkey (us ! i)) \<and> \<not> write_demoted ixs payer (meta_pubkey (us ! i)))"
proof -
  have sorted: "sorted (map meta_rank us)" using us by (simp add: firsts_ok_def)
  have ks: "set (map meta_pubkey us) = mentioned ixs payer" "distinct (map meta_pubkey us)"
    using us sorted_metas_mentioned [of ixs payer] by (simp_all add: firsts_ok_def)
  note counts = compiled_header_counts [OF len] and at = group_index [OF sorted i]
  note privs = first_privileges [OF us ok nth_mem [OF i]]
  show "message_is_signer (sanitized_view (Legacy m)) i = asks_sign ixs payer (meta_pubkey (us ! i))"
    using counts(1) at(1) privs(1) by (simp add: sanitized_view_def sanitized_is_signer_def m)
  have "called_as_program (lm_instructions m) i \<longleftrightarrow> meta_pubkey (us ! i) \<in> instruction_program_id ` set ixs"
    using called_placed [OF ks(1) _ ks(2), of i] len i by (simp add: m)
  moreover have "upgradeable_loader_present (lm_account_keys m) \<longleftrightarrow> bpf_loader_upgradeable_id \<in> mentioned ixs payer"
    using ks(1) by (simp add: upgradeable_loader_present_def m)
  moreover have "i < unat (num_required_signatures (lm_header m) - num_readonly_signed_accounts (lm_header m))
      \<or> unat (num_required_signatures (lm_header m)) \<le> i
        \<and> i < unat (of_nat (length (lm_account_keys m)) - ucast (num_readonly_unsigned_accounts (lm_header m)) :: u64)
      \<longleftrightarrow> meta_is_writable (us ! i)"
    using counts at unfolding m by (auto simp: not_less [symmetric])
  moreover have "index_r (lm_account_keys m) i = Inr (meta_pubkey (us ! i))" using i by (simp add: index_r_def m)
  ultimately show "message_is_writable (sanitized_view (Legacy m)) i
      = (asks_write ixs payer (meta_pubkey (us ! i)) \<and> \<not> write_demoted ixs payer (meta_pubkey (us ! i)))"
    unfolding sanitized_view_def sanitized_is_writable.simps legacy_is_writable_def Let_def privs(2) [symmetric] write_demoted_def
    by auto
qed

lemma compiled_decompile:
  assumes us: "firsts_ok (sorted_metas ixs (Some payer)) us" and ok: "privileges_consistent ixs payer"
    and len: "length us \<le> 255" and ix: "ix \<in> set ixs"
    and m: "m = \<lparr>lm_header = compiled_header us, lm_account_keys = map meta_pubkey us, lm_recent_blockhash = bh,
      lm_instructions = map (placed (map meta_pubkey us)) ixs\<rparr>"
  shows "decompile (sanitized_view (Legacy m)) (placed (map meta_pubkey us) ix) = Inr (granted ixs payer ix)"
proof -
  let ?ks = "map meta_pubkey us" and ?v = "sanitized_view (Legacy m)"
  have ks: "set ?ks = mentioned ixs payer" "length ?ks \<le> 255" "message_keys ?v = ?ks"
    using us sorted_metas_mentioned [of ixs payer] len by (simp_all add: firsts_ok_def sanitized_view_def m)
  have at: "unat (place ?ks k) < length us" "?ks ! unat (place ?ks k) = k"
    "message_is_signer ?v (unat (place ?ks k)) = asks_sign ixs payer k"
    "message_is_writable ?v (unat (place ?ks k)) = (asks_write ixs payer k \<and> \<not> write_demoted ixs payer k)"
    if "k \<in> mentioned ixs payer" for k
  proof -
    have "k \<in> set ?ks" using that ks(1) by simp
    note p = place_ok [OF this ks(2)]
    show lt: "unat (place ?ks k) < length us" using p(2) by simp
    show key: "?ks ! unat (place ?ks k) = k" by (rule p(3))
    then have "meta_pubkey (us ! unat (place ?ks k)) = k" using lt by simp
    then show "message_is_signer ?v (unat (place ?ks k)) = asks_sign ixs payer k"
      "message_is_writable ?v (unat (place ?ks k)) = (asks_write ixs payer k \<and> \<not> write_demoted ixs payer k)"
      using compiled_privileges [OF us ok len lt m] by simp_all
  qed
  have mem: "meta_pubkey a \<in> mentioned ixs payer" if "a \<in> set (instruction_accounts ix)" for a
    using ix that by (auto simp: mentioned_def)
  have metas: "map_r (\<lambda>a. bind_r (ok_or (if unat a < length (message_keys ?v) then Some (message_keys ?v ! unat a) else None) MissingAccount)
        (\<lambda>k. Inr \<lparr>meta_pubkey = k, meta_is_signer = message_is_signer ?v (unat a), meta_is_writable = message_is_writable ?v (unat a)\<rparr>))
      (map (\<lambda>m. place ?ks (meta_pubkey m)) (instruction_accounts ix)) = Inr (instruction_accounts (granted ixs payer ix))"
    unfolding map_r_map granted_def
    by (subst map_r_all [where g = "\<lambda>m. \<lparr>meta_pubkey = meta_pubkey m, meta_is_signer = asks_sign ixs payer (meta_pubkey m),
      meta_is_writable = asks_write ixs payer (meta_pubkey m) \<and> \<not> write_demoted ixs payer (meta_pubkey m)\<rparr>"])
      (use at [OF mem] in \<open>simp_all add: ks(3)\<close>)
  have "instruction_program_id ix \<in> mentioned ixs payer" using ix by (auto simp: mentioned_def)
  note pid = at [OF this]
  show ?thesis using metas pid unfolding decompile_def placed_def Let_def ks(3) by (simp add: granted_def)
qed

lemma compiled_sanitize:
  assumes us: "firsts_ok (sorted_metas ixs (Some payer)) us" and len: "length us \<le> 255"
    and hd: "us = \<lparr>meta_pubkey = payer, meta_is_signer = True, meta_is_writable = True\<rparr> # r"
    and payer: "payer \<notin> instruction_program_id ` set ixs"
    and m: "m = \<lparr>lm_header = compiled_header us, lm_account_keys = map meta_pubkey us, lm_recent_blockhash = bh,
      lm_instructions = map (placed (map meta_pubkey us)) ixs\<rparr>"
  shows "legacy_sanitize m = Inr ()"
proof -
  let ?ks = "map meta_pubkey us"
  have ks: "set ?ks = mentioned ixs payer" "length ?ks \<le> 255"
    using us sorted_metas_mentioned [of ixs payer] len by (simp_all add: firsts_ok_def)
  note counts = compiled_header_counts [OF len] and groups = group_counts [of us]
  have "length (filter meta_is_signer us) \<le> length (filter (\<lambda>m. meta_rank m < 3) us)"
    unfolding meta_rank_simps by (induction us) auto
  then have fit: "\<not> unat (num_required_signatures (compiled_header us)) + unat (num_readonly_unsigned_accounts (compiled_header us)) > length us"
    using counts(1,3) groups(2) by simp
  have "0 < length (filter (\<lambda>m. meta_rank m < 1) us)" by (simp add: hd meta_rank_def)
  then have ro: "\<not> num_readonly_signed_accounts (compiled_header us) \<ge> num_required_signatures (compiled_header us)"
    unfolding word_le_nat_alt counts(1,4) using groups(1) by simp
  have at: "unat (place ?ks k) < length us" "?ks ! unat (place ?ks k) = k" if "k \<in> mentioned ixs payer" for k
    using place_ok(2,3) [OF _ ks(2), of k] that ks(1) by simp_all
  have "unat (place ?ks (instruction_program_id ix)) < length us \<and> place ?ks (instruction_program_id ix) \<noteq> 0
      \<and> (\<forall>a \<in> set (instruction_accounts ix). unat (place ?ks (meta_pubkey a)) < length us)" if ix: "ix \<in> set ixs" for ix
  proof -
    have "instruction_program_id ix \<in> mentioned ixs payer" using ix by (auto simp: mentioned_def)
    note p = at [OF this]
    have "place ?ks (instruction_program_id ix) \<noteq> 0" using p(2) payer ix hd by auto
    moreover have "meta_pubkey a \<in> mentioned ixs payer" if "a \<in> set (instruction_accounts ix)" for a
      using ix that by (auto simp: mentioned_def)
    ultimately show ?thesis using p(1) at(1) by blast
  qed
  then have "\<not> list_ex (\<lambda>ci. unat (program_id_index ci) \<ge> length us \<or> program_id_index ci = 0 \<or> list_ex (\<lambda>ai. unat ai \<ge> length us) (ix_accounts ci))
      (map (placed ?ks) ixs)"
    by (auto simp: list_ex_iff placed_def not_le)
  with fit ro show ?thesis by (simp add: legacy_sanitize_def m Let_def)
qed

text \<open>
  C14: A message compiled from instructions (\<open>Message::new_with_blockhash\<close>) says what the instructions
  say. When no more than 255 keys are mentioned and a key that is asked to sign and asked to be written is
  asked both by one of its accounts, compilation succeeds; the keys are the ones mentioned, each once, with
  the payer first; the message passes \<open>sanitize\<close> unless the payer is called as a program; and the
  processor, decompiling each instruction, finds the same program, data and accounts, each account a
  signer if and only if some instruction or the payer asks for it, and writable if and only if one asks
  for it and the key is no sysvar, no builtin program and no program called without the upgradeable loader.
\<close>

theorem compiled_message_decompiles:
  assumes "privileges_consistent ixs payer" and "card (mentioned ixs payer) \<le> 255"
  shows "\<exists>m. new_with_blockhash ixs (Some payer) bh = Inr m
    \<and> distinct (lm_account_keys m) \<and> set (lm_account_keys m) = mentioned ixs payer \<and> lm_account_keys m ! 0 = payer
    \<and> (payer \<notin> instruction_program_id ` set ixs \<longrightarrow> legacy_sanitize m = Inr ())
    \<and> map_r (decompile (sanitized_view (Legacy m))) (lm_instructions m) = Inr (map (granted ixs payer) ixs)"
proof -
  define us where "us = unique_metas (sorted_metas ixs (Some payer))"
  define m where "m = \<lparr>lm_header = compiled_header us, lm_account_keys = map meta_pubkey us, lm_recent_blockhash = bh,
    lm_instructions = map (placed (map meta_pubkey us)) ixs\<rparr>"
  have firsts: "firsts_ok (sorted_metas ixs (Some payer)) us"
    unfolding us_def by (rule unique_metas_firsts [OF sorted_sorted_metas sorted_metas_consistent [OF assms(1)]])
  then have us: "distinct (map meta_pubkey us)" "set (map meta_pubkey us) = mentioned ixs payer" "sorted (map meta_rank us)"
    by (simp_all add: firsts_ok_def sorted_metas_mentioned)
  then have len: "length us \<le> 255" using assms(2) distinct_card [OF us(1)] by simp
  obtain r where hd: "us = \<lparr>meta_pubkey = payer, meta_is_signer = True, meta_is_writable = True\<rparr> # r"
    using unique_metas_head unfolding us_def by blast
  have "new_with_blockhash ixs (Some payer) bh = Inr m"
    using get_keys_compiled [OF _ us_def, of bh] us(3) compile_instructions_placed [OF us(2)] len by (simp add: us_def [symmetric] m_def)
  moreover have "map_r (decompile (sanitized_view (Legacy m))) (map (placed (map meta_pubkey us)) ixs) = Inr (map (granted ixs payer) ixs)"
    unfolding map_r_map using compiled_decompile [OF firsts assms(1) len _ m_def] by (rule map_r_all)
  moreover have "payer \<notin> instruction_program_id ` set ixs \<longrightarrow> legacy_sanitize m = Inr ()"
    using compiled_sanitize [OF firsts len hd _ m_def] by blast
  ultimately show ?thesis using us(1,2) hd by (auto simp: m_def)
qed

text \<open>Example keys, none of them reserved.\<close>

lemma small_keys_plain:
  "\<not> is_sysvar_id 5" "(5 :: pubkey) \<notin> set BUILTIN_PROGRAMS_KEYS" "\<not> is_sysvar_id 6" "(6 :: pubkey) \<notin> set BUILTIN_PROGRAMS_KEYS"
  by (simp_all add: is_sysvar_id_def BUILTIN_PROGRAMS_KEYS_def message_ids_numeral system_program_id_numeral vote_program_id_numeral
    instructions_sysvar_id_numeral stake_program_id_numeral stake_config_id_numeral stake_history_id_numeral clock_id_numeral
    rent_id_numeral)

definition example_instruction :: "bool \<Rightarrow> instruction" where
  "example_instruction w = \<lparr>instruction_program_id = 9, instruction_accounts =
     [\<lparr>meta_pubkey = 5, meta_is_signer = True, meta_is_writable = False\<rparr>,
      \<lparr>meta_pubkey = 6, meta_is_signer = True, meta_is_writable = w\<rparr>,
      \<lparr>meta_pubkey = 6, meta_is_signer = False, meta_is_writable = True\<rparr>], instruction_data = []\<rparr>"

theorem compiled_message_decompiles_witness:
  "\<exists>m. new_with_blockhash [example_instruction True] (Some 1) 7 = Inr m
    \<and> distinct (lm_account_keys m) \<and> set (lm_account_keys m) = {1, 5, 6, 9} \<and> lm_account_keys m ! 0 = 1
    \<and> legacy_sanitize m = Inr ()
    \<and> map_r (decompile (sanitized_view (Legacy m))) (lm_instructions m)
      = Inr [(example_instruction True)\<lparr>instruction_accounts :=
          [\<lparr>meta_pubkey = 5, meta_is_signer = True, meta_is_writable = False\<rparr>,
           \<lparr>meta_pubkey = 6, meta_is_signer = True, meta_is_writable = True\<rparr>,
           \<lparr>meta_pubkey = 6, meta_is_signer = True, meta_is_writable = True\<rparr>]\<rparr>]"
proof -
  have ok: "privileges_consistent [example_instruction True] 1"
    by (auto simp: privileges_consistent_def asks_sign_def asks_write_def example_instruction_def)
  have mentioned: "mentioned [example_instruction True] 1 = {1, 5, 6, 9}"
    by (auto simp: mentioned_def example_instruction_def)
  have "granted [example_instruction True] 1 (example_instruction True) = (example_instruction True)\<lparr>instruction_accounts :=
          [\<lparr>meta_pubkey = 5, meta_is_signer = True, meta_is_writable = False\<rparr>,
           \<lparr>meta_pubkey = 6, meta_is_signer = True, meta_is_writable = True\<rparr>,
           \<lparr>meta_pubkey = 6, meta_is_signer = True, meta_is_writable = True\<rparr>]\<rparr>"
    using small_keys_plain by (simp add: granted_def asks_sign_def asks_write_def write_demoted_def example_instruction_def)
  moreover have "(1 :: pubkey) \<notin> instruction_program_id ` set [example_instruction True]" by (simp add: example_instruction_def)
  ultimately show ?thesis
    using compiled_message_decompiles [OF ok, of 7] unfolding mentioned by auto
qed


end
