(* ===== verification/Account_Locks.thy ===== *)
theory Account_Locks
  imports Messages
begin

text \<open>
  The locks on accounts (\<open>AccountLocks\<close> of \<open>runtime/src/accounts.rs\<close>) and the batches of transactions
  that hold them (\<open>runtime/src/transaction_batch.rs\<close>, the \<open>prepare_*\<close> and \<open>unlock_accounts\<close> operations
  of \<open>runtime/src/bank.rs\<close>). The locks sit behind a mutex that each operation holds from beginning to end,
  so the threads of the validator are an arbitrary interleaving of whole operations (\<open>batch_step\<close>). The
  development shows that the locks are exactly those of the transactions that hold some, that no two
  transactions that conflict hold locks at the same time, and that nothing stays locked.
\<close>

section \<open>Locks\<close>

record account_locks =
  write_locks :: "pubkey set"
  readonly_locks :: "pubkey \<rightharpoonup> u64"

definition account_locks_default :: account_locks where
  "account_locks_default = \<lparr>write_locks = {}, readonly_locks = Map.empty\<rparr>"

definition is_locked_readonly :: "account_locks \<Rightarrow> pubkey \<Rightarrow> bool" where
  "is_locked_readonly l k \<longleftrightarrow> (case readonly_locks l k of Some c \<Rightarrow> c > 0 | None \<Rightarrow> False)"

definition is_locked_write :: "account_locks \<Rightarrow> pubkey \<Rightarrow> bool" where
  "is_locked_write l k \<longleftrightarrow> k \<in> write_locks l"

definition insert_new_readonly :: "account_locks \<Rightarrow> pubkey \<Rightarrow> account_locks ix_result" where
  "insert_new_readonly l k =
     bind_r (guard_r (readonly_locks l k = None) Panicked) (\<lambda>_. Inr (l\<lparr>readonly_locks := (readonly_locks l)(k \<mapsto> 1)\<rparr>))"

definition lock_readonly :: "account_locks \<Rightarrow> pubkey \<Rightarrow> bool \<times> account_locks" where
  "lock_readonly l k =
     (case readonly_locks l k of
        Some c \<Rightarrow> (True, l\<lparr>readonly_locks := (readonly_locks l)(k \<mapsto> c + 1)\<rparr>)
      | None \<Rightarrow> (False, l))"

definition unlock_readonly :: "account_locks \<Rightarrow> pubkey \<Rightarrow> account_locks" where
  "unlock_readonly l k =
     (case readonly_locks l k of
        Some c \<Rightarrow> l\<lparr>readonly_locks := (if c - 1 = 0 then (readonly_locks l)(k := None) else (readonly_locks l)(k \<mapsto> c - 1))\<rparr>
      | None \<Rightarrow> l)"

definition unlock_write :: "account_locks \<Rightarrow> pubkey \<Rightarrow> account_locks" where
  "unlock_write l k = l\<lparr>write_locks := write_locks l - {k}\<rparr>"

fun lock_all_readonly :: "account_locks \<Rightarrow> pubkey list \<Rightarrow> account_locks ix_result" where
  "lock_all_readonly l [] = Inr l"
| "lock_all_readonly l (k # ks) =
     (case lock_readonly l k of
        (True, l') \<Rightarrow> lock_all_readonly l' ks
      | (False, l') \<Rightarrow> bind_r (insert_new_readonly l' k) (\<lambda>l''. lock_all_readonly l'' ks))"

definition lock_account ::
  "account_locks \<Rightarrow> pubkey list \<Rightarrow> pubkey list \<Rightarrow> ((transaction_error, unit) result \<times> account_locks) ix_result" where
  "lock_account l writable_keys readonly_keys =
     (if list_ex (\<lambda>k. is_locked_write l k \<or> is_locked_readonly l k) writable_keys then Inr (Inl AccountInUse, l)
      else if list_ex (is_locked_write l) readonly_keys then Inr (Inl AccountInUse, l)
      else bind_r (lock_all_readonly (l\<lparr>write_locks := write_locks l \<union> set writable_keys\<rparr>) readonly_keys) (\<lambda>l'.
        Inr (Inr (), l')))"

definition unlock_account :: "account_locks \<Rightarrow> pubkey list \<Rightarrow> pubkey list \<Rightarrow> account_locks" where
  "unlock_account l writable_keys readonly_keys =
     fold (\<lambda>k l. unlock_readonly l k) readonly_keys (fold (\<lambda>k l. unlock_write l k) writable_keys l)"

section \<open>Batches\<close>

type_synonym lock_request = "(transaction_error, transaction_account_locks) result"

fun lock_accounts_inner ::
  "lock_request list \<Rightarrow> account_locks \<Rightarrow> ((transaction_error, unit) result list \<times> account_locks) ix_result" where
  "lock_accounts_inner [] l = Inr ([], l)"
| "lock_accounts_inner (Inl e # rs) l =
     bind_r (lock_accounts_inner rs l) (\<lambda>(res, l'). Inr (Inl e # res, l'))"
| "lock_accounts_inner (Inr ks # rs) l =
     bind_r (lock_account l (tl_writable ks) (tl_readonly ks)) (\<lambda>(r, l1).
     bind_r (lock_accounts_inner rs l1) (\<lambda>(res, l'). Inr (r # res, l')))"

definition lock_accounts ::
  "feature set \<Rightarrow> sanitized_transaction list \<Rightarrow> account_locks \<Rightarrow> ((transaction_error, unit) result list \<times> account_locks) ix_result" where
  "lock_accounts features txs l =
     bind_r (map_r (\<lambda>tx. get_account_locks features (stx_message tx)) txs) (\<lambda>requests. lock_accounts_inner requests l)"

definition lock_accounts_with_results ::
  "feature set \<Rightarrow> sanitized_transaction list \<Rightarrow> (transaction_error, unit) result list \<Rightarrow> account_locks
     \<Rightarrow> ((transaction_error, unit) result list \<times> account_locks) ix_result" where
  "lock_accounts_with_results features txs results l =
     bind_r (map_r (\<lambda>(tx, res). case res of Inr _ \<Rightarrow> get_account_locks features (stx_message tx) | Inl e \<Rightarrow> Inr (Inl e)) (zip txs results))
       (\<lambda>requests. lock_accounts_inner requests l)"

definition never_locked :: "transaction_error set" where
  "never_locked = {AccountLoadedTwice, AccountInUse, SanitizeFailure, TooManyAccountLocks, WouldExceedMaxBlockCostLimit,
     WouldExceedMaxVoteCostLimit, WouldExceedMaxAccountCostLimit, WouldExceedMaxAccountDataCostLimit}"

definition skips_unlock :: "(transaction_error, unit) result \<Rightarrow> bool" where
  "skips_unlock res \<longleftrightarrow> (case res of Inl e \<Rightarrow> e \<in> never_locked | Inr _ \<Rightarrow> False)"

definition unlock_accounts ::
  "sanitized_transaction list \<Rightarrow> (transaction_error, unit) result list \<Rightarrow> account_locks \<Rightarrow> account_locks ix_result" where
  "unlock_accounts txs results l =
     bind_r (map_r (\<lambda>(tx, _). get_account_locks_unchecked (stx_message tx)) (filter (\<lambda>(_, res). \<not> skips_unlock res) (zip txs results)))
       (\<lambda>ls. Inr (fold (\<lambda>ks l. unlock_account l (tl_writable ks) (tl_readonly ks)) ls l))"

record transaction_batch =
  lock_results :: "(transaction_error, unit) result list"
  sanitized_txs :: "sanitized_transaction list"
  needs_unlock :: bool

definition transaction_batch_new ::
  "(transaction_error, unit) result list \<Rightarrow> sanitized_transaction list \<Rightarrow> transaction_batch ix_result" where
  "transaction_batch_new results txs =
     bind_r (guard_r (length results = length txs) Panicked) (\<lambda>_.
       Inr \<lparr>lock_results = results, sanitized_txs = txs, needs_unlock = True\<rparr>)"

definition prepare_sanitized_batch ::
  "feature set \<Rightarrow> sanitized_transaction list \<Rightarrow> account_locks \<Rightarrow> (transaction_batch \<times> account_locks) ix_result" where
  "prepare_sanitized_batch features txs l =
     bind_r (lock_accounts features txs l) (\<lambda>(results, l').
     bind_r (transaction_batch_new results txs) (\<lambda>b. Inr (b, l')))"

definition prepare_sanitized_batch_with_results ::
  "feature set \<Rightarrow> sanitized_transaction list \<Rightarrow> (transaction_error, unit) result list \<Rightarrow> account_locks
     \<Rightarrow> (transaction_batch \<times> account_locks) ix_result" where
  "prepare_sanitized_batch_with_results features txs results l =
     bind_r (lock_accounts_with_results features txs results l) (\<lambda>(res, l').
     bind_r (transaction_batch_new res txs) (\<lambda>b. Inr (b, l')))"

definition prepare_simulation_batch :: "feature set \<Rightarrow> sanitized_transaction \<Rightarrow> transaction_batch ix_result" where
  "prepare_simulation_batch features tx =
     bind_r (get_account_locks features (stx_message tx)) (\<lambda>res.
     bind_r (transaction_batch_new [case res of Inl e \<Rightarrow> Inl e | Inr _ \<Rightarrow> Inr ()] [tx]) (\<lambda>b.
       Inr (b\<lparr>needs_unlock := False\<rparr>)))"

definition unlock_batch :: "transaction_batch \<Rightarrow> account_locks \<Rightarrow> (transaction_batch \<times> account_locks) ix_result" where
  "unlock_batch b l =
     (if needs_unlock b then
        bind_r (unlock_accounts (sanitized_txs b) (lock_results b) l) (\<lambda>l'. Inr (b\<lparr>needs_unlock := False\<rparr>, l'))
      else Inr (b, l))"

section \<open>Who holds locks\<close>

text \<open>The keys a message locks, as a total function.\<close>

definition wanted :: "sanitized_message \<Rightarrow> transaction_account_locks" where
  "wanted m = (let ks = message_account_keys m; w = (\<lambda>i. sanitized_is_writable m i = Inr True) in
     \<lparr>tl_readonly = map ((!) ks) (filter (\<lambda>i. \<not> w i) [0..<length ks]), tl_writable = map ((!) ks) (filter w [0..<length ks])\<rparr>)"

definition request :: "feature set \<Rightarrow> sanitized_message \<Rightarrow> lock_request" where
  "request features m =
     (if \<not> distinct (message_account_keys m) then Inl AccountLoadedTwice
      else if max_tx_account_locks \<in> features \<and> length (message_account_keys m) > MAX_TX_ACCOUNT_LOCKS then Inl TooManyAccountLocks
      else Inr (wanted m))"

lemma sanitized_is_writable_total:
  assumes "i < length (message_account_keys m)"
  shows "\<exists>w. sanitized_is_writable m i = Inr w"
  using assms by (cases m) (auto simp: legacy_is_writable_def Let_def index_r_def)

lemma get_account_locks_unchecked_wanted: "get_account_locks_unchecked m = Inr (wanted m)"
proof -
  let ?ks = "message_account_keys m"
  let ?w = "\<lambda>i. sanitized_is_writable m i = Inr True"
  have "map_r (\<lambda>(i, k). bind_r (sanitized_is_writable m i) (\<lambda>w. Inr (k, w))) (enumerate 0 ?ks)
      = Inr (map (\<lambda>(i, k). (k, ?w i)) (enumerate 0 ?ks))"
  proof (rule map_r_all)
    fix x assume "x \<in> set (enumerate 0 ?ks)"
    then have "x = (fst x, ?ks ! fst x) \<and> fst x < length ?ks" by (simp add: in_set_enumerate_eq)
    then obtain i where x: "x = (i, ?ks ! i)" "i < length ?ks" by blast
    then show "(\<lambda>(i, k). bind_r (sanitized_is_writable m i) (\<lambda>w. Inr (k, w))) x = Inr ((\<lambda>(i, k). (k, ?w i)) x)"
      using sanitized_is_writable_total [OF x(2)] by auto
  qed
  moreover have "map (\<lambda>(i, k). (k, ?w i)) (enumerate 0 ?ks) = map (\<lambda>i. (?ks ! i, ?w i)) [0..<length ?ks]"
    by (rule nth_equalityI) (simp_all add: nth_enumerate_eq)
  ultimately show ?thesis
    by (simp add: get_account_locks_unchecked_def wanted_def Let_def filter_map comp_def)
qed

lemma get_account_locks_request: "get_account_locks features m = Inr (request features m)"
  by (simp add: get_account_locks_def request_def has_duplicates_keys get_account_locks_unchecked_wanted)

lemma wanted_distinct:
  assumes "distinct (message_account_keys m)"
  shows "distinct (tl_readonly (wanted m))" "set (tl_writable (wanted m)) \<inter> set (tl_readonly (wanted m)) = {}"
proof -
  let ?ks = "message_account_keys m"
  have inj: "inj_on ((!) ?ks) {0..<length ?ks}" using assms by (auto simp: inj_on_def nth_eq_iff_index_eq)
  then show "distinct (tl_readonly (wanted m))"
    by (auto simp: wanted_def Let_def distinct_map intro: inj_on_subset)
  show "set (tl_writable (wanted m)) \<inter> set (tl_readonly (wanted m)) = {}"
    using inj by (fastforce simp: wanted_def Let_def inj_on_def)
qed

definition compatible :: "transaction_account_locks \<Rightarrow> transaction_account_locks \<Rightarrow> bool" where
  "compatible a b \<longleftrightarrow> set (tl_writable a) \<inter> (set (tl_writable b) \<union> set (tl_readonly b)) = {}
     \<and> set (tl_readonly a) \<inter> set (tl_writable b) = {}"

text \<open>The specification: a list of those who hold locks; a request is admitted if it conflicts with none of them.\<close>

fun admit :: "transaction_account_locks list \<Rightarrow> lock_request list
    \<Rightarrow> (transaction_error, unit) result list \<times> transaction_account_locks list" where
  "admit H [] = ([], H)"
| "admit H (Inl e # rs) = (let (res, H') = admit H rs in (Inl e # res, H'))"
| "admit H (Inr ks # rs) =
     (if list_all (compatible ks) H then (let (res, H') = admit (H @ [ks]) rs in (Inr () # res, H'))
      else (let (res, H') = admit H rs in (Inl AccountInUse # res, H')))"

definition well_formed :: "transaction_account_locks \<Rightarrow> bool" where
  "well_formed ks \<longleftrightarrow> distinct (tl_readonly ks) \<and> set (tl_writable ks) \<inter> set (tl_readonly ks) = {}"

definition readers :: "transaction_account_locks list \<Rightarrow> pubkey \<Rightarrow> nat" where
  "readers H k = length (filter (\<lambda>h. k \<in> set (tl_readonly h)) H)"

definition locks_of :: "transaction_account_locks list \<Rightarrow> account_locks" where
  "locks_of H = \<lparr>write_locks = \<Union>(set ` tl_writable ` set H),
     readonly_locks = (\<lambda>k. if readers H k = 0 then None else Some (of_nat (readers H k)))\<rparr>"

text \<open>The holders do not conflict; \<open>sorted_wrt\<close> relates each to all that came later.\<close>

definition exclusive :: "transaction_account_locks list \<Rightarrow> bool" where
  "exclusive H \<longleftrightarrow> sorted_wrt compatible H \<and> list_all well_formed H \<and> length H < 2 ^ 64"

lemma compatible_sym: "compatible a b \<longleftrightarrow> compatible b a"
  by (auto simp: compatible_def)

lemma readers_le: "readers H k \<le> length H"
  by (simp add: readers_def)

lemma locked_of:
  assumes "length H < 2 ^ 64"
  shows "is_locked_write (locks_of H) k \<longleftrightarrow> (\<exists>h \<in> set H. k \<in> set (tl_writable h))"
    and "is_locked_readonly (locks_of H) k \<longleftrightarrow> (\<exists>h \<in> set H. k \<in> set (tl_readonly h))"
proof -
  have "readers H k < 2 ^ 64" using assms readers_le [of H k] by simp
  then have "unat (of_nat (readers H k) :: u64) = readers H k" by (simp add: unat_of_nat_fits)
  then have "(of_nat (readers H k) :: u64) > 0 \<longleftrightarrow> readers H k > 0" by (simp add: word_less_nat_alt)
  moreover have "readers H k > 0 \<longleftrightarrow> (\<exists>h \<in> set H. k \<in> set (tl_readonly h))"
    by (auto simp: readers_def filter_empty_conv)
  ultimately show "is_locked_readonly (locks_of H) k \<longleftrightarrow> (\<exists>h \<in> set H. k \<in> set (tl_readonly h))"
    by (auto simp: is_locked_readonly_def locks_of_def)
  show "is_locked_write (locks_of H) k \<longleftrightarrow> (\<exists>h \<in> set H. k \<in> set (tl_writable h))"
    by (auto simp: is_locked_write_def locks_of_def)
qed

lemma lock_all_readonly_counts:
  assumes "distinct ks"
  shows "lock_all_readonly l ks = Inr (l\<lparr>readonly_locks := (\<lambda>k. if k \<in> set ks
    then Some (case readonly_locks l k of Some c \<Rightarrow> c + 1 | None \<Rightarrow> 1) else readonly_locks l k)\<rparr>)"
  using assms
proof (induction ks arbitrary: l)
  case (Cons k ks)
  let ?l = "l\<lparr>readonly_locks := (readonly_locks l)(k \<mapsto> (case readonly_locks l k of Some c \<Rightarrow> c + 1 | None \<Rightarrow> 1))\<rparr>"
  have "lock_all_readonly l (k # ks) = lock_all_readonly ?l ks"
    by (cases "readonly_locks l k") (simp_all add: lock_readonly_def insert_new_readonly_def guard_r_def)
  also have "\<dots> = Inr (?l\<lparr>readonly_locks := (\<lambda>x. if x \<in> set ks
      then Some (case readonly_locks ?l x of Some c \<Rightarrow> c + 1 | None \<Rightarrow> 1) else readonly_locks ?l x)\<rparr>)"
    using Cons.prems by (intro Cons.IH) simp
  also have "(\<lambda>x. if x \<in> set ks then Some (case readonly_locks ?l x of Some c \<Rightarrow> c + 1 | None \<Rightarrow> 1) else readonly_locks ?l x)
      = (\<lambda>x. if x \<in> set (k # ks) then Some (case readonly_locks l x of Some c \<Rightarrow> c + 1 | None \<Rightarrow> 1) else readonly_locks l x)"
    using Cons.prems by (auto simp: fun_eq_iff)
  finally show ?case by simp
qed simp

lemma lock_account_admit:
  assumes H: "exclusive H" and ks: "well_formed ks" and len: "Suc (length H) < 2 ^ 64"
  shows "lock_account (locks_of H) (tl_writable ks) (tl_readonly ks)
    = (if list_all (compatible ks) H then Inr (Inr (), locks_of (H @ [ks])) else Inr (Inl AccountInUse, locks_of H))"
proof (cases "list_all (compatible ks) H")
  case True
  have small: "length H < 2 ^ 64" using H by (simp add: exclusive_def)
  note locked = locked_of [OF small]
  have free: "\<not> list_ex (\<lambda>k. is_locked_write (locks_of H) k \<or> is_locked_readonly (locks_of H) k) (tl_writable ks)"
    "\<not> list_ex (is_locked_write (locks_of H)) (tl_readonly ks)"
    using True by (auto simp: list_ex_iff list_all_iff locked compatible_def)
  define l where "l = locks_of H\<lparr>write_locks := write_locks (locks_of H) \<union> set (tl_writable ks)\<rparr>"
  have "lock_all_readonly l (tl_readonly ks) = Inr (locks_of (H @ [ks]))"
  proof -
    have "distinct (tl_readonly ks)" using ks by (simp add: well_formed_def)
    then show ?thesis
      unfolding lock_all_readonly_counts [OF \<open>distinct (tl_readonly ks)\<close>] l_def
      by (auto simp: fun_eq_iff locks_of_def readers_def)
  qed
  then show ?thesis unfolding lock_account_def l_def if_not_P [OF free(1)] if_not_P [OF free(2)] if_P [OF True] by simp
next
  case False
  have small: "length H < 2 ^ 64" using H by (simp add: exclusive_def)
  obtain h where h: "h \<in> set H" "\<not> compatible ks h" using False by (auto simp: list_all_iff)
  then obtain k where "k \<in> set (tl_writable ks) \<and> (k \<in> set (tl_writable h) \<or> k \<in> set (tl_readonly h))
      \<or> k \<in> set (tl_readonly ks) \<and> k \<in> set (tl_writable h)"
    unfolding compatible_def by blast
  then have "list_ex (\<lambda>k. is_locked_write (locks_of H) k \<or> is_locked_readonly (locks_of H) k) (tl_writable ks)
      \<or> list_ex (is_locked_write (locks_of H)) (tl_readonly ks)"
    unfolding list_ex_iff locked_of [OF small] using h(1) by blast
  then show ?thesis using False unfolding lock_account_def by argo
qed

section \<open>Locking and unlocking follow the specification\<close>

definition newly_held :: "lock_request list \<Rightarrow> (transaction_error, unit) result list \<Rightarrow> transaction_account_locks list" where
  "newly_held rs res = map (\<lambda>(r, _). case r of Inr ks \<Rightarrow> ks | Inl _ \<Rightarrow> undefined) (filter (\<lambda>(_, x). x = Inr ()) (zip rs res))"

lemma admit_results:
  "length (fst (admit H rs)) = length rs"
  "snd (admit H rs) = H @ newly_held rs (fst (admit H rs))"
  "\<forall>x \<in> set (zip rs (fst (admit H rs))). snd x = Inr () \<longrightarrow> (\<exists>ks. fst x = Inr ks)"
  "Inl e \<in> set (fst (admit H rs)) \<Longrightarrow> e = AccountInUse \<or> Inl e \<in> set rs"
proof -
  have "length (fst (admit H rs)) = length rs \<and> snd (admit H rs) = H @ newly_held rs (fst (admit H rs))
      \<and> (\<forall>x \<in> set (zip rs (fst (admit H rs))). snd x = Inr () \<longrightarrow> (\<exists>ks. fst x = Inr ks))
      \<and> (Inl e \<in> set (fst (admit H rs)) \<longrightarrow> e = AccountInUse \<or> Inl e \<in> set rs)"
    by (induction H rs rule: admit.induct) (auto simp: newly_held_def Let_def split: prod.splits)
  then show "length (fst (admit H rs)) = length rs" "snd (admit H rs) = H @ newly_held rs (fst (admit H rs))"
    "\<forall>x \<in> set (zip rs (fst (admit H rs))). snd x = Inr () \<longrightarrow> (\<exists>ks. fst x = Inr ks)"
    "Inl e \<in> set (fst (admit H rs)) \<Longrightarrow> e = AccountInUse \<or> Inl e \<in> set rs" by auto
qed

lemma lock_accounts_inner_admit:
  assumes "exclusive H" and "\<forall>ks. Inr ks \<in> set rs \<longrightarrow> well_formed ks" and "length H + length rs < 2 ^ 64"
  shows "lock_accounts_inner rs (locks_of H) = Inr (fst (admit H rs), locks_of (snd (admit H rs))) \<and> exclusive (snd (admit H rs))"
  using assms
proof (induction H rs rule: admit.induct)
  case (3 H ks rs)
  have ks: "well_formed ks" and len: "Suc (length H) < 2 ^ 64" using 3(4,5) by auto
  note lock = lock_account_admit [OF 3(3) ks len]
  show ?case
  proof (cases "list_all (compatible ks) H")
    case True
    have "exclusive (H @ [ks])"
      using 3(3) True ks len by (auto simp: exclusive_def sorted_wrt_append list_all_iff compatible_sym)
    then have "lock_accounts_inner rs (locks_of (H @ [ks])) = Inr (fst (admit (H @ [ks]) rs), locks_of (snd (admit (H @ [ks]) rs)))
        \<and> exclusive (snd (admit (H @ [ks]) rs))"
      using 3(1) [OF True] 3(4,5) by simp
    then show ?thesis using True lock by (simp add: Let_def case_prod_beta)
  next
    case False
    have "lock_accounts_inner rs (locks_of H) = Inr (fst (admit H rs), locks_of (snd (admit H rs))) \<and> exclusive (snd (admit H rs))"
      using 3(2) [OF False 3(3)] 3(4,5) by simp
    then show ?thesis using False lock by (simp add: Let_def case_prod_beta)
  qed
qed (simp_all add: Let_def case_prod_beta)

lemma unlock_all_readonly:
  assumes "distinct ks"
  shows "fold (\<lambda>k l. unlock_readonly l k) ks l = l\<lparr>readonly_locks := (\<lambda>k. if k \<in> set ks
    then (case readonly_locks l k of Some c \<Rightarrow> if c - 1 = 0 then None else Some (c - 1) | None \<Rightarrow> None) else readonly_locks l k)\<rparr>"
  using assms
proof (induction ks arbitrary: l)
  case (Cons k ks)
  let ?l = "unlock_readonly l k"
  have at: "readonly_locks ?l = (readonly_locks l)(k := case readonly_locks l k of Some c \<Rightarrow> if c - 1 = 0 then None else Some (c - 1) | None \<Rightarrow> None)"
    and same: "?l\<lparr>readonly_locks := f\<rparr> = l\<lparr>readonly_locks := f\<rparr>" for f
    by (auto simp: unlock_readonly_def fun_eq_iff split: option.splits)
  have "fold (\<lambda>k l. unlock_readonly l k) (k # ks) l = fold (\<lambda>k l. unlock_readonly l k) ks ?l" by simp
  also have "\<dots> = l\<lparr>readonly_locks := (\<lambda>x. if x \<in> set ks
      then (case readonly_locks ?l x of Some c \<Rightarrow> if c - 1 = 0 then None else Some (c - 1) | None \<Rightarrow> None) else readonly_locks ?l x)\<rparr>"
    using Cons.IH [of ?l] Cons.prems same by simp
  also have "(\<lambda>x. if x \<in> set ks
      then (case readonly_locks ?l x of Some c \<Rightarrow> if c - 1 = 0 then None else Some (c - 1) | None \<Rightarrow> None) else readonly_locks ?l x)
      = (\<lambda>x. if x \<in> set (k # ks)
      then (case readonly_locks l x of Some c \<Rightarrow> if c - 1 = 0 then None else Some (c - 1) | None \<Rightarrow> None) else readonly_locks l x)"
    using Cons.prems unfolding at by (auto simp: fun_eq_iff)
  finally show ?case .
qed simp

lemma unlock_all_write: "fold (\<lambda>k l. unlock_write l k) ks l = l\<lparr>write_locks := write_locks l - set ks\<rparr>"
  by (induction ks arbitrary: l) (simp_all add: unlock_write_def flip: Diff_insert2)

lemma unlock_account_holder:
  assumes H: "exclusive (H1 @ ks # H2)"
  shows "unlock_account (locks_of (H1 @ ks # H2)) (tl_writable ks) (tl_readonly ks) = locks_of (H1 @ H2)"
    and "exclusive (H1 @ H2)"
proof -
  let ?H = "H1 @ ks # H2"
  have comp: "compatible ks h" if "h \<in> set (H1 @ H2)" for h
    using H that compatible_sym by (auto simp: exclusive_def sorted_wrt_append)
  have ks: "distinct (tl_readonly ks)" using H by (simp add: exclusive_def well_formed_def)
  have writes: "write_locks (locks_of ?H) - set (tl_writable ks) = write_locks (locks_of (H1 @ H2))"
    using comp by (auto simp: locks_of_def compatible_def)
  have small: "readers (H1 @ H2) k < 2 ^ 64 - 1" for k
    using H readers_le [of "H1 @ H2" k] by (simp add: exclusive_def)
  have count: "(case readonly_locks (locks_of ?H) k of Some c \<Rightarrow> if c - 1 = 0 then None else Some (c - 1) | None \<Rightarrow> None)
      = readonly_locks (locks_of (H1 @ H2)) k" if "k \<in> set (tl_readonly ks)" for k
  proof -
    have r: "readers ?H k = Suc (readers (H1 @ H2) k)" using that by (simp add: readers_def)
    have "(of_nat (readers (H1 @ H2) k) :: u64) = 0 \<longleftrightarrow> readers (H1 @ H2) k = 0"
      using small [of k] unat_of_nat_fits [of "readers (H1 @ H2) k", where 'a = 64] by (auto simp flip: unat_eq_0)
    then show ?thesis by (simp add: locks_of_def r)
  qed
  have "readonly_locks (locks_of ?H) k = readonly_locks (locks_of (H1 @ H2)) k" if "k \<notin> set (tl_readonly ks)" for k
    using that by (simp add: locks_of_def readers_def)
  with count have reads: "(\<lambda>k. if k \<in> set (tl_readonly ks) then (case readonly_locks (locks_of ?H) k of Some c \<Rightarrow> if c - 1 = 0 then None else Some (c - 1)
      | None \<Rightarrow> None) else readonly_locks (locks_of ?H) k) = readonly_locks (locks_of (H1 @ H2))"
    by (auto simp: fun_eq_iff)
  show "unlock_account (locks_of ?H) (tl_writable ks) (tl_readonly ks) = locks_of (H1 @ H2)"
    unfolding unlock_account_def unlock_all_write unlock_all_readonly [OF ks]
    by (rule account_locks.equality) (use writes reads in \<open>simp_all cong: if_cong option.case_cong\<close>)
  show "exclusive (H1 @ H2)" using H by (auto simp: exclusive_def sorted_wrt_append)
qed

lemma unlock_holders:
  "exclusive (H1 @ hs @ H2) \<Longrightarrow> fold (\<lambda>ks l. unlock_account l (tl_writable ks) (tl_readonly ks)) hs (locks_of (H1 @ hs @ H2)) = locks_of (H1 @ H2)
     \<and> exclusive (H1 @ H2)"
  by (induction hs) (use unlock_account_holder in auto)

section \<open>Interleaved batches\<close>

definition held :: "transaction_batch \<Rightarrow> transaction_account_locks list" where
  "held b = (if needs_unlock b then map (\<lambda>(tx, _). wanted (stx_message tx)) (filter (\<lambda>(_, x). x = Inr ()) (zip (sanitized_txs b) (lock_results b))) else [])"

definition holders :: "transaction_batch list \<Rightarrow> transaction_account_locks list" where
  "holders bs = concat (map held bs)"

text \<open>
  The operations on the locks of a bank, in any order: preparing a batch, with or without the results of the
  cost tracker (whose errors are \<open>WouldExceed\<close> ones), preparing a simulation, and unlocking a batch, once
  explicitly or when it is dropped, or both. Fewer than \<open>2 ^ 64\<close> transactions hold locks at a time.
\<close>

inductive batch_step :: "feature set \<Rightarrow> account_locks \<times> transaction_batch list \<Rightarrow> account_locks \<times> transaction_batch list \<Rightarrow> bool"
  for features where
  prepare: "prepare_sanitized_batch features txs l = Inr (b, l') \<Longrightarrow> length (holders bs) + length txs < 2 ^ 64
    \<Longrightarrow> batch_step features (l, bs) (l', bs @ [b])"
| prepare_with: "prepare_sanitized_batch_with_results features txs results l = Inr (b, l') \<Longrightarrow> length (holders bs) + length txs < 2 ^ 64
    \<Longrightarrow> \<forall>e. Inl e \<in> set results \<longrightarrow> e \<in> never_locked \<Longrightarrow> batch_step features (l, bs) (l', bs @ [b])"
| simulate: "prepare_simulation_batch features tx = Inr b \<Longrightarrow> batch_step features (l, bs) (l, bs @ [b])"
| unlock: "i < length bs \<Longrightarrow> unlock_batch (bs ! i) l = Inr (b, l') \<Longrightarrow> batch_step features (l, bs) (l', bs[i := b])"

definition batch_ok :: "transaction_batch \<Rightarrow> bool" where
  "batch_ok b \<longleftrightarrow> length (lock_results b) = length (sanitized_txs b)
     \<and> (needs_unlock b \<longrightarrow> (\<forall>e. Inl e \<in> set (lock_results b) \<longrightarrow> e \<in> never_locked))"

definition batches_ok :: "account_locks \<times> transaction_batch list \<Rightarrow> bool" where
  "batches_ok s \<longleftrightarrow> fst s = locks_of (holders (snd s)) \<and> exclusive (holders (snd s)) \<and> list_all batch_ok (snd s)"

lemma request_well_formed: "request features m = Inr ks \<Longrightarrow> ks = wanted m \<and> well_formed ks"
  using wanted_distinct by (auto simp: request_def well_formed_def split: if_splits)

lemma request_error: "request features m = Inl e \<Longrightarrow> e \<in> never_locked"
  by (auto simp: request_def never_locked_def split: if_splits)

text \<open>What a batch with the given requests does.\<close>

lemma locked_batch:
  assumes ok: "batches_ok (l, bs)" and len: "length (holders bs) + length txs < 2 ^ 64"
    and rs: "length rs = length txs"
    and req: "\<forall>i < length txs. (\<forall>ks. rs ! i = Inr ks \<longrightarrow> ks = wanted (stx_message (txs ! i)) \<and> well_formed ks)
      \<and> (\<forall>e. rs ! i = Inl e \<longrightarrow> e \<in> never_locked)"
    and b: "b = \<lparr>lock_results = fst (admit (holders bs) rs), sanitized_txs = txs, needs_unlock = True\<rparr>"
  shows "\<exists>l'. lock_accounts_inner rs l = Inr (fst (admit (holders bs) rs), l') \<and> batches_ok (l', bs @ [b])"
proof -
  let ?H = "holders bs" and ?res = "fst (admit (holders bs) rs)"
  have wf: "\<forall>ks. Inr ks \<in> set rs \<longrightarrow> well_formed ks" using req rs unfolding in_set_conv_nth by auto
  have excl: "exclusive ?H" and l: "l = locks_of ?H" using ok by (simp_all add: batches_ok_def)
  have step: "lock_accounts_inner rs l = Inr (?res, locks_of (snd (admit ?H rs)))" "exclusive (snd (admit ?H rs))"
    using lock_accounts_inner_admit [OF excl wf] len rs unfolding l by simp_all
  have lens: "length ?res = length txs" using rs by (simp add: admit_results(1))
  have "newly_held rs ?res = held b"
  proof -
    have zips: "zip rs ?res = map (\<lambda>i. (rs ! i, ?res ! i)) [0..<length txs]"
      by (rule nth_equalityI) (use rs lens in simp_all)
    have zip_txs: "zip txs ?res = map (\<lambda>i. (txs ! i, ?res ! i)) [0..<length txs]"
      by (rule nth_equalityI) (use lens in simp_all)
    have at: "(case rs ! i of Inr ks \<Rightarrow> ks | Inl _ \<Rightarrow> undefined) = wanted (stx_message (txs ! i))"
      if "i \<in> set (filter (\<lambda>i. ?res ! i = Inr ()) [0..<length txs])" for i
    proof -
      have i: "i < length txs" "?res ! i = Inr ()" using that by auto
      have "(rs ! i, ?res ! i) \<in> set (zip rs ?res)" using i(1) rs lens by (auto simp: set_zip)
      then obtain ks where "rs ! i = Inr ks" using admit_results(3) [of rs ?H] i(2) by force
      then show ?thesis using req i(1) by auto
    qed
    have "newly_held rs ?res = map (\<lambda>i. case rs ! i of Inr ks \<Rightarrow> ks | Inl _ \<Rightarrow> undefined) (filter (\<lambda>i. ?res ! i = Inr ()) [0..<length txs])"
      unfolding newly_held_def zips by (simp add: filter_map comp_def)
    also have "\<dots> = map (\<lambda>i. wanted (stx_message (txs ! i))) (filter (\<lambda>i. ?res ! i = Inr ()) [0..<length txs])"
      using at by (intro map_cong refl) blast
    also have "\<dots> = held b" unfolding held_def b by (simp add: zip_txs filter_map comp_def)
    finally show ?thesis .
  qed
  then have holders: "snd (admit ?H rs) = holders (bs @ [b])" by (simp add: admit_results(2) holders_def)
  have "e \<in> never_locked" if "Inl e \<in> set ?res" for e
    using admit_results(4) [OF that] req rs by (auto simp: never_locked_def in_set_conv_nth)
  then have "batch_ok b" using lens by (simp add: batch_ok_def b)
  with ok step holders show ?thesis by (auto simp: batches_ok_def)
qed

lemma unlocked_batch:
  assumes ok: "batches_ok (l, bs)" and i: "i < length bs"
  shows "\<exists>b l'. unlock_batch (bs ! i) l = Inr (b, l') \<and> batches_ok (l', bs[i := b])"
proof (cases "needs_unlock (bs ! i)")
  case False
  then show ?thesis using ok by (auto simp: unlock_batch_def)
next
  case True
  let ?b = "bs ! i" and ?b' = "(bs ! i)\<lparr>needs_unlock := False\<rparr>"
  let ?H1 = "holders (take i bs)" and ?H2 = "holders (drop (Suc i) bs)"
  have bs: "bs = take i bs @ ?b # drop (Suc i) bs" using i by (rule id_take_nth_drop)
  have "holders (take i bs @ ?b # drop (Suc i) bs) = ?H1 @ held ?b @ ?H2" by (simp add: holders_def)
  then have H: "holders bs = ?H1 @ held ?b @ ?H2" using bs by simp
  have "holders (take i bs @ ?b' # drop (Suc i) bs) = ?H1 @ ?H2" by (simp add: holders_def held_def)
  then have H': "holders (bs[i := ?b']) = ?H1 @ ?H2" using i by (simp add: upd_conv_take_nth_drop)
  have okb: "batch_ok ?b" using ok i by (simp add: batches_ok_def list_all_length)
  then have kept: "\<not> skips_unlock x \<longleftrightarrow> x = Inr ()" if "x \<in> set (lock_results ?b)" for x
    using True that by (cases x) (auto simp: batch_ok_def skips_unlock_def)
  have "filter (\<lambda>(_, x). \<not> skips_unlock x) (zip (sanitized_txs ?b) (lock_results ?b)) = filter (\<lambda>(_, x). x = Inr ()) (zip (sanitized_txs ?b) (lock_results ?b))"
    by (rule filter_cong [OF refl]) (use kept set_zip_rightD in fastforce)
  then have "unlock_accounts (sanitized_txs ?b) (lock_results ?b) l
      = Inr (fold (\<lambda>ks l. unlock_account l (tl_writable ks) (tl_readonly ks)) (held ?b) l)"
    using True by (simp add: unlock_accounts_def get_account_locks_unchecked_wanted held_def map_r_all [where g = "\<lambda>(tx, _). wanted (stx_message tx)"] case_prod_beta)
  moreover have "fold (\<lambda>ks l. unlock_account l (tl_writable ks) (tl_readonly ks)) (held ?b) l = locks_of (?H1 @ ?H2) \<and> exclusive (?H1 @ ?H2)"
    using unlock_holders [of ?H1 "held ?b" ?H2] ok H by (simp add: batches_ok_def)
  moreover have "list_all batch_ok (bs[i := ?b'])"
    using ok okb i by (auto simp: batches_ok_def list_all_length nth_list_update batch_ok_def)
  ultimately show ?thesis using True H' by (auto simp: unlock_batch_def batches_ok_def)
qed

definition requests :: "feature set \<Rightarrow> sanitized_transaction list \<Rightarrow> lock_request list" where
  "requests features txs = map (\<lambda>tx. request features (stx_message tx)) txs"

lemma prepared_batch:
  assumes "batches_ok (l, bs)" and "length (holders bs) + length txs < 2 ^ 64"
  shows "\<exists>l'. prepare_sanitized_batch features txs l = Inr (\<lparr>lock_results = fst (admit (holders bs) (requests features txs)),
      sanitized_txs = txs, needs_unlock = True\<rparr>, l')
    \<and> batches_ok (l', bs @ [\<lparr>lock_results = fst (admit (holders bs) (requests features txs)), sanitized_txs = txs, needs_unlock = True\<rparr>])"
proof -
  let ?rs = "requests features txs"
  have "map_r (\<lambda>tx. get_account_locks features (stx_message tx)) txs = Inr ?rs"
    unfolding requests_def by (rule map_r_all) (rule get_account_locks_request)
  moreover have "length (fst (admit (holders bs) ?rs)) = length txs" by (simp add: admit_results(1) requests_def)
  moreover have "\<forall>i < length txs. (\<forall>ks. ?rs ! i = Inr ks \<longrightarrow> ks = wanted (stx_message (txs ! i)) \<and> well_formed ks)
      \<and> (\<forall>e. ?rs ! i = Inl e \<longrightarrow> e \<in> never_locked)"
    using request_well_formed request_error by (simp add: requests_def)
  ultimately show ?thesis
    using locked_batch [OF assms, of ?rs, OF _ _ refl]
    by (auto simp: prepare_sanitized_batch_def lock_accounts_def transaction_batch_new_def guard_r_def requests_def)
qed

lemma prepared_with:
  assumes ok: "batches_ok (l, bs)" and len: "length (holders bs) + length txs < 2 ^ 64"
    and res: "\<forall>e. Inl e \<in> set results \<longrightarrow> e \<in> never_locked"
    and step: "prepare_sanitized_batch_with_results features txs results l = Inr (b, l')"
  shows "batches_ok (l', bs @ [b])"
proof -
  let ?f = "\<lambda>(tx, res). case res of Inr _ \<Rightarrow> request features (stx_message tx) | Inl e \<Rightarrow> Inl e"
  let ?rs = "map ?f (zip txs results)"
  have "map_r (\<lambda>(tx, res). case res of Inr _ \<Rightarrow> get_account_locks features (stx_message tx) | Inl e \<Rightarrow> Inr (Inl e)) (zip txs results) = Inr ?rs"
    by (rule map_r_all) (auto simp: get_account_locks_request split: sum.splits)
  then obtain out where out: "lock_accounts_inner ?rs l = Inr (out, l')" "length out = length txs"
      "b = \<lparr>lock_results = out, sanitized_txs = txs, needs_unlock = True\<rparr>"
    using step by (auto simp: prepare_sanitized_batch_with_results_def lock_accounts_with_results_def transaction_batch_new_def guard_r_def
      elim!: bind_r_InrE split: if_splits)
  have wf: "\<forall>ks. Inr ks \<in> set ?rs \<longrightarrow> well_formed ks"
    using request_well_formed by (auto split: sum.splits dest!: sym [of "Inr _"])
  have short: "length (holders bs) + length ?rs < 2 ^ 64" using len by simp
  have "out = fst (admit (holders bs) ?rs)"
    using lock_accounts_inner_admit [OF _ wf short] ok out(1) by (simp add: batches_ok_def)
  then have rs: "length ?rs = length txs" using out(2) admit_results(1) by metis
  moreover have "\<forall>i < length txs. (\<forall>ks. ?rs ! i = Inr ks \<longrightarrow> ks = wanted (stx_message (txs ! i)) \<and> well_formed ks)
      \<and> (\<forall>e. ?rs ! i = Inl e \<longrightarrow> e \<in> never_locked)"
  proof (intro allI impI)
    fix i assume "i < length txs"
    then have i: "i < length (zip txs results)" "results ! i \<in> set results" using rs by auto
    then have at: "?rs ! i = (case results ! i of Inr _ \<Rightarrow> request features (stx_message (txs ! i)) | Inl e \<Rightarrow> Inl e)" by simp
    show "(\<forall>ks. ?rs ! i = Inr ks \<longrightarrow> ks = wanted (stx_message (txs ! i)) \<and> well_formed ks) \<and> (\<forall>e. ?rs ! i = Inl e \<longrightarrow> e \<in> never_locked)"
      unfolding at by (cases "results ! i") (use i(2) res request_well_formed request_error in auto)
  qed
  ultimately show ?thesis
    using locked_batch [OF ok len, of ?rs b] out \<open>out = fst (admit (holders bs) ?rs)\<close> by auto
qed

lemma batch_step_ok: "batch_step features s s' \<Longrightarrow> batches_ok s \<Longrightarrow> batches_ok s'"
proof (induction rule: batch_step.induct)
  case (prepare txs l b l' bs)
  then show ?case using prepared_batch [OF prepare(3,2), of features] by auto
next
  case (prepare_with txs results l b l' bs)
  then show ?case by (intro prepared_with)
next
  case (simulate tx b l bs)
  then have "held b = []" "batch_ok b"
    by (auto simp: prepare_simulation_batch_def get_account_locks_request transaction_batch_new_def guard_r_def held_def batch_ok_def)
  then show ?case using simulate(2) by (simp add: batches_ok_def holders_def)
next
  case (unlock i bs l b l')
  then show ?case using unlocked_batch [OF unlock(3,1)] by auto
qed

lemma reachable_batches:
  assumes "(batch_step features)\<^sup>*\<^sup>* (account_locks_default, []) s"
  shows "batches_ok s"
  using assms
proof (induction rule: rtranclp_induct)
  case base
  show ?case by (simp add: batches_ok_def holders_def account_locks_default_def locks_of_def readers_def exclusive_def)
next
  case (step s s')
  then show ?case using batch_step_ok by blast
qed

text \<open>
  C13: Locks are exclusive. However the threads of the validator interleave preparing, simulating, unlocking
  and dropping batches, no two transactions that hold locks conflict, neither in one batch nor across
  batches: a key one of them writes is a key of no other. Preparing one more batch never panics and locks
  exactly the transactions that conflict with no holder and no earlier transaction of the batch. When
  every batch has been unlocked, no account is locked.
\<close>

theorem locks_are_exclusive:
  assumes "(batch_step features)\<^sup>*\<^sup>* (account_locks_default, []) (l, bs)"
  shows "(\<forall>i j. i < j \<longrightarrow> j < length (holders bs) \<longrightarrow> compatible (holders bs ! i) (holders bs ! j))
    \<and> (length (holders bs) + length txs < 2 ^ 64 \<longrightarrow> (\<exists>l'. prepare_sanitized_batch features txs l =
        Inr (\<lparr>lock_results = fst (admit (holders bs) (requests features txs)), sanitized_txs = txs, needs_unlock = True\<rparr>, l')))
    \<and> (\<forall>i < length bs. \<exists>b l'. unlock_batch (bs ! i) l = Inr (b, l'))
    \<and> (list_all (\<lambda>b. \<not> needs_unlock b) bs \<longrightarrow> l = account_locks_default)"
proof -
  note ok = reachable_batches [OF assms]
  have "\<forall>i j. i < j \<longrightarrow> j < length (holders bs) \<longrightarrow> compatible (holders bs ! i) (holders bs ! j)"
    using ok by (simp add: batches_ok_def exclusive_def sorted_wrt_iff_nth_less)
  moreover have "length (holders bs) + length txs < 2 ^ 64 \<longrightarrow> (\<exists>l'. prepare_sanitized_batch features txs l =
      Inr (\<lparr>lock_results = fst (admit (holders bs) (requests features txs)), sanitized_txs = txs, needs_unlock = True\<rparr>, l'))"
    using prepared_batch [OF ok, of txs features] by blast
  moreover have "\<forall>i < length bs. \<exists>b l'. unlock_batch (bs ! i) l = Inr (b, l')" using unlocked_batch [OF ok] by blast
  moreover have "holders bs = []" if "list_all (\<lambda>b. \<not> needs_unlock b) bs" using that by (auto simp: holders_def held_def list_all_iff)
  then have "list_all (\<lambda>b. \<not> needs_unlock b) bs \<longrightarrow> l = account_locks_default"
    using ok by (auto simp: batches_ok_def account_locks_default_def locks_of_def readers_def)
  ultimately show ?thesis by blast
qed

definition example_transaction :: "pubkey \<Rightarrow> sanitized_transaction" where
  "example_transaction k = \<lparr>stx_message = Legacy \<lparr>lm_header = \<lparr>num_required_signatures = 1, num_readonly_signed_accounts = 0,
     num_readonly_unsigned_accounts = 1\<rparr>, lm_account_keys = [k, 9], lm_recent_blockhash = 7, lm_instructions = []\<rparr>,
     stx_message_hash = 0, stx_is_simple_vote_tx = False, stx_signatures = []\<rparr>"

lemma example_request:
  "request {} (stx_message (example_transaction 5)) = Inr \<lparr>tl_readonly = [9], tl_writable = [5]\<rparr>"
  "request {} (stx_message (example_transaction 6)) = Inr \<lparr>tl_readonly = [9], tl_writable = [6]\<rparr>"
  using small_keys_plain
  by (simp_all add: example_transaction_def request_def wanted_def legacy_is_writable_def called_as_program_def u8_index_def index_r_def)

theorem locks_are_exclusive_witness:
  "\<exists>l b. (batch_step {})\<^sup>*\<^sup>* (account_locks_default, []) (l, [b]) \<and> lock_results b = [Inr (), Inr ()]
    \<and> (\<exists>l'. prepare_sanitized_batch {} [example_transaction 5] l = Inr (\<lparr>lock_results = [Inl AccountInUse],
        sanitized_txs = [example_transaction 5], needs_unlock = True\<rparr>, l'))"
proof -
  let ?txs = "[example_transaction 5, example_transaction 6]"
  let ?b = "\<lparr>lock_results = [Inr (), Inr ()], sanitized_txs = ?txs, needs_unlock = True\<rparr>"
  have ok: "batches_ok (account_locks_default, [])" by (rule reachable_batches) blast
  have first: "fst (admit (holders []) (requests {} ?txs)) = [Inr (), Inr ()]"
    by (simp add: requests_def example_request holders_def compatible_def)
  obtain l where l: "prepare_sanitized_batch {} ?txs account_locks_default = Inr (?b, l)"
    using prepared_batch [OF ok, of ?txs "{}"] unfolding first by (auto simp: holders_def)
  have step: "batch_step {} (account_locks_default, []) (l, [] @ [?b])"
    by (rule batch_step.prepare [OF l]) (simp add: holders_def)
  then have reach: "(batch_step {})\<^sup>*\<^sup>* (account_locks_default, []) (l, [?b])" by simp
  have "wanted (stx_message (example_transaction 5)) = \<lparr>tl_readonly = [9], tl_writable = [5]\<rparr>"
    "wanted (stx_message (example_transaction 6)) = \<lparr>tl_readonly = [9], tl_writable = [6]\<rparr>"
    using request_well_formed [OF example_request(1)] request_well_formed [OF example_request(2)] by simp_all
  then have "holders [?b] = [\<lparr>tl_readonly = [9], tl_writable = [5]\<rparr>, \<lparr>tl_readonly = [9], tl_writable = [6]\<rparr>]"
    by (simp add: holders_def held_def)
  then have again: "fst (admit (holders [?b]) (requests {} [example_transaction 5])) = [Inl AccountInUse]"
    "length (holders [?b]) + length [example_transaction 5] < 2 ^ 64"
    by (simp_all add: requests_def example_request compatible_def)
  have "\<exists>l'. prepare_sanitized_batch {} [example_transaction 5] l = Inr (\<lparr>lock_results = [Inl AccountInUse],
      sanitized_txs = [example_transaction 5], needs_unlock = True\<rparr>, l')"
    unfolding again(1) [symmetric] using locks_are_exclusive [OF reach, of "[example_transaction 5]"] again(2) by blast
  then show ?thesis using reach by (intro exI [of _ l] exI [of _ ?b]) simp
qed

end
