(* ===== verification/Spec2Isabelle.thy ===== *)
theory Spec2Isabelle
  imports Vote_Safety System_Safety Short_Vec Epoch_Schedule Invocation_Safety Rewards_Safety Ancestors Account_Locks
begin

text \<open>
  Verification of the native programs of the validator and of the parts of its runtime they rest on: the
  vote, stake and system programs, the invocation of programs with the checks that follow it, messages
  and the locks on their accounts, the stakes cache with the rewards of an epoch, and the data
  structures and schedules they use. The sources are Rust; paths below are relative to \<open>src/\<close>.

  \<^bold>\<open>The program and its parts.\<close> A transaction carries a message: keys with privileges and instructions
  (\<open>sdk/program/src/message\<close>). The bank takes a batch of transactions, locks the accounts of each
  (\<open>runtime/src/accounts.rs\<close>) and lets the message processor (\<open>runtime/src/message_processor.rs\<close>) run the
  instructions one by one through the invoke context (\<open>program-runtime/src/invoke_context.rs\<close>), which calls
  the program, a builtin or a loaded one, and compares every account before and after it
  (\<open>pre_account.rs\<close>). The builtin programs here are the vote program (\<open>programs/vote\<close>), the stake program
  (\<open>programs/stake\<close>) and the system program with durable nonces
  (\<open>runtime/src/system_instruction_processor.rs\<close>, \<open>nonce_keyed_account.rs\<close>). Every store of a vote or
  stake account updates the stakes cache (\<open>runtime/src/stakes.rs\<close>, \<open>vote_account.rs\<close>); at the boundary of
  an epoch the bank pays rewards from it (\<open>runtime/src/bank.rs\<close>). The ancestors of a bank are a rolling
  bit field (\<open>runtime/src/ancestors.rs\<close>, \<open>accounts_index.rs\<close>).

  \<^bold>\<open>How code is modelled.\<close> Unsigned integers are words of their width, whose plain operations wrap;
  lengths are \<open>nat\<close>; \<open>i64\<close> is \<open>int\<close>; \<open>f64\<close> is exact, with its rounding (\<open>Floats\<close>). A fallible
  operation is a value of \<open>result\<close>, with a constructor for each error of the source and \<open>Panicked\<close> for
  a failed assertion, an index out of range or an \<open>unwrap\<close>. Accounts are a function from keys to accounts, so
  that two entries of an instruction with the same key are the same account. A \<open>BTreeMap\<close> is a sorted
  association list and a \<open>HashMap\<close> an association list, each behind a locale of its laws. Code of other
  crates is a parameter: the encoders of stored states (\<open>codec\<close>, with the law \<open>codec_ok\<close> that reading
  gives back what was written), decoders of instructions, SHA-256, the bit vector of \<open>bv\<close> (\<open>bit_ops_ok\<close>),
  and loaded programs. Operations under a mutex or a read-write lock are single steps, and threads are
  interleavings of them.

  \<^bold>\<open>Theories and sources.\<close>
  \<^item> \<open>Prelude\<close>: integers, results, and the locales \<open>inv_machine\<close> and \<open>fallible_machine\<close> for runs of
    operations with an invariant, interpreted by each program. \<open>Ordered_Map\<close>, \<open>Hash_Map\<close>: the maps.
    \<open>Floats\<close>, \<open>Rent\<close> (\<open>sdk/program/src/rent.rs\<close>). \<open>Accounts\<close> (\<open>sdk/src/account.rs\<close>,
    \<open>keyed_account.rs\<close>), \<open>Invoke_Context\<close> (what programs read of the context, and features).
  \<^item> \<open>Authorized_Voters\<close>, \<open>Vote_State\<close> (\<open>programs/vote/src/vote_state/mod.rs\<close>), with \<open>Vote_Tower\<close>
    (lockouts and roots), \<open>Vote_Checks\<close> (acceptance of votes and of proposed towers), \<open>Vote_Credits\<close>
    (credits, commission, voters); \<open>Vote_Program\<close> (all instructions, \<open>vote_instruction.rs\<close>);
    \<open>Vote_Safety\<close> (what an instruction can do to the store).
  \<^item> \<open>Histories\<close> (stake history, slot hashes), \<open>Stake_State\<close> (\<open>sdk/program/src/stake/state.rs\<close>: warm-up
    and cool-down), \<open>Stake_Account\<close>, \<open>Stake_Program\<close> (\<open>programs/stake/src\<close>), \<open>Stake_Effect\<close>,
    \<open>Stake_Safety\<close>, \<open>Stake_Backing\<close> (what an instruction can do, and whether lamports cover stakes).
  \<^item> \<open>Nonce\<close>, \<open>System_Program\<close>, \<open>System_Safety\<close>: the system program and durable nonces.
  \<^item> \<open>Pre_Account\<close>, \<open>Compute_Budget\<close>, \<open>Invocation\<close>, \<open>Invocation_Safety\<close>: checks after an instruction,
    compute units, the invocation stack and the message processor.
  \<^item> \<open>Messages\<close> (\<open>sdk/program/src/message\<close>, \<open>sdk/src/transaction/sanitized.rs\<close>), \<open>Account_Locks\<close>
    (\<open>AccountLocks\<close>, \<open>transaction_batch.rs\<close>), \<open>Short_Vec\<close> (compact lengths).
  \<^item> \<open>Vote_Accounts\<close>, \<open>Stakes\<close>, \<open>Stakes_Safety\<close>: the stakes cache. \<open>Stake_Rewards\<close>,
    \<open>Validator_Rewards\<close>, \<open>Rewards_Safety\<close>: the rewards of one stake and of an epoch.
  \<^item> \<open>Rolling_Bits\<close>, \<open>Ancestors\<close>: sets of slots. \<open>Epoch_Schedule\<close>: slots and epochs.

  \<^bold>\<open>What is shown.\<close>
  \<^item> Votes: the tower stays well formed over any votes; no vote is dropped while it locks out; a credit is
    earned exactly when the root advances; a vote is accepted exactly when its slots and hash match; a
    proposed tower is accepted exactly under its contract, of which a single vote is a special case.
  \<^item> Programs: each successful instruction is a change permitted by the signatures it has (\<open>vote_effect\<close>,
    \<open>stake_effect\<close>, \<open>system_effect\<close>), lamports are conserved over any run, and leave an account only with
    the signature of who may withdraw. A stake stays covered by lamports unless a deactivation is taken
    back, which the code allows without looking at the balance.
  \<^item> Runtime: whatever a program does, a successful instruction keeps the contract of every account, and a
    message conserves lamports and touches only its accounts. A compiled message gives the processor the
    instructions it was compiled from, with the privileges asked for, if no key is a read-only signer in one
    account and writable in another, in which case it may not. Under every interleaving of batches no two
    conflicting transactions hold locks, and nothing stays locked.
  \<^item> Stakes and rewards: the cache holds exactly the sums over all delegations, and panics on an
    inactive delegation when the feature that removes them is off. Paying an epoch's rewards never panics, keeps the
    cache exact and pays no more than the budget; credits are paid once.
  \<^item> Data structures: the rolling bit field is a set as long as slots grow, its loop always ends, and it
    forgets a slot when one below the excess is inserted into emptied bits. Lengths, vectors, slots and
    epochs have round trips; histories return what they were given within their window.

  \<^bold>\<open>Bounds and fuel.\<close> Loops are recursion on lists or have a measure. The cool-down of stake recurs over
  epochs that the history holds. The loop that makes room in the rolling bit field has no measure
  of its own: it is a \<open>partial_function\<close> proved to return for every field and key
  (\<open>rolling_insert_terminates\<close>). No definition takes fuel. The calls a program makes to other programs are
  part of the program, which is an arbitrary transformer of the runtime state, so that no recursion arises. Sums of lamports are bounded by hypotheses of the theorems that need them,
  and fewer than \<open>2 ^ 64\<close> transactions hold locks at a time.

  \<^bold>\<open>Not modelled.\<close> Serialisation, hashing and cryptography are parameters. The virtual machine of loaded
  programs, the accounts database and snapshots, the rest of the bank (loading and committing transactions,
  fees, rent collection, blockhash queue and status cache, freezing), the config and address lookup table
  programs, the cost model, and the validator around the runtime (replay and fork choice, banking and
  broadcast stages, ledger, proof of history, gossip, RPC, clients, command line) are left out: they are
  threads over sockets and files, foreign code, or rest on the database.
\<close>

end
